(* ===== verification/Murmur_Prelude.thy ===== *)
theory Murmur_Prelude
  imports Main "HOL-Library.Word" "HOL-Library.Sublist"
begin

text \<open>
  Shared vocabulary of the development: the machine types the sources name, the few
  operations of the Rust standard library that several components use (searching a
  slice, little-endian integers, the \<open>?\<close> operator on \<open>Result\<close>), and the generic
  lemmas on lists and quorums that the component theories rest on.

  \<^item> \<open>u64\<close> quantities (terms, log indices, node ids, sequence numbers) are \<open>nat\<close>. The
    code only ever increments them by one, takes maxima and compares them; where their
    width is observable (the byte codecs and the nonce) it is written out.
  \<^item> \<open>Vec<u8>\<close> is a list of 8-bit words.
\<close>

section \<open>Machine types\<close>

type_synonym byte = "8 word"
type_synonym bytes = "byte list"

text \<open>
  Collections the component theories extend: \<open>frame\<close> holds the facts saying which fields
  an operation leaves alone, \<open>parses\<close> the rules that build a parser's correctness.
\<close>

named_theorems frame \<open>fields an operation does not touch\<close>
named_theorems parse_intros \<open>introduction rules for byte parsers\<close>

section \<open>Searching a slice\<close>

text \<open>\<open>Iterator::position\<close> and \<open>Iterator::rposition\<close>.\<close>

fun position :: "('a \<Rightarrow> bool) \<Rightarrow> 'a list \<Rightarrow> nat option" where
  "position P [] = None"
| "position P (x # xs) = (if P x then Some 0 else map_option Suc (position P xs))"

definition rposition :: "('a \<Rightarrow> bool) \<Rightarrow> 'a list \<Rightarrow> nat option" where
  "rposition P xs = map_option (\<lambda>i. length xs - 1 - i) (position P (rev xs))"

lemma position_None_iff [simp]: "position P xs = None \<longleftrightarrow> (\<forall>x \<in> set xs. \<not> P x)"
  by (induction xs) auto

lemma position_SomeD:
  assumes "position P xs = Some i"
  shows "i < length xs" "P (xs ! i)" "\<And>j. j < i \<Longrightarrow> \<not> P (xs ! j)"
proof -
  have "i < length xs \<and> P (xs ! i) \<and> (\<forall>j<i. \<not> P (xs ! j))"
    using assms
  proof (induction xs arbitrary: i)
    case Nil
    then show ?case by simp
  next
    case (Cons x xs)
    show ?case
    proof (cases "P x")
      case True
      with Cons.prems show ?thesis by simp
    next
      case False
      with Cons.prems obtain k where k: "position P xs = Some k" "i = Suc k" by auto
      with Cons.IH [OF k(1)] False show ?thesis by (auto simp: less_Suc_eq_0_disj)
    qed
  qed
  then show "i < length xs" "P (xs ! i)" "\<And>j. j < i \<Longrightarrow> \<not> P (xs ! j)" by auto
qed

lemma rposition_None_iff [simp]: "rposition P xs = None \<longleftrightarrow> (\<forall>x \<in> set xs. \<not> P x)"
  by (simp add: rposition_def)

lemma rposition_SomeD:
  assumes "rposition P xs = Some i"
  shows "i < length xs" "P (xs ! i)" "\<And>j. i < j \<Longrightarrow> j < length xs \<Longrightarrow> \<not> P (xs ! j)"
proof -
  from assms obtain k where k: "position P (rev xs) = Some k" and i: "i = length xs - 1 - k"
    by (auto simp: rposition_def)
  note pk = position_SomeD [OF k]
  from pk(1) have lt: "k < length xs" by simp
  then show "i < length xs" using i by simp
  from pk(2) lt i show "P (xs ! i)" by (simp add: rev_nth)
  fix j
  assume "i < j" "j < length xs"
  then have "length xs - 1 - j < k" using i lt by linarith
  from pk(3) [OF this] \<open>j < length xs\<close> show "\<not> P (xs ! j)"
    by (simp add: rev_nth)
qed

section \<open>Results\<close>

text \<open>The \<open>?\<close> operator: stop at the first error, \<open>Inl\<close>.\<close>

fun res_bind :: "'e + 'a \<Rightarrow> ('a \<Rightarrow> 'e + 'b) \<Rightarrow> 'e + 'b" where
  "res_bind (Inl e) f = Inl e"
| "res_bind (Inr x) f = f x"

lemma res_bind_Inr_iff:
  "res_bind m f = Inr y \<longleftrightarrow> (\<exists>x. m = Inr x \<and> f x = Inr y)"
  by (cases m) auto

section \<open>Lists\<close>

lemma take_eq_trans:
  assumes "take n xs = take n ys" "m \<le> n"
  shows "take m xs = take m ys"
  using assms by (metis min.absorb1 take_take)

lemma take_eq_nth:
  assumes "take n xs = take n ys" "i < n" 
  shows "xs ! i = ys ! i"
  using assms by (metis nth_take)

lemma take_eq_length:
  assumes "take n xs = take n ys" "n \<le> length xs"
  shows "n \<le> length ys"
  using assms by (metis length_take min.absorb2 min.cobounded1)

section \<open>Quorums\<close>

text \<open>
  The only fact consensus uses about majorities is that two of them meet. A client of
  this interface never counts.
\<close>

locale quorum_system =
  fixes quorum :: "'n set \<Rightarrow> bool"
  assumes quorum_meet: "quorum Q \<Longrightarrow> quorum R \<Longrightarrow> Q \<inter> R \<noteq> {}"
begin

lemma quorum_witness:
  assumes "quorum Q" "quorum R"
  obtains v where "v \<in> Q" "v \<in> R"
  using quorum_meet [OF assms] by blast

text \<open>
  If every member of a quorum backs at most one choice, two quorums cannot back two
  different choices.
\<close>

lemma quorum_agree:
  assumes "quorum Q" "quorum R"
    and "\<And>v. v \<in> Q \<Longrightarrow> backs v a" "\<And>v. v \<in> R \<Longrightarrow> backs v b"
    and "\<And>v x y. backs v x \<Longrightarrow> backs v y \<Longrightarrow> x = y"
  shows "a = b"
  using assms by (meson quorum_witness)

end

lemma majorities_meet:
  assumes "finite M" "Q \<subseteq> M" "R \<subseteq> M" "card M < card Q + card R"
  shows "Q \<inter> R \<noteq> {}"
proof
  assume "Q \<inter> R = {}"
  then have "card (Q \<union> R) = card Q + card R"
    using assms by (intro card_Un_disjoint) (auto intro: finite_subset)
  moreover have "card (Q \<union> R) \<le> card M"
    using assms by (intro card_mono) auto
  ultimately show False using assms(4) by simp
qed

end
