(* ===== verification/Raft_Types.thy ===== *)
theory Raft_Types
  imports Murmur_Prelude
begin

text \<open>
  The core values of \<^verbatim>\<open>src/raft/types.rs\<close>: roles, log entries, the items of the apply
  stream, and the replicated \<open>Log\<close> with its snapshot offset. The last section relates a
  compacted log to the uncompacted list of entries it stands for.
\<close>

section \<open>Values\<close>

datatype role = Follower | Candidate | Leader

record log_entry =
  le_term :: nat
  le_command :: bytes

definition log_entry_new :: "nat \<Rightarrow> bytes \<Rightarrow> log_entry" where
  "log_entry_new t c = \<lparr>le_term = t, le_command = c\<rparr>"

record applied =
  ap_index :: nat
  ap_term :: nat
  ap_command :: bytes

record snapshot =
  sn_last_included_index :: nat
  sn_last_included_term :: nat
  sn_data :: bytes

datatype apply_item = ApplyCommand applied | ApplySnapshot snapshot

section \<open>The log\<close>

record raft_log =
  lg_entries :: "log_entry list"
  lg_snapshot_index :: nat
  lg_snapshot_term :: nat

definition log_new :: raft_log where
  "log_new = \<lparr>lg_entries = [], lg_snapshot_index = 0, lg_snapshot_term = 0\<rparr>"

definition from_entries :: "log_entry list \<Rightarrow> raft_log" where
  "from_entries es = \<lparr>lg_entries = es, lg_snapshot_index = 0, lg_snapshot_term = 0\<rparr>"

definition from_parts :: "nat \<Rightarrow> nat \<Rightarrow> log_entry list \<Rightarrow> raft_log" where
  "from_parts si st es = \<lparr>lg_entries = es, lg_snapshot_index = si, lg_snapshot_term = st\<rparr>"

definition log_len :: "raft_log \<Rightarrow> nat" where
  "log_len l = length (lg_entries l)"

definition log_is_empty :: "raft_log \<Rightarrow> bool" where
  "log_is_empty l = (lg_entries l = [])"

definition last_index :: "raft_log \<Rightarrow> nat" where
  "last_index l = lg_snapshot_index l + length (lg_entries l)"

definition last_term :: "raft_log \<Rightarrow> nat" where
  "last_term l = (if lg_entries l = [] then lg_snapshot_term l else le_term (last (lg_entries l)))"

definition term_at :: "raft_log \<Rightarrow> nat \<Rightarrow> nat option" where
  "term_at l index =
     (if index = lg_snapshot_index l then Some (lg_snapshot_term l)
      else if index > lg_snapshot_index l \<and> index \<le> last_index l
      then Some (le_term (lg_entries l ! (index - lg_snapshot_index l - 1)))
      else None)"

definition first_index_of_term :: "raft_log \<Rightarrow> nat \<Rightarrow> nat option" where
  "first_index_of_term l t =
     map_option (\<lambda>i. lg_snapshot_index l + i + 1) (position (\<lambda>e. le_term e = t) (lg_entries l))"

definition last_index_of_term :: "raft_log \<Rightarrow> nat \<Rightarrow> nat option" where
  "last_index_of_term l t =
     map_option (\<lambda>i. lg_snapshot_index l + i + 1) (rposition (\<lambda>e. le_term e = t) (lg_entries l))"

definition log_get :: "raft_log \<Rightarrow> nat \<Rightarrow> log_entry option" where
  "log_get l index =
     (if index \<le> lg_snapshot_index l \<or> index > last_index l then None
      else Some (lg_entries l ! (index - lg_snapshot_index l - 1)))"

definition log_append :: "raft_log \<Rightarrow> log_entry \<Rightarrow> raft_log \<times> nat" where
  "log_append l e =
     (let l' = l\<lparr>lg_entries := lg_entries l @ [e]\<rparr> in (l', last_index l'))"

definition entries_after :: "raft_log \<Rightarrow> nat \<Rightarrow> log_entry list" where
  "entries_after l index =
     drop (min (index - lg_snapshot_index l) (length (lg_entries l))) (lg_entries l)"

definition truncate_after :: "raft_log \<Rightarrow> nat \<Rightarrow> raft_log" where
  "truncate_after l index =
     l\<lparr>lg_entries := take (index - lg_snapshot_index l) (lg_entries l)\<rparr>"

definition compact :: "raft_log \<Rightarrow> nat \<Rightarrow> nat \<Rightarrow> raft_log" where
  "compact l li lt =
     (if li \<le> lg_snapshot_index l then l
      else
        (let es = (if li \<le> last_index l \<and> term_at l li = Some lt
                   then drop (li - lg_snapshot_index l) (lg_entries l)
                   else [])
         in \<lparr>lg_entries = es, lg_snapshot_index = li, lg_snapshot_term = lt\<rparr>))"

lemmas log_defs =
  log_new_def from_entries_def from_parts_def log_len_def log_is_empty_def last_index_def
  last_term_def term_at_def first_index_of_term_def last_index_of_term_def log_get_def
  log_append_def entries_after_def truncate_after_def compact_def

section \<open>A compacted log stands for a whole log\<close>

text \<open>
  \<open>term_of L i\<close> is the term at the 1-based position \<open>i\<close> of a whole log \<open>L\<close>, with the
  synthetic origin at 0. \<open>represents L l\<close> says that \<open>l\<close> is \<open>L\<close> with the first
  \<open>lg_snapshot_index l\<close> entries forgotten and the term of the last forgotten one kept.
\<close>

definition term_of :: "log_entry list \<Rightarrow> nat \<Rightarrow> nat" where
  "term_of L i = (if i = 0 then 0 else le_term (L ! (i - 1)))"

definition represents :: "log_entry list \<Rightarrow> raft_log \<Rightarrow> bool" where
  "represents L l \<longleftrightarrow>
     lg_snapshot_index l \<le> length L \<and>
     lg_entries l = drop (lg_snapshot_index l) L \<and>
     lg_snapshot_term l = term_of L (lg_snapshot_index l)"

lemma term_of_0 [simp]: "term_of L 0 = 0"
  by (simp add: term_of_def)

lemma term_of_Suc [simp]: "term_of L (Suc i) = le_term (L ! i)"
  by (simp add: term_of_def)

lemma term_of_take: "i \<le> n \<Longrightarrow> term_of (take n L) i = term_of L i"
  by (simp add: term_of_def)

lemma term_of_append1: "i \<le> length L \<Longrightarrow> term_of (L @ M) i = term_of L i"
  by (cases i) (simp_all add: nth_append)

lemma term_of_take_eq: "take n L = take n M \<Longrightarrow> i \<le> n \<Longrightarrow> term_of L i = term_of M i"
  by (metis term_of_take)

lemma representsI:
  assumes "lg_snapshot_index l \<le> length L" "lg_entries l = drop (lg_snapshot_index l) L"
    and "lg_snapshot_term l = term_of L (lg_snapshot_index l)"
  shows "represents L l"
  using assms by (simp add: represents_def)

lemma representsD:
  assumes "represents L l"
  shows "lg_snapshot_index l \<le> length L" "lg_entries l = drop (lg_snapshot_index l) L"
    and "lg_snapshot_term l = term_of L (lg_snapshot_index l)"
  using assms by (simp_all add: represents_def)

text \<open>
  The interface: what every operation of a log does, seen through the whole log it
  stands for. \<open>base\<close> is the number of entries that are no longer readable.
\<close>

locale indexed_log =
  fixes repr :: "log_entry list \<Rightarrow> 'l \<Rightarrow> bool"
    and base :: "'l \<Rightarrow> nat"
    and lastIndex :: "'l \<Rightarrow> nat"
    and lastTerm :: "'l \<Rightarrow> nat"
    and termAt :: "'l \<Rightarrow> nat \<Rightarrow> nat option"
    and getAt :: "'l \<Rightarrow> nat \<Rightarrow> log_entry option"
    and appendEntry :: "'l \<Rightarrow> log_entry \<Rightarrow> 'l \<times> nat"
    and entriesAfter :: "'l \<Rightarrow> nat \<Rightarrow> log_entry list"
    and truncateAfter :: "'l \<Rightarrow> nat \<Rightarrow> 'l"
    and compactTo :: "'l \<Rightarrow> nat \<Rightarrow> nat \<Rightarrow> 'l"
  assumes base_le: "repr L l \<Longrightarrow> base l \<le> length L"
    and lastIndex: "repr L l \<Longrightarrow> lastIndex l = length L"
    and lastTerm: "repr L l \<Longrightarrow> lastTerm l = term_of L (length L)"
    and termAt: "repr L l \<Longrightarrow>
      termAt l i = (if base l \<le> i \<and> i \<le> length L then Some (term_of L i) else None)"
    and getAt: "repr L l \<Longrightarrow>
      getAt l i = (if base l < i \<and> i \<le> length L then Some (L ! (i - 1)) else None)"
    and append_repr: "repr L l \<Longrightarrow> repr (L @ [e]) (fst (appendEntry l e))"
    and append_index: "repr L l \<Longrightarrow> snd (appendEntry l e) = Suc (length L)"
    and append_base: "base (fst (appendEntry l e)) = base l"
    and entriesAfter: "repr L l \<Longrightarrow> entriesAfter l i = drop (max i (base l)) L"
    and truncate_repr: "repr L l \<Longrightarrow> repr (take (max i (base l)) L) (truncateAfter l i)"
    and truncate_base: "base (truncateAfter l i) = base l"
    and compact_keep: "repr L l \<Longrightarrow> i \<le> length L \<Longrightarrow> t = term_of L i \<Longrightarrow> repr L (compactTo l i t)"
    and compact_replace: "repr L l \<Longrightarrow> base l < length M \<Longrightarrow> t = term_of M (length M) \<Longrightarrow>
      length L < length M \<or> term_of L (length M) \<noteq> t \<Longrightarrow> repr M (compactTo l (length M) t)"
    and compact_base: "base (compactTo l i t) = max i (base l)"
begin

text \<open>What a leader ships after an index, glued to the part before it, is its whole log.\<close>

lemma ship_rest:
  assumes "repr L l" "base l \<le> i"
  shows "take i L @ entriesAfter l i = L"
  using assms by (simp add: entriesAfter max_absorb1)

lemma ship_length:
  assumes "repr L l" "base l \<le> i" "i \<le> length L"
  shows "i + length (entriesAfter l i) = lastIndex l"
  using assms by (simp add: entriesAfter lastIndex max_absorb1)

text \<open>Reading an entry and reading its term agree.\<close>

lemma getAt_termAt:
  assumes "repr L l" "getAt l i = Some e"
  shows "termAt l i = Some (le_term e)"
proof -
  from assms have i: "base l < i" "i \<le> length L" "e = L ! (i - 1)"
    by (auto simp: getAt split: if_splits)
  then have "term_of L i = le_term e" by (simp add: term_of_def)
  with i assms(1) show ?thesis by (simp add: termAt)
qed

lemma last_is_termAt:
  assumes "repr L l"
  shows "termAt l (lastIndex l) = Some (lastTerm l)"
  using assms base_le [OF assms] by (simp add: termAt lastIndex lastTerm)

text \<open>Compaction never changes what an index above the boundary reads as.\<close>

lemma compact_termAt:
  assumes "repr L l" "i \<le> length L" "j \<le> length L" "i \<le> j" "base l \<le> j"
  shows "termAt (compactTo l i (term_of L i)) j = termAt l j"
proof -
  have "repr L (compactTo l i (term_of L i))"
    using assms by (intro compact_keep) simp_all
  with assms show ?thesis by (simp add: termAt compact_base)
qed

end

lemma represents_last_index: "represents L l \<Longrightarrow> last_index l = length L"
  by (simp add: represents_def last_index_def)

lemma represents_last_term:
  assumes "represents L l"
  shows "last_term l = term_of L (length L)"
proof (cases "lg_snapshot_index l < length L")
  case True
  then have "last (drop (lg_snapshot_index l) L) = L ! (length L - 1)"
    by (metis last_conv_nth last_drop leD list.size(3) zero_le)
  moreover from True have "length L \<noteq> 0" by linarith
  ultimately show ?thesis
    using True representsD [OF assms] by (simp add: last_term_def term_of_def)
next
  case False
  with representsD [OF assms] show ?thesis by (simp add: last_term_def)
qed

lemma represents_term_at:
  assumes "represents L l"
  shows "term_at l i =
    (if lg_snapshot_index l \<le> i \<and> i \<le> length L then Some (term_of L i) else None)"
  using representsD [OF assms] represents_last_index [OF assms]
  by (auto simp: term_at_def term_of_def)

lemma represents_log_get:
  assumes "represents L l"
  shows "log_get l i =
    (if lg_snapshot_index l < i \<and> i \<le> length L then Some (L ! (i - 1)) else None)"
  using representsD [OF assms] represents_last_index [OF assms]
  by (auto simp: log_get_def)

lemma represents_append: "represents L l \<Longrightarrow> represents (L @ [e]) (fst (log_append l e))"
  by (simp add: represents_def log_append_def Let_def term_of_append1)

lemma represents_append_index: "represents L l \<Longrightarrow> snd (log_append l e) = Suc (length L)"
  by (simp add: represents_def log_append_def Let_def last_index_def)

lemma represents_entries_after:
  assumes "represents L l"
  shows "entries_after l i = drop (max i (lg_snapshot_index l)) L"
proof -
  note r = representsD [OF assms]
  have "i - lg_snapshot_index l + lg_snapshot_index l = max i (lg_snapshot_index l)"
    by simp
  with r show ?thesis
    by (simp add: entries_after_def min_def drop_drop [symmetric] del: drop_drop)
       (auto simp: drop_drop)
qed

lemma represents_truncate:
  assumes "represents L l"
  shows "represents (take (max i (lg_snapshot_index l)) L) (truncate_after l i)"
  using representsD [OF assms]
  by (auto simp: represents_def truncate_after_def term_of_take drop_take max_def)

lemma represents_compact_keep:
  assumes "represents L l" "i \<le> length L" "t = term_of L i"
  shows "represents L (compact l i t)"
  using assms representsD [OF assms(1)] represents_last_index [OF assms(1)]
    represents_term_at [OF assms(1), of i]
  by (auto simp: compact_def represents_def)

lemma represents_compact_replace:
  assumes "represents L l" "lg_snapshot_index l < length M" "t = term_of M (length M)"
    and "length L < length M \<or> term_of L (length M) \<noteq> t"
  shows "represents M (compact l (length M) t)"
  using assms represents_last_index [OF assms(1)] represents_term_at [OF assms(1), of "length M"]
  by (auto simp: compact_def represents_def)

lemma compact_snapshot_index: "lg_snapshot_index (compact l i t) = max i (lg_snapshot_index l)"
  by (simp add: compact_def)

interpretation rlog: indexed_log represents lg_snapshot_index last_index last_term term_at
  log_get log_append entries_after truncate_after compact
  by unfold_locales
    (simp_all add: representsD represents_last_index represents_last_term represents_term_at
      represents_log_get represents_append represents_append_index represents_entries_after
      represents_truncate represents_compact_keep represents_compact_replace
      compact_snapshot_index, simp_all add: log_append_def truncate_after_def Let_def)

lemma represents_new: "represents [] log_new"
  by (simp add: represents_def log_new_def)

lemma represents_from_entries: "represents L (from_entries L)"
  by (simp add: represents_def from_entries_def)

text \<open>
  Without the whole log at hand, a log still has one: any list with the right number of
  entries below the boundary, the last of them carrying the boundary's term.
\<close>

definition log_wf :: "raft_log \<Rightarrow> bool" where
  "log_wf l \<longleftrightarrow> (lg_snapshot_index l = 0 \<longrightarrow> lg_snapshot_term l = 0)"

definition some_whole_log :: "raft_log \<Rightarrow> log_entry list" where
  "some_whole_log l =
     replicate (lg_snapshot_index l) \<lparr>le_term = lg_snapshot_term l, le_command = []\<rparr> @ lg_entries l"

lemma represents_some_whole_log: "log_wf l \<Longrightarrow> represents (some_whole_log l) l"
  by (auto simp: represents_def some_whole_log_def log_wf_def term_of_def nth_append)

lemma log_wf_iff_represents: "log_wf l \<longleftrightarrow> (\<exists>L. represents L l)"
  by (metis log_wf_def represents_some_whole_log representsD(3) term_of_0)

subsection \<open>The conflict hints\<close>

lemma first_index_of_term_spec:
  assumes "represents L l"
  shows "first_index_of_term l t = Some i \<longleftrightarrow>
    lg_snapshot_index l < i \<and> i \<le> length L \<and> term_of L i = t \<and>
    (\<forall>j. lg_snapshot_index l < j \<and> j < i \<longrightarrow> term_of L j \<noteq> t)"
  (is "?lhs \<longleftrightarrow> ?rhs")
proof
  note r = representsD [OF assms]
  assume ?lhs
  then obtain k where k: "position (\<lambda>e. le_term e = t) (lg_entries l) = Some k"
    and i: "i = Suc (lg_snapshot_index l + k)"
    by (auto simp: first_index_of_term_def)
  note pk = position_SomeD [OF k]
  show ?rhs
  proof (intro conjI allI impI)
    show "lg_snapshot_index l < i" "i \<le> length L" "term_of L i = t"
      using i pk(1,2) r by (auto simp: )
    fix j assume j: "lg_snapshot_index l < j \<and> j < i"
    then have "j - 1 - lg_snapshot_index l < k" using i by linarith
    from pk(3) [OF this] j i pk(1) show "term_of L j \<noteq> t"
      by (simp add: r(2) term_of_def)
  qed
next
  note r = representsD [OF assms]
  assume rhs: ?rhs
  define k where "k = i - 1 - lg_snapshot_index l"
  have nth: "lg_entries l ! k = L ! (i - 1)" "k < length (lg_entries l)"
    using rhs r by (auto simp: k_def)
  then have "le_term (lg_entries l ! k) = t" using rhs by (auto simp: term_of_def)
  then obtain m where m: "position (\<lambda>e. le_term e = t) (lg_entries l) = Some m"
    using nth(2) by (metis (mono_tags, lifting) not_None_eq nth_mem position_None_iff)
  note pm = position_SomeD [OF m]
  have "\<not> m < k"
  proof
    assume "m < k"
    then have "term_of L (Suc (lg_snapshot_index l + m)) \<noteq> t"
      using rhs by (auto simp: k_def simp del: term_of_Suc)
    with pm(1,2) r show False by simp
  qed
  moreover have "\<not> k < m" using pm(3) [of k] \<open>le_term (lg_entries l ! k) = t\<close> by blast
  ultimately have "m = k" by simp
  with m rhs show ?lhs by (simp add: first_index_of_term_def k_def)
qed

lemma last_index_of_term_Some:
  assumes "represents L l" "last_index_of_term l t = Some i"
  shows "lg_snapshot_index l < i" "i \<le> length L" "term_of L i = t"
    and "\<And>j. i < j \<Longrightarrow> j \<le> length L \<Longrightarrow> term_of L j \<noteq> t"
proof -
  note r = representsD [OF assms(1)]
  from assms(2) obtain k where k: "rposition (\<lambda>e. le_term e = t) (lg_entries l) = Some k"
    and i: "i = Suc (lg_snapshot_index l + k)"
    by (auto simp: last_index_of_term_def)
  note pk = rposition_SomeD [OF k]
  show "lg_snapshot_index l < i" "i \<le> length L" "term_of L i = t"
    using i pk(1,2) r by auto
  fix j assume j: "i < j" "j \<le> length L"
  then have "k < j - 1 - lg_snapshot_index l" "j - 1 - lg_snapshot_index l < length (lg_entries l)"
    using i r by auto
  from pk(3) [OF this] j i show "term_of L j \<noteq> t"
    by (simp add: r(2) term_of_def)
qed

lemma last_index_of_term_None:
  assumes "represents L l" "last_index_of_term l t = None"
    and "lg_snapshot_index l < j" "j \<le> length L"
  shows "term_of L j \<noteq> t"
proof -
  note r = representsD [OF assms(1)]
  from assms(2) have "\<forall>e \<in> set (lg_entries l). le_term e \<noteq> t"
    by (simp add: last_index_of_term_def)
  moreover have "L ! (j - 1) \<in> set (lg_entries l)"
    using assms(3,4) r(1)
    by (simp add: r(2) in_set_conv_nth) (rule exI [of _ "j - 1 - lg_snapshot_index l"], simp)
  ultimately show ?thesis using assms(3) by (simp add: term_of_def)
qed

section \<open>Property\<close>

text \<open>
  C29. The compacted log is a list: as long as it stands for a whole log \<open>L\<close>, every operation
  answers and changes as the plain list operation on \<open>L\<close> does, except that the entries
  below the boundary can no longer be read; appending, truncating and compacting keep it
  standing for the log they should.
\<close>

theorem log_refines_list:
  assumes "represents L l"
  shows "last_index l = length L \<and> last_term l = term_of L (length L) \<and>
    log_get l i = (if lg_snapshot_index l < i \<and> i \<le> length L then Some (L ! (i - 1)) else None) \<and>
    term_at l i = (if lg_snapshot_index l \<le> i \<and> i \<le> length L then Some (term_of L i) else None) \<and>
    entries_after l i = drop (max i (lg_snapshot_index l)) L \<and>
    represents (L @ [e]) (fst (log_append l e)) \<and> snd (log_append l e) = Suc (length L) \<and>
    represents (take (max i (lg_snapshot_index l)) L) (truncate_after l i) \<and>
    (i \<le> length L \<longrightarrow> represents L (compact l i (term_of L i)))"
  using rlog.lastIndex [OF assms] rlog.lastTerm [OF assms] rlog.getAt [OF assms] rlog.termAt [OF assms]
    rlog.entriesAfter [OF assms] rlog.append_repr [OF assms] rlog.append_index [OF assms]
    rlog.truncate_repr [OF assms] rlog.compact_keep [OF assms]
  by simp

theorem log_refines_list_witness:
  "term_at (compact (from_entries [log_entry_new 1 [7], log_entry_new 2 [8]]) 1 1) 2 = Some 2"
proof -
  let ?L = "[log_entry_new 1 [7], log_entry_new 2 [8]]"
  have "represents ?L (compact (from_entries ?L) 1 1)"
    by (rule rlog.compact_keep [OF represents_from_entries]) (simp_all add: term_of_def log_entry_new_def)
  from log_refines_list [OF this, of 2] show ?thesis
    by (simp add: rlog.compact_base from_entries_def term_of_def log_entry_new_def)
qed

end
