(* ===== verification/Raft_Rpc.thy ===== *)
theory Raft_Rpc
  imports Raft_Types
begin

text \<open>The logical RPC messages of \<^verbatim>\<open>src/raft/rpc.rs\<close>.\<close>

record request_vote_args =
  rv_term :: nat
  rv_candidate_id :: nat
  rv_last_log_index :: nat
  rv_last_log_term :: nat
  rv_pre_vote :: bool

record request_vote_reply =
  rvr_term :: nat
  rvr_vote_granted :: bool

record append_entries_args =
  ae_term :: nat
  ae_leader_id :: nat
  ae_prev_log_index :: nat
  ae_prev_log_term :: nat
  ae_entries :: "log_entry list"
  ae_leader_commit :: nat

record append_entries_reply =
  aer_term :: nat
  aer_success :: bool
  aer_conflict_index :: "nat option"
  aer_conflict_term :: "nat option"

definition append_reply_success :: "nat \<Rightarrow> append_entries_reply" where
  "append_reply_success t =
     \<lparr>aer_term = t, aer_success = True, aer_conflict_index = None, aer_conflict_term = None\<rparr>"

definition append_reply_rejected :: "nat \<Rightarrow> append_entries_reply" where
  "append_reply_rejected t =
     \<lparr>aer_term = t, aer_success = False, aer_conflict_index = None, aer_conflict_term = None\<rparr>"

record install_snapshot_args =
  is_term :: nat
  is_leader_id :: nat
  is_last_included_index :: nat
  is_last_included_term :: nat
  is_data :: bytes

record install_snapshot_reply =
  isr_term :: nat

lemma append_reply_sel [simp]:
  "aer_term (append_reply_success t) = t" "aer_success (append_reply_success t)"
  "aer_term (append_reply_rejected t) = t" "\<not> aer_success (append_reply_rejected t)"
  "aer_conflict_index (append_reply_rejected t) = None"
  "aer_conflict_term (append_reply_rejected t) = None"
  by (simp_all add: append_reply_success_def append_reply_rejected_def)

end
