(* ===== verification/Raft_Config.thy ===== *)
theory Raft_Config
  imports Murmur_Prelude
begin

text \<open>
  Cluster membership and timing, \<^verbatim>\<open>src/raft/config.rs\<close>. A \<open>Duration\<close> and an \<open>Instant\<close> are
  numbers of nanoseconds. The random source \<open>fastrand::u64(lo..=hi)\<close> is the parameter
  \<open>rng\<close>; what the code relies on is that a draw lies in the range it was asked for.
\<close>

record peer =
  peer_id :: nat
  peer_addr :: string

record cluster_config =
  cc_id :: nat
  cc_peers :: "peer list"

definition cluster_size :: "cluster_config \<Rightarrow> nat" where
  "cluster_size c = length (cc_peers c) + 1"

record timing =
  election_min :: nat
  election_max :: nat
  heartbeat :: nat

definition from_millis :: "nat \<Rightarrow> nat" where
  "from_millis ms = ms * 1000000"

definition as_millis :: "nat \<Rightarrow> nat" where
  "as_millis d = d div 1000000"

definition timing_default :: timing where
  "timing_default =
     \<lparr>election_min = from_millis 150, election_max = from_millis 300, heartbeat = from_millis 50\<rparr>"

definition random_election_timeout :: "(nat \<Rightarrow> nat \<Rightarrow> nat) \<Rightarrow> timing \<Rightarrow> nat" where
  "random_election_timeout rng t =
     (let lo = as_millis (election_min t); hi = as_millis (election_max t)
      in from_millis (rng lo hi))"

definition rng_in_range :: "(nat \<Rightarrow> nat \<Rightarrow> nat) \<Rightarrow> bool" where
  "rng_in_range rng \<longleftrightarrow> (\<forall>lo hi. lo \<le> hi \<longrightarrow> lo \<le> rng lo hi \<and> rng lo hi \<le> hi)"

lemma random_election_timeout_range:
  assumes "rng_in_range rng" "election_min t \<le> election_max t"
  shows "from_millis (as_millis (election_min t)) \<le> random_election_timeout rng t"
    and "random_election_timeout rng t \<le> election_max t"
proof -
  have le: "as_millis (election_min t) \<le> as_millis (election_max t)"
    using assms(2) by (simp add: as_millis_def div_le_mono)
  with assms(1) have r: "as_millis (election_min t) \<le> rng (as_millis (election_min t)) (as_millis (election_max t))"
    "rng (as_millis (election_min t)) (as_millis (election_max t)) \<le> as_millis (election_max t)"
    by (simp_all add: rng_in_range_def)
  from r(1) show "from_millis (as_millis (election_min t)) \<le> random_election_timeout rng t"
    by (simp add: random_election_timeout_def from_millis_def)
  have "random_election_timeout rng t \<le> from_millis (as_millis (election_max t))"
    using r(2) by (simp add: random_election_timeout_def from_millis_def)
  also have "\<dots> \<le> election_max t"
    by (simp add: from_millis_def as_millis_def)
  finally show "random_election_timeout rng t \<le> election_max t" .
qed

section \<open>A timing for executable runs\<close>

text \<open>All intervals are zero, so that every timer has expired when a script looks at it.\<close>

definition quick :: timing where
  "quick = \<lparr>election_min = 0, election_max = 0, heartbeat = 0\<rparr>"

lemma millis_code [code]:
  "from_millis n = (if n = 0 then 0 else n * 1000000)"
  "as_millis n = (if n = 0 then 0 else n div 1000000)"
  by (simp_all add: from_millis_def as_millis_def)

end
