(* ===== verification/Byte_Codec.thy ===== *)
theory Byte_Codec
  imports Murmur_Prelude
begin

text \<open>
  The bounds-checked forward cursor that both \<^verbatim>\<open>src/raft/storage.rs\<close> (\<open>Reader\<close>) and
  \<^verbatim>\<open>src/app.rs\<close> (\<open>SnapReader\<close>) read their byte formats with, little-endian integers, and
  the interface \<open>codec\<close> under which a format's encoder and reader are proved inverse
  once for single items and for counted sequences.
\<close>

section \<open>Little-endian integers\<close>

text \<open>\<open>to_le_bytes\<close> and \<open>from_le_bytes\<close>; a value wider than \<open>k\<close> bytes is cut off.\<close>

fun le_bytes :: "nat \<Rightarrow> nat \<Rightarrow> bytes" where
  "le_bytes 0 n = []"
| "le_bytes (Suc k) n = word_of_nat (n mod 256) # le_bytes k (n div 256)"

fun of_le_bytes :: "bytes \<Rightarrow> nat" where
  "of_le_bytes [] = 0"
| "of_le_bytes (b # bs) = unat b + 256 * of_le_bytes bs"

definition u64_le :: "nat \<Rightarrow> bytes" where
  "u64_le n = le_bytes 8 n"

lemma length_le_bytes [simp]: "length (le_bytes k n) = k"
  by (induction k n rule: le_bytes.induct) auto

lemma length_u64_le [simp]: "length (u64_le n) = 8"
  by (simp add: u64_le_def)

lemma of_le_le_bytes: "of_le_bytes (le_bytes k n) = n mod 256 ^ k"
proof (induction k n rule: le_bytes.induct)
  case (1 n)
  then show ?case by simp
next
  case (2 k n)
  have "unat (word_of_nat (n mod 256) :: byte) = n mod 256"
    by (simp add: unat_of_nat)
  with 2 show ?case by (simp add: mod_mult2_eq)
qed

lemma of_le_u64_le: "n < 2 ^ 64 \<Longrightarrow> of_le_bytes (u64_le n) = n"
  by (simp add: u64_le_def of_le_le_bytes)

lemma of_le_bytes_bound: "of_le_bytes bs < 256 ^ length bs"
proof (induction bs)
  case Nil
  then show ?case by simp
next
  case (Cons b bs)
  have "unat b < 2 ^ LENGTH(8)" by (rule unsigned_less)
  then have "unat b < 256" by simp
  with Cons.IH show ?case by simp
qed

section \<open>The cursor\<close>

record reader =
  rd_buf :: bytes
  rd_pos :: nat

datatype decode_error =
    Truncated nat
  | BadMagic
  | UnsupportedVersion byte
  | BadVoteFlag byte
  | BadSnapshotFlag byte
  | TrailingBytes nat
  | SnapTruncated nat
  | BadOutcomeTag byte

text \<open>
  \<open>cursor_take\<close> is the body both \<open>take\<close> methods share; \<open>mk\<close> is the error each of them
  reports. \<open>checked_add\<close> cannot be observed to overflow: a buffer is shorter than
  \<open>2 ^ 63\<close> bytes, so a sum beyond \<open>usize\<close> exceeds the length as well.
\<close>

definition cursor_take ::
  "(nat \<Rightarrow> decode_error) \<Rightarrow> reader \<Rightarrow> nat \<Rightarrow> decode_error + bytes \<times> reader" where
  "cursor_take mk r n =
     (if rd_pos r + n \<le> length (rd_buf r)
      then Inr (take n (drop (rd_pos r) (rd_buf r)), r\<lparr>rd_pos := rd_pos r + n\<rparr>)
      else Inl (mk n))"

definition cursor_u64 ::
  "(nat \<Rightarrow> decode_error) \<Rightarrow> reader \<Rightarrow> decode_error + nat \<times> reader" where
  "cursor_u64 mk r = res_bind (cursor_take mk r 8) (\<lambda>(bs, r). Inr (of_le_bytes bs, r))"

definition cursor_u8 ::
  "(nat \<Rightarrow> decode_error) \<Rightarrow> reader \<Rightarrow> decode_error + byte \<times> reader" where
  "cursor_u8 mk r = res_bind (cursor_take mk r 1) (\<lambda>(bs, r). Inr (bs ! 0, r))"

type_synonym 'a parser = "reader \<Rightarrow> decode_error + 'a \<times> reader"

text \<open>A loop \<open>for _ in 0..count\<close> that pushes what \<open>p\<close> reads.\<close>

fun read_n :: "nat \<Rightarrow> 'a parser \<Rightarrow> 'a list parser" where
  "read_n 0 p r = Inr ([], r)"
| "read_n (Suc n) p r =
     res_bind (p r) (\<lambda>(x, r). res_bind (read_n n p r) (\<lambda>(xs, r). Inr (x # xs, r)))"

section \<open>Correct parsers\<close>

definition rdr :: "bytes \<Rightarrow> bytes \<Rightarrow> reader" where
  "rdr done rest = \<lparr>rd_buf = done @ rest, rd_pos = length done\<rparr>"

text \<open>
  \<open>parses p x bs\<close>: in front of \<open>bs\<close> the parser \<open>p\<close> reads exactly \<open>bs\<close> and returns \<open>x\<close>,
  and on every proper prefix of \<open>bs\<close> it fails.
\<close>

definition parses :: "'a parser \<Rightarrow> 'a \<Rightarrow> bytes \<Rightarrow> bool" where
  "parses p x bs \<longleftrightarrow>
     (\<forall>done rest. p (rdr done (bs @ rest)) = Inr (x, rdr (done @ bs) rest)) \<and>
     (\<forall>done s. strict_prefix s bs \<longrightarrow> (\<exists>e. p (rdr done s) = Inl e))"

lemma parses_ok: "parses p x bs \<Longrightarrow> p (rdr done (bs @ rest)) = Inr (x, rdr (done @ bs) rest)"
  by (simp add: parses_def)

lemma parses_cut: "parses p x bs \<Longrightarrow> strict_prefix s bs \<Longrightarrow> \<exists>e. p (rdr done s) = Inl e"
  by (simp add: parses_def)

lemma parses_return [parse_intros]: "parses (\<lambda>r. Inr (x, r)) x []"
  by (simp add: parses_def)

lemma parses_bind:
  assumes p: "parses p x bs" and q: "parses (q x) y cs"
  shows "parses (\<lambda>r. res_bind (p r) (\<lambda>(x, r). q x r)) y (bs @ cs)"
  unfolding parses_def
proof (intro conjI allI impI)
  fix d rest
  show "res_bind (p (rdr d ((bs @ cs) @ rest))) (\<lambda>(x, r). q x r) =
      Inr (y, rdr (d @ bs @ cs) rest)"
    using parses_ok [OF p, of d "cs @ rest"] parses_ok [OF q, of "d @ bs" rest] by simp
next
  fix d s
  assume s: "strict_prefix s (bs @ cs)"
  then consider (bs) "strict_prefix s bs" | (cs) t where "s = bs @ t" "strict_prefix t cs"
    by (cases "s = bs") (force simp: strict_prefix_def prefix_append)+
  then show "\<exists>e. res_bind (p (rdr d s)) (\<lambda>(x, r). q x r) = Inl e"
  proof cases
    case bs
    from parses_cut [OF p bs, of d] show ?thesis by auto
  next
    case cs
    with parses_ok [OF p, of d t] parses_cut [OF q cs(2), of "d @ bs"] show ?thesis by auto
  qed
qed

lemma parses_cursor_take:
  "n = length bs \<Longrightarrow> parses (\<lambda>r. cursor_take mk r n) bs bs"
  by (auto simp: parses_def cursor_take_def rdr_def dest: prefix_length_less)

lemma parses_cursor_u64: "n < 2 ^ 64 \<Longrightarrow> parses (cursor_u64 mk) n (u64_le n)"
  using parses_bind [OF parses_cursor_take [where bs = "u64_le n"],
      where q = "\<lambda>bs r. Inr (of_le_bytes bs, r)" and y = n and cs = "[]"]
  by (simp add: cursor_u64_def [abs_def] of_le_u64_le parses_return)

lemma parses_cursor_u8: "parses (cursor_u8 mk) b [b]"
  using parses_bind [OF parses_cursor_take [where bs = "[b]"],
      where q = "\<lambda>bs r. Inr (bs ! 0, r)" and y = b and cs = "[]"]
  by (simp add: cursor_u8_def [abs_def] parses_return)

text \<open>
  The interface of a byte format: on the values it admits, the reader undoes the writer
  and rejects every truncation. What it gives once and for all is the counted sequence.
\<close>

locale codec =
  fixes admits :: "'a \<Rightarrow> bool"
    and enc :: "'a \<Rightarrow> bytes"
    and reads :: "'a parser"
  assumes reads_enc: "admits x \<Longrightarrow> parses reads x (enc x)"
begin

lemma reads_many:
  assumes "\<forall>x \<in> set xs. admits x"
  shows "parses (read_n (length xs) reads) xs (concat (map enc xs))"
  using assms
proof (induction xs)
  case Nil
  then show ?case by (simp add: parses_def)
next
  case (Cons x xs)
  then have "parses reads x (enc x)"
    and "parses (read_n (length xs) reads) xs (concat (map enc xs))"
    by (simp_all add: reads_enc)
  moreover have "parses (\<lambda>r. res_bind (read_n (length xs) reads r) (\<lambda>(ys, r). Inr (x # ys, r)))
      (x # xs) (concat (map enc xs) @ [])"
    by (rule parses_bind [OF calculation(2) parses_return])
  ultimately have "parses (\<lambda>r. res_bind (reads r)
      (\<lambda>(x, r). res_bind (read_n (length xs) reads r) (\<lambda>(ys, r). Inr (x # ys, r))))
      (x # xs) (enc x @ concat (map enc xs) @ [])"
    by (intro parses_bind)
  then show ?case by simp
qed

text \<open>No two admitted values share an encoding, and none is a proper prefix of another.\<close>

lemma enc_prefix_free:
  assumes "admits x" "admits y" "prefix (enc x) (enc y)"
  shows "x = y"
proof -
  from assms(3) obtain rest where y: "enc y = enc x @ rest" by (auto simp: prefix_def)
  have "reads (rdr [] (enc y)) = Inr (y, rdr (enc y) [])"
    using parses_ok [OF reads_enc [OF assms(2)], of "[]" "[]"] by simp
  moreover have "reads (rdr [] (enc y)) = Inr (x, rdr (enc x) rest)"
    using parses_ok [OF reads_enc [OF assms(1)], of "[]" rest] y by simp
  ultimately show ?thesis by simp
qed

end

interpretation u64_codec: codec "\<lambda>n. n < 2 ^ 64" u64_le "cursor_u64 mk"
  by unfold_locales (rule parses_cursor_u64)

end
