(* ===== verification/Raft_Storage.thy ===== *)
theory Raft_Storage
  imports Raft_Types Byte_Codec
begin

text \<open>
  Raft's persistent state, its on-disk byte format, the \<open>RaftStorage\<close> trait and its
  in-memory implementation: \<^verbatim>\<open>src/raft/storage.rs\<close>. The file-backed implementation is in
  \<open>Raft_File_Storage\<close>.
\<close>

section \<open>Persistent state\<close>

record persistent_state =
  ps_current_term :: nat
  ps_voted_for :: "nat option"
  ps_log :: raft_log
  ps_snapshot :: "bytes option"

definition persistent_default :: persistent_state where
  "persistent_default =
     \<lparr>ps_current_term = 0, ps_voted_for = None, ps_log = log_new, ps_snapshot = None\<rparr>"

section \<open>The file format\<close>

definition MAGIC :: bytes where
  "MAGIC = [0x4D, 0x52, 0x4D, 0x52]"

definition VERSION :: byte where
  "VERSION = 2"

definition encode_entry :: "log_entry \<Rightarrow> bytes" where
  "encode_entry e =
     u64_le (le_term e) @ u64_le (length (le_command e)) @ le_command e"

definition encode_vote :: "nat option \<Rightarrow> bytes" where
  "encode_vote v =
     (let (flag, nid) = (case v of Some nid \<Rightarrow> (1, nid) | None \<Rightarrow> (0, 0)) in [flag] @ u64_le nid)"

definition encode_snapshot_block :: "raft_log \<Rightarrow> bytes option \<Rightarrow> bytes" where
  "encode_snapshot_block l s =
     (case s of
        Some data \<Rightarrow>
          [1] @ u64_le (lg_snapshot_index l) @ u64_le (lg_snapshot_term l) @
          u64_le (length data) @ data
      | None \<Rightarrow> [0] @ u64_le 0 @ u64_le 0 @ u64_le 0)"

definition encode :: "persistent_state \<Rightarrow> bytes" where
  "encode st =
     MAGIC @ [VERSION] @ u64_le (ps_current_term st) @ encode_vote (ps_voted_for st) @
     encode_snapshot_block (ps_log st) (ps_snapshot st) @
     u64_le (length (lg_entries (ps_log st))) @
     concat (map encode_entry (lg_entries (ps_log st)))"

definition reader_take :: "nat \<Rightarrow> bytes parser" where
  "reader_take n r = cursor_take Truncated r n"

definition reader_u8 :: "byte parser" where
  "reader_u8 r = cursor_u8 Truncated r"

definition reader_u64 :: "nat parser" where
  "reader_u64 r = cursor_u64 Truncated r"

definition decode_vote :: "nat option parser" where
  "decode_vote r =
     res_bind (reader_u8 r) (\<lambda>(flag, r).
       if flag = 0 then res_bind (reader_u64 r) (\<lambda>(_, r). Inr (None, r))
       else if flag = 1 then res_bind (reader_u64 r) (\<lambda>(nid, r). Inr (Some nid, r))
       else Inl (BadVoteFlag flag))"

definition decode_snapshot_block :: "(nat \<times> nat \<times> bytes option) parser" where
  "decode_snapshot_block r =
     res_bind (reader_u8 r) (\<lambda>(snapshot_flag, r).
     res_bind (reader_u64 r) (\<lambda>(snapshot_index, r).
     res_bind (reader_u64 r) (\<lambda>(snapshot_term, r).
     res_bind (reader_u64 r) (\<lambda>(snapshot_len, r).
       if snapshot_flag = 0 then Inr ((snapshot_index, snapshot_term, None), r)
       else if snapshot_flag = 1
       then res_bind (reader_take snapshot_len r) (\<lambda>(data, r).
              Inr ((snapshot_index, snapshot_term, Some data), r))
       else Inl (BadSnapshotFlag snapshot_flag)))))"

definition decode_entry :: "log_entry parser" where
  "decode_entry r =
     res_bind (reader_u64 r) (\<lambda>(t, r).
     res_bind (reader_u64 r) (\<lambda>(len, r).
     res_bind (reader_take len r) (\<lambda>(command, r).
       Inr (log_entry_new t command, r))))"

definition decode_finish ::
  "nat \<Rightarrow> nat option \<Rightarrow> nat \<times> nat \<times> bytes option \<Rightarrow> persistent_state parser" where
  "decode_finish current_term voted_for block r =
     (case block of (snapshot_index, snapshot_term, snapshot) \<Rightarrow>
       res_bind (reader_u64 r) (\<lambda>(count, r).
       res_bind (read_n count decode_entry r) (\<lambda>(entries, r).
         Inr (\<lparr>ps_current_term = current_term, ps_voted_for = voted_for,
               ps_log = from_parts snapshot_index snapshot_term entries,
               ps_snapshot = snapshot\<rparr>, r))))"

definition decode_body :: "persistent_state parser" where
  "decode_body r =
     res_bind (reader_u64 r) (\<lambda>(current_term, r).
     res_bind (decode_vote r) (\<lambda>(voted_for, r).
     res_bind (decode_snapshot_block r) (\<lambda>(block, r).
       decode_finish current_term voted_for block r)))"

definition decode_header :: "unit parser" where
  "decode_header r =
     res_bind (reader_take 4 r) (\<lambda>(magic, r).
       if magic \<noteq> MAGIC then Inl BadMagic
       else res_bind (reader_u8 r) (\<lambda>(version, r).
              if version \<noteq> VERSION then Inl (UnsupportedVersion version) else Inr ((), r)))"

definition decode :: "bytes \<Rightarrow> decode_error + persistent_state" where
  "decode bs =
     res_bind (decode_header \<lparr>rd_buf = bs, rd_pos = 0\<rparr>) (\<lambda>(_, r).
     res_bind (decode_body r) (\<lambda>(st, r).
       if rd_pos r \<noteq> length (rd_buf r) then Inl (TrailingBytes (length (rd_buf r) - rd_pos r))
       else Inr st))"

section \<open>Decoding undoes encoding\<close>

text \<open>
  A state fits the format when its integers are \<open>u64\<close>s, its lengths are, and a log
  without a snapshot starts at the origin (the format has no room for another boundary).
\<close>

definition entry_fits :: "log_entry \<Rightarrow> bool" where
  "entry_fits e \<longleftrightarrow> le_term e < 2 ^ 64 \<and> length (le_command e) < 2 ^ 64"

definition state_fits :: "persistent_state \<Rightarrow> bool" where
  "state_fits st \<longleftrightarrow>
     ps_current_term st < 2 ^ 64 \<and>
     (case ps_voted_for st of None \<Rightarrow> True | Some nid \<Rightarrow> nid < 2 ^ 64) \<and>
     lg_snapshot_index (ps_log st) < 2 ^ 64 \<and> lg_snapshot_term (ps_log st) < 2 ^ 64 \<and>
     (case ps_snapshot st of
        None \<Rightarrow> lg_snapshot_index (ps_log st) = 0 \<and> lg_snapshot_term (ps_log st) = 0
      | Some data \<Rightarrow> length data < 2 ^ 64) \<and>
     length (lg_entries (ps_log st)) < 2 ^ 64 \<and>
     list_all entry_fits (lg_entries (ps_log st))"

lemma parses_reader_take: "parses (reader_take (length bs)) bs bs"
  unfolding reader_take_def [abs_def] by (rule parses_cursor_take) simp

lemma parses_reader_u64: "n < 2 ^ 64 \<Longrightarrow> parses reader_u64 n (u64_le n)"
  unfolding reader_u64_def [abs_def] by (rule parses_cursor_u64)

lemma parses_reader_u8: "parses reader_u8 b [b]"
  unfolding reader_u8_def [abs_def] by (rule parses_cursor_u8)

lemmas take_then [parse_intros] = parses_bind [OF parses_reader_take]
lemmas u64_then [parse_intros] = parses_bind [OF parses_reader_u64]
lemmas u8_then [parse_intros] = parses_bind [OF parses_reader_u8]

text \<open>The last item of a format: nothing is left after it.\<close>

lemma parses_end: "parses p x (bs @ []) \<Longrightarrow> parses p x bs"
  by simp

lemma u64_last: "n < 2 ^ 64 \<Longrightarrow>
  parses (\<lambda>r. res_bind (reader_u64 r) (\<lambda>(x, r). Inr (f x, r))) (f n) (u64_le n)"
  by (rule parses_end) (intro parse_intros)

lemma take_last:
  "parses (\<lambda>r. res_bind (reader_take (length bs) r) (\<lambda>(x, r). Inr (f x, r))) (f bs) bs"
  by (rule parses_end) (intro parse_intros)

lemma parses_decode_entry:
  assumes "entry_fits e"
  shows "parses decode_entry e (encode_entry e)"
proof -
  have "log_entry_new (le_term e) (le_command e) = e"
    by (simp add: log_entry_new_def)
  moreover have "parses decode_entry (log_entry_new (le_term e) (le_command e)) (encode_entry e)"
    unfolding decode_entry_def [abs_def] encode_entry_def
    using assms by (intro u64_then take_last) (simp_all add: entry_fits_def)
  ultimately show ?thesis by simp
qed

interpretation entry_codec: codec entry_fits encode_entry decode_entry
  by unfold_locales (rule parses_decode_entry)

lemma parses_decode_vote:
  assumes "case v of None \<Rightarrow> True | Some nid \<Rightarrow> nid < 2 ^ 64"
  shows "parses decode_vote v (encode_vote v)"
proof (cases v)
  case None
  have "parses decode_vote None ([0] @ u64_le 0)"
    unfolding decode_vote_def [abs_def] by (rule u8_then) (simp add: u64_last [of 0 "\<lambda>_. None"])
  with None show ?thesis by (simp add: encode_vote_def)
next
  case (Some nid)
  have "parses decode_vote (Some nid) ([1] @ u64_le nid)"
    unfolding decode_vote_def [abs_def]
    using assms Some by (intro u8_then) (simp add: u64_last)
  with Some show ?thesis by (simp add: encode_vote_def)
qed

lemma parses_decode_snapshot_block:
  assumes "lg_snapshot_index l < 2 ^ 64" "lg_snapshot_term l < 2 ^ 64"
    and "case s of None \<Rightarrow> lg_snapshot_index l = 0 \<and> lg_snapshot_term l = 0
         | Some data \<Rightarrow> length data < 2 ^ 64"
  shows "parses decode_snapshot_block (lg_snapshot_index l, lg_snapshot_term l, s)
    (encode_snapshot_block l s)"
proof (cases s)
  case None
  have "parses decode_snapshot_block (0, 0, None) ([0] @ u64_le 0 @ u64_le 0 @ u64_le 0)"
    unfolding decode_snapshot_block_def [abs_def]
    by (intro u8_then u64_then) (simp_all add: u64_last [of 0 "\<lambda>_. (0, 0, None)"])
  with None assms show ?thesis by (simp add: encode_snapshot_block_def)
next
  case (Some data)
  have "parses decode_snapshot_block (lg_snapshot_index l, lg_snapshot_term l, Some data)
    ([1] @ u64_le (lg_snapshot_index l) @ u64_le (lg_snapshot_term l) @ u64_le (length data) @ data)"
    unfolding decode_snapshot_block_def [abs_def]
    using assms Some
    by (intro u8_then u64_then)
      (simp_all add: take_last [where f = "\<lambda>x. (lg_snapshot_index l, lg_snapshot_term l, Some x)"])
  with Some show ?thesis by (simp add: encode_snapshot_block_def)
qed

definition encode_body :: "persistent_state \<Rightarrow> bytes" where
  "encode_body st =
     u64_le (ps_current_term st) @ encode_vote (ps_voted_for st) @
     encode_snapshot_block (ps_log st) (ps_snapshot st) @
     u64_le (length (lg_entries (ps_log st))) @
     concat (map encode_entry (lg_entries (ps_log st)))"

lemma parses_decode_body:
  assumes "state_fits st"
  shows "parses decode_body st (encode_body st)"
proof -
  note fits = assms [unfolded state_fits_def]
  let ?l = "ps_log st"
  let ?block = "(lg_snapshot_index ?l, lg_snapshot_term ?l, ps_snapshot st)"
  have es: "parses (read_n (length (lg_entries ?l)) decode_entry) (lg_entries ?l)
      (concat (map encode_entry (lg_entries ?l)))"
    by (rule entry_codec.reads_many) (use fits in \<open>simp add: list_all_iff\<close>)
  have st: "\<lparr>ps_current_term = ps_current_term st, ps_voted_for = ps_voted_for st,
      ps_log = from_parts (lg_snapshot_index ?l) (lg_snapshot_term ?l) (lg_entries ?l),
      ps_snapshot = ps_snapshot st\<rparr> = st"
    by (simp add: from_parts_def)
  have fin: "parses (decode_finish (ps_current_term st) (ps_voted_for st) ?block) st
      (u64_le (length (lg_entries ?l)) @ concat (map encode_entry (lg_entries ?l)) @ [])"
    unfolding decode_finish_def [abs_def] prod.case
    by (rule u64_then, use fits in simp, rule parses_bind [OF es], unfold st, rule parses_return)
  have "parses decode_body st (encode_body st @ [])"
    unfolding decode_body_def [abs_def] encode_body_def append_assoc
    using fits
    by (intro u64_then parses_bind [OF parses_decode_vote]
        parses_bind [OF parses_decode_snapshot_block] fin) simp_all
  then show ?thesis by simp
qed

lemma parses_decode_header: "parses decode_header () (MAGIC @ [VERSION])"
proof -
  have "parses (\<lambda>r. res_bind (reader_u8 r) (\<lambda>(version, r).
      if version \<noteq> VERSION then Inl (UnsupportedVersion version) else Inr ((), r))) ()
      ([VERSION] @ [])"
    by (rule u8_then) (simp add: parses_return)
  then have "parses (\<lambda>r. res_bind (reader_take (length MAGIC) r) (\<lambda>(magic, r).
       if magic \<noteq> MAGIC then Inl BadMagic
       else res_bind (reader_u8 r) (\<lambda>(version, r).
              if version \<noteq> VERSION then Inl (UnsupportedVersion version) else Inr ((), r))))
      () (MAGIC @ [VERSION])"
    by (intro take_then) simp
  moreover have "length MAGIC = 4" by (simp add: MAGIC_def)
  ultimately show ?thesis by (simp add: decode_header_def [abs_def])
qed

lemma encode_split: "encode st = (MAGIC @ [VERSION]) @ encode_body st"
  by (simp add: encode_def encode_body_def)

definition decode_all :: "persistent_state parser" where
  "decode_all r = res_bind (decode_header r) (\<lambda>(_, r). decode_body r)"

lemma parses_decode_all: "state_fits st \<Longrightarrow> parses decode_all st (encode st)"
  unfolding decode_all_def [abs_def] encode_split
  by (rule parses_bind [OF parses_decode_header]) (rule parses_decode_body)

lemma decode_via_all:
  "decode bs = res_bind (decode_all (rdr [] bs)) (\<lambda>(st, r).
     if rd_pos r \<noteq> length (rd_buf r) then Inl (TrailingBytes (length (rd_buf r) - rd_pos r))
     else Inr st)"
  by (cases "decode_header (rdr [] bs)") (auto simp: decode_def decode_all_def rdr_def)

lemma decode_encode: "state_fits st \<Longrightarrow> decode (encode st) = Inr st"
  using parses_ok [OF parses_decode_all, of st "[]" "[]"] by (simp add: decode_via_all rdr_def)

lemma decode_truncated:
  assumes "state_fits st" "strict_prefix bs (encode st)"
  shows "\<exists>e. decode bs = Inl e"
  using parses_cut [OF parses_decode_all [OF assms(1)] assms(2), of "[]"]
  by (auto simp: decode_via_all)

lemma decode_trailing:
  assumes "state_fits st" "junk \<noteq> []"
  shows "decode (encode st @ junk) = Inl (TrailingBytes (length junk))"
  using parses_ok [OF parses_decode_all [OF assms(1)], of "[]" junk] assms(2)
  by (simp add: decode_via_all rdr_def)

section \<open>The storage trait\<close>

datatype storage_error = DecodeFailed decode_error | IoError string

text \<open>
  \<open>Box<dyn RaftStorage>\<close>: the object together with the two methods of the trait. \<open>save\<close>
  takes \<open>&self\<close> but changes what later calls see, so it returns the object's new state.
\<close>

record 's dyn_storage =
  ds_self :: 's
  ds_load :: "'s \<Rightarrow> storage_error + persistent_state"
  ds_save :: "'s \<Rightarrow> persistent_state \<Rightarrow> (storage_error + unit) \<times> 's"

definition storage_load :: "'s dyn_storage \<Rightarrow> storage_error + persistent_state" where
  "storage_load d = ds_load d (ds_self d)"

definition storage_save ::
  "'s dyn_storage \<Rightarrow> persistent_state \<Rightarrow> (storage_error + unit) \<times> 's dyn_storage" where
  "storage_save d st = (case ds_save d (ds_self d) st of (res, s) \<Rightarrow> (res, d\<lparr>ds_self := s\<rparr>))"

text \<open>A box whose methods are \<open>load\<close> and \<open>save\<close> and whose object is sound.\<close>

definition boxed ::
  "('s \<Rightarrow> storage_error + persistent_state) \<Rightarrow>
   ('s \<Rightarrow> persistent_state \<Rightarrow> (storage_error + unit) \<times> 's) \<Rightarrow> ('s \<Rightarrow> bool) \<Rightarrow> 's dyn_storage \<Rightarrow> bool" where
  "boxed load save sound d \<longleftrightarrow> ds_load d = load \<and> ds_save d = save \<and> sound (ds_self d)"

text \<open>
  The contract the consensus code is written against, for states the storage can hold
  (\<open>fits\<close>): after a save that reports success, a load returns what was saved; a save that
  reports an error has left the old state or the new one, nothing else.
\<close>

locale raft_storage =
  fixes load :: "'s \<Rightarrow> storage_error + persistent_state"
    and save :: "'s \<Rightarrow> persistent_state \<Rightarrow> (storage_error + unit) \<times> 's"
    and sound :: "'s \<Rightarrow> bool"
    and fits :: "persistent_state \<Rightarrow> bool"
  assumes save_sound: "sound s \<Longrightarrow> save s st = (res, s') \<Longrightarrow> sound s'"
    and save_ok: "sound s \<Longrightarrow> fits st \<Longrightarrow> save s st = (Inr (), s') \<Longrightarrow> load s' = Inr st"
    and save_err: "sound s \<Longrightarrow> fits st \<Longrightarrow> save s st = (Inl e, s') \<Longrightarrow>
      load s' = load s \<or> load s' = Inr st"
begin

lemma boxed_save: "boxed load save sound d \<Longrightarrow> boxed load save sound (snd (storage_save d st))"
  by (auto simp: boxed_def storage_save_def split: prod.splits intro: save_sound)

lemma box_load_save:
  assumes "boxed load save sound d" "fits st" "fst (storage_save d st) = Inr ()"
  shows "storage_load (snd (storage_save d st)) = Inr st"
  using assms save_ok [of "ds_self d" st]
  by (cases "save (ds_self d) st") (simp add: boxed_def storage_save_def storage_load_def)

lemma box_load_any:
  assumes "boxed load save sound d" "fits st"
  shows "storage_load (snd (storage_save d st)) \<in> {storage_load d, Inr st}"
proof (cases "save (ds_self d) st")
  case (Pair res s')
  then show ?thesis
    using assms save_ok [of "ds_self d" st s'] save_err [of "ds_self d" st _ s']
    by (cases res) (auto simp: boxed_def storage_save_def storage_load_def)
qed

end

section \<open>In-memory storage\<close>

definition in_memory_load :: "persistent_state \<Rightarrow> storage_error + persistent_state" where
  "in_memory_load s = Inr s"

definition in_memory_save ::
  "persistent_state \<Rightarrow> persistent_state \<Rightarrow> (storage_error + unit) \<times> persistent_state" where
  "in_memory_save s st = (Inr (), st)"

definition in_memory_new :: "persistent_state dyn_storage" where
  "in_memory_new =
     \<lparr>ds_self = persistent_default, ds_load = in_memory_load, ds_save = in_memory_save\<rparr>"

interpretation in_memory: raft_storage in_memory_load in_memory_save "\<lambda>_. True" "\<lambda>_. True"
  by unfold_locales (simp_all add: in_memory_load_def in_memory_save_def)

section \<open>Properties of the file format\<close>

text \<open>A state with every optional part present, as the unit tests of the source use it.\<close>

definition sample_state :: persistent_state where
  "sample_state =
     \<lparr>ps_current_term = 7, ps_voted_for = Some 3,
      ps_log = from_parts 4 2 [log_entry_new 5 [1, 2, 3], log_entry_new 7 []],
      ps_snapshot = Some [9, 8]\<rparr>"

lemma sample_state_fits: "state_fits sample_state"
  by (simp add: sample_state_def state_fits_def entry_fits_def from_parts_def log_entry_new_def)

text \<open>
  C26. What \<open>encode\<close> writes, \<open>decode\<close> reads back: term, vote, compaction boundary, snapshot
  blob and every log entry come back as they were, for every state whose numbers are
  64-bit and whose boundary is covered by a snapshot.
\<close>

theorem persistent_state_roundtrip:
  assumes "state_fits st"
  shows "decode (encode st) = Inr st"
  using assms by (rule decode_encode)

theorem persistent_state_roundtrip_witness: "decode (encode sample_state) = Inr sample_state"
  by (rule persistent_state_roundtrip [OF sample_state_fits])

text \<open>
  C27. A damaged file is rejected, never misread: \<open>decode\<close> fails on every proper prefix of a
  valid file, and on a valid file followed by junk it fails naming the number of extra bytes.
\<close>

theorem damaged_file_rejected:
  assumes "state_fits st"
  shows "(\<forall>bs. strict_prefix bs (encode st) \<longrightarrow> (\<exists>e. decode bs = Inl e)) \<and>
    (\<forall>junk. junk \<noteq> [] \<longrightarrow> decode (encode st @ junk) = Inl (TrailingBytes (length junk)))"
  using assms decode_truncated decode_trailing by blast

theorem damaged_file_rejected_witness:
  "(\<exists>e. decode (butlast (encode sample_state)) = Inl e) \<and>
   decode (encode sample_state @ [0, 0]) = Inl (TrailingBytes 2)"
proof -
  have "encode sample_state \<noteq> []" by (simp add: encode_def MAGIC_def)
  then have "strict_prefix (butlast (encode sample_state)) (encode sample_state)"
    by (metis append_butlast_last_id strict_prefixI')
  then show ?thesis
    using damaged_file_rejected [OF sample_state_fits] by fastforce
qed

end
