(* ===== verification/Raft_Consensus.thy ===== *)
theory Raft_Consensus
  imports Raft_Rpc Raft_Config Raft_Storage
begin

text \<open>
  The synchronous consensus state machine of \<^verbatim>\<open>src/raft/consensus.rs\<close>, one definition per
  method. A method that takes \<open>&mut self\<close> returns the new state (with its result, if it
  has one). A method that may panic returns an option, \<open>None\<close> standing for the panic.
  The random draw behind an election timeout is the parameter \<open>rng\<close> (see \<open>Raft_Config\<close>).
\<close>

section \<open>State\<close>

record 's consensus_module =
  cm_id :: nat
  cm_peers :: "nat list"
  cm_quorum :: nat
  cm_storage :: "'s dyn_storage"
  cm_timing :: timing
  cm_current_term :: nat
  cm_voted_for :: "nat option"
  cm_log :: raft_log
  cm_snapshot :: "bytes option"
  cm_role :: role
  cm_leader_id :: "nat option"
  cm_commit_index :: nat
  cm_last_applied :: nat
  cm_next_index :: "nat \<rightharpoonup> nat"
  cm_match_index :: "nat \<rightharpoonup> nat"
  cm_votes :: "nat set"
  cm_pre_candidate :: bool
  cm_pre_votes :: "nat set"
  cm_last_leader_contact :: nat
  cm_pending_snapshot :: "snapshot option"
  cm_election_deadline :: nat

type_synonym draw = "nat \<Rightarrow> nat \<Rightarrow> nat"

text \<open>\<open>map.get(&k).copied().unwrap_or(d)\<close>.\<close>

definition lookup_or :: "(nat \<rightharpoonup> nat) \<Rightarrow> nat \<Rightarrow> nat \<Rightarrow> nat" where
  "lookup_or m k d = (case m k of None \<Rightarrow> d | Some v \<Rightarrow> v)"

section \<open>Construction\<close>

definition quorum_of :: "nat list \<Rightarrow> nat" where
  "quorum_of peers = (length peers + 1) div 2 + 1"

definition reset_election_deadline ::
  "draw \<Rightarrow> nat \<Rightarrow> 's consensus_module \<Rightarrow> 's consensus_module" where
  "reset_election_deadline rng now cm =
     cm\<lparr>cm_election_deadline := now + random_election_timeout rng (cm_timing cm)\<rparr>"

definition cm_new ::
  "draw \<Rightarrow> nat \<Rightarrow> nat list \<Rightarrow> 's dyn_storage \<Rightarrow> timing \<Rightarrow> nat \<Rightarrow>
   storage_error + 's consensus_module" where
  "cm_new rng nid peers storage tim now =
     res_bind (storage_load storage) (\<lambda>persisted.
       (let quorum = quorum_of peers;
            base = lg_snapshot_index (ps_log persisted);
            pending = map_option
              (\<lambda>data. \<lparr>sn_last_included_index = lg_snapshot_index (ps_log persisted),
                       sn_last_included_term = lg_snapshot_term (ps_log persisted),
                       sn_data = data\<rparr>) (ps_snapshot persisted);
            cm = \<lparr>cm_id = nid, cm_peers = peers, cm_quorum = quorum, cm_storage = storage,
                  cm_timing = tim, cm_current_term = ps_current_term persisted,
                  cm_voted_for = ps_voted_for persisted, cm_log = ps_log persisted,
                  cm_snapshot = ps_snapshot persisted, cm_role = Follower, cm_leader_id = None,
                  cm_commit_index = base, cm_last_applied = base,
                  cm_next_index = Map.empty, cm_match_index = Map.empty, cm_votes = {},
                  cm_pre_candidate = False, cm_pre_votes = {}, cm_last_leader_contact = now,
                  cm_pending_snapshot = pending, cm_election_deadline = now\<rparr>
        in Inr (reset_election_deadline rng now cm)))"

section \<open>Observation\<close>

definition is_leader :: "'s consensus_module \<Rightarrow> bool" where
  "is_leader cm = (cm_role cm = Leader)"

definition last_log_index :: "'s consensus_module \<Rightarrow> nat" where
  "last_log_index cm = last_index (cm_log cm)"

definition snapshot_index :: "'s consensus_module \<Rightarrow> nat" where
  "snapshot_index cm = lg_snapshot_index (cm_log cm)"

definition raft_log_len :: "'s consensus_module \<Rightarrow> nat" where
  "raft_log_len cm = log_len (cm_log cm)"

definition needs_snapshot :: "'s consensus_module \<Rightarrow> nat \<Rightarrow> bool" where
  "needs_snapshot cm peer =
     (cm_role cm = Leader \<and> cm_snapshot cm \<noteq> None \<and>
      lookup_or (cm_next_index cm) peer 1 \<le> lg_snapshot_index (cm_log cm))"

section \<open>Persistence\<close>

definition persistent_of :: "'s consensus_module \<Rightarrow> persistent_state" where
  "persistent_of cm =
     \<lparr>ps_current_term = cm_current_term cm, ps_voted_for = cm_voted_for cm,
      ps_log = cm_log cm, ps_snapshot = cm_snapshot cm\<rparr>"

text \<open>A failed save is reported on stderr and otherwise ignored.\<close>

definition persist :: "'s consensus_module \<Rightarrow> 's consensus_module" where
  "persist cm = cm\<lparr>cm_storage := snd (storage_save (cm_storage cm) (persistent_of cm))\<rparr>"

section \<open>Timer and role transitions\<close>

definition election_timed_out :: "nat \<Rightarrow> 's consensus_module \<Rightarrow> bool" where
  "election_timed_out now cm = (cm_role cm \<noteq> Leader \<and> now \<ge> cm_election_deadline cm)"

definition abandon_pre_election :: "'s consensus_module \<Rightarrow> 's consensus_module" where
  "abandon_pre_election cm = cm\<lparr>cm_pre_candidate := False, cm_pre_votes := {}\<rparr>"

definition step_down :: "nat \<Rightarrow> 's consensus_module \<Rightarrow> 's consensus_module" where
  "step_down t cm =
     (let newer = t > cm_current_term cm;
          cm = (if newer then cm\<lparr>cm_current_term := t, cm_voted_for := None\<rparr> else cm);
          cm = cm\<lparr>cm_role := Follower, cm_votes := {}\<rparr>;
          cm = abandon_pre_election cm
      in if newer then persist cm else cm)"

definition become_leader :: "'s consensus_module \<Rightarrow> 's consensus_module" where
  "become_leader cm =
     (let cm = cm\<lparr>cm_role := Leader, cm_leader_id := Some (cm_id cm)\<rparr>;
          cm = abandon_pre_election cm;
          nxt = last_index (cm_log cm) + 1
      in cm\<lparr>cm_next_index := fold (\<lambda>p m. m(p \<mapsto> nxt)) (cm_peers cm) Map.empty,
            cm_match_index := fold (\<lambda>p m. m(p \<mapsto> 0)) (cm_peers cm) Map.empty\<rparr>)"

definition maybe_become_leader :: "'s consensus_module \<Rightarrow> 's consensus_module" where
  "maybe_become_leader cm =
     (if cm_role cm = Candidate \<and> card (cm_votes cm) \<ge> cm_quorum cm then become_leader cm else cm)"

section \<open>Candidate side\<close>

definition start_pre_election ::
  "draw \<Rightarrow> nat \<Rightarrow> 's consensus_module \<Rightarrow> 's consensus_module \<times> request_vote_args" where
  "start_pre_election rng now cm =
     (let cm = cm\<lparr>cm_pre_candidate := True, cm_pre_votes := {cm_id cm}\<rparr>;
          cm = reset_election_deadline rng now cm
      in (cm, \<lparr>rv_term = cm_current_term cm + 1, rv_candidate_id = cm_id cm,
               rv_last_log_index = last_index (cm_log cm),
               rv_last_log_term = last_term (cm_log cm), rv_pre_vote = True\<rparr>))"

definition record_pre_vote_reply ::
  "nat \<Rightarrow> request_vote_reply \<Rightarrow> 's consensus_module \<Rightarrow> 's consensus_module" where
  "record_pre_vote_reply from reply cm =
     (if rvr_term reply > cm_current_term cm
      then (step_down (rvr_term reply) cm)\<lparr>cm_leader_id := None\<rparr>
      else if cm_pre_candidate cm \<and> rvr_vote_granted reply
      then cm\<lparr>cm_pre_votes := insert from (cm_pre_votes cm)\<rparr>
      else cm)"

definition pre_vote_succeeded :: "'s consensus_module \<Rightarrow> bool" where
  "pre_vote_succeeded cm = (cm_pre_candidate cm \<and> card (cm_pre_votes cm) \<ge> cm_quorum cm)"

definition start_election ::
  "draw \<Rightarrow> nat \<Rightarrow> 's consensus_module \<Rightarrow> 's consensus_module \<times> request_vote_args" where
  "start_election rng now cm =
     (let cm = abandon_pre_election cm;
          cm = cm\<lparr>cm_role := Candidate, cm_current_term := cm_current_term cm + 1,
                  cm_voted_for := Some (cm_id cm), cm_leader_id := None,
                  cm_votes := {cm_id cm}\<rparr>;
          cm = reset_election_deadline rng now cm;
          cm = persist cm;
          cm = maybe_become_leader cm
      in (cm, \<lparr>rv_term = cm_current_term cm, rv_candidate_id = cm_id cm,
               rv_last_log_index = last_index (cm_log cm),
               rv_last_log_term = last_term (cm_log cm), rv_pre_vote = False\<rparr>))"

definition record_vote_reply ::
  "nat \<Rightarrow> request_vote_reply \<Rightarrow> 's consensus_module \<Rightarrow> 's consensus_module" where
  "record_vote_reply from reply cm =
     (if rvr_term reply > cm_current_term cm
      then (step_down (rvr_term reply) cm)\<lparr>cm_leader_id := None\<rparr>
      else if cm_role cm \<noteq> Candidate \<or> rvr_term reply \<noteq> cm_current_term cm then cm
      else if rvr_vote_granted reply
      then maybe_become_leader (cm\<lparr>cm_votes := insert from (cm_votes cm)\<rparr>)
      else cm)"

section \<open>Voter side\<close>

definition log_is_up_to_date :: "nat \<Rightarrow> nat \<Rightarrow> 's consensus_module \<Rightarrow> bool" where
  "log_is_up_to_date lli llt cm =
     (llt > last_term (cm_log cm) \<or> (llt = last_term (cm_log cm) \<and> lli \<ge> last_index (cm_log cm)))"

definition adopt_newer_term :: "nat \<Rightarrow> 's consensus_module \<Rightarrow> 's consensus_module" where
  "adopt_newer_term t cm = (if t > cm_current_term cm then step_down t cm else cm)"

definition grant_vote ::
  "draw \<Rightarrow> nat \<Rightarrow> nat \<Rightarrow> 's consensus_module \<Rightarrow> 's consensus_module" where
  "grant_vote rng now candidate cm =
     (let cm = cm\<lparr>cm_voted_for := Some candidate\<rparr>;
          cm = reset_election_deadline rng now cm
      in persist cm)"

definition handle_request_vote ::
  "draw \<Rightarrow> nat \<Rightarrow> request_vote_args \<Rightarrow> 's consensus_module \<Rightarrow>
   's consensus_module \<times> request_vote_reply" where
  "handle_request_vote rng now args cm =
     (if rv_pre_vote args then
        (let leader_is_live =
               (cm_role cm = Leader \<or>
                now - cm_last_leader_contact cm < election_min (cm_timing cm));
             grant = (rv_term args \<ge> cm_current_term cm \<and> \<not> leader_is_live \<and>
                      log_is_up_to_date (rv_last_log_index args) (rv_last_log_term args) cm)
         in (cm, \<lparr>rvr_term = cm_current_term cm, rvr_vote_granted = grant\<rparr>))
      else if rv_term args < cm_current_term cm then
        (cm, \<lparr>rvr_term = cm_current_term cm, rvr_vote_granted = False\<rparr>)
      else
        (let cm = adopt_newer_term (rv_term args) cm;
             up_to_date = log_is_up_to_date (rv_last_log_index args) (rv_last_log_term args) cm;
             free_to_vote = (cm_voted_for cm = None \<or> cm_voted_for cm = Some (rv_candidate_id args))
         in if free_to_vote \<and> up_to_date then
              (let cm = grant_vote rng now (rv_candidate_id args) cm
               in (cm, \<lparr>rvr_term = cm_current_term cm, rvr_vote_granted = True\<rparr>))
            else (cm, \<lparr>rvr_term = cm_current_term cm, rvr_vote_granted = False\<rparr>)))"

section \<open>Follower side\<close>

definition append_conflict :: "nat \<Rightarrow> 's consensus_module \<Rightarrow> append_entries_reply" where
  "append_conflict prev cm =
     (case term_at (cm_log cm) prev of
        None \<Rightarrow> \<lparr>aer_term = cm_current_term cm, aer_success = False,
                 aer_conflict_index = Some (last_index (cm_log cm) + 1),
                 aer_conflict_term = None\<rparr>
      | Some ct \<Rightarrow> \<lparr>aer_term = cm_current_term cm, aer_success = False,
                    aer_conflict_index = first_index_of_term (cm_log cm) ct,
                    aer_conflict_term = Some ct\<rparr>)"

text \<open>The splice loop; \<open>index\<close> is the index of the entry before the first one left.\<close>

fun splice_entries :: "raft_log \<Rightarrow> nat \<Rightarrow> log_entry list \<Rightarrow> raft_log" where
  "splice_entries l index [] = l"
| "splice_entries l index (e # es) =
     (let index = index + 1 in
      if index \<le> lg_snapshot_index l then splice_entries l index es
      else
        (case term_at l index of
           Some t \<Rightarrow>
             if t = le_term e then splice_entries l index es
             else splice_entries (fst (log_append (truncate_after l (index - 1)) e)) index es
         | None \<Rightarrow> splice_entries (fst (log_append l e)) index es))"

text \<open>
  Yielding to a current-term leader, shared by the two follower-side handlers: adopt a
  newer term or drop any candidacy, then note the leader and restart the timer.
\<close>

definition yield_to_leader ::
  "draw \<Rightarrow> nat \<Rightarrow> nat \<Rightarrow> nat \<Rightarrow> 's consensus_module \<Rightarrow> 's consensus_module" where
  "yield_to_leader rng now t leader cm =
     (let cm = (if t > cm_current_term cm then step_down t cm
                else abandon_pre_election (cm\<lparr>cm_role := Follower, cm_votes := {}\<rparr>));
          cm = cm\<lparr>cm_leader_id := Some leader, cm_last_leader_contact := now\<rparr>
      in reset_election_deadline rng now cm)"

definition consistent_at :: "nat \<Rightarrow> nat \<Rightarrow> 's consensus_module \<Rightarrow> bool" where
  "consistent_at prev prev_term cm =
     (if prev > lg_snapshot_index (cm_log cm)
      then (case term_at (cm_log cm) prev of Some t \<Rightarrow> t = prev_term | None \<Rightarrow> False)
      else True)"

definition accept_entries ::
  "append_entries_args \<Rightarrow> 's consensus_module \<Rightarrow> 's consensus_module" where
  "accept_entries args cm =
     (let cm = cm\<lparr>cm_log := splice_entries (cm_log cm) (ae_prev_log_index args) (ae_entries args)\<rparr>;
          cm = (if ae_entries args \<noteq> [] then persist cm else cm)
      in if ae_leader_commit args > cm_commit_index cm
         then cm\<lparr>cm_commit_index := min (ae_leader_commit args) (last_index (cm_log cm))\<rparr>
         else cm)"

definition handle_append_entries ::
  "draw \<Rightarrow> nat \<Rightarrow> append_entries_args \<Rightarrow> 's consensus_module \<Rightarrow>
   's consensus_module \<times> append_entries_reply" where
  "handle_append_entries rng now args cm =
     (if ae_term args < cm_current_term cm
      then (cm, append_reply_rejected (cm_current_term cm))
      else
        (let cm = yield_to_leader rng now (ae_term args) (ae_leader_id args) cm
         in if \<not> consistent_at (ae_prev_log_index args) (ae_prev_log_term args) cm
            then (cm, append_conflict (ae_prev_log_index args) cm)
            else
              (let cm = accept_entries args cm
               in (cm, append_reply_success (cm_current_term cm)))))"

section \<open>Leader side\<close>

text \<open>\<open>next - 1\<close> cannot underflow: \<open>next_index\<close> values are at least 1 (\<open>Raft_Replication\<close>).\<close>

definition append_args_for :: "'s consensus_module \<Rightarrow> nat \<Rightarrow> append_entries_args" where
  "append_args_for cm peer =
     (let nxt = lookup_or (cm_next_index cm) peer (last_index (cm_log cm) + 1);
          prev = nxt - 1;
          prev_term = (case term_at (cm_log cm) prev of None \<Rightarrow> 0 | Some t \<Rightarrow> t)
      in \<lparr>ae_term = cm_current_term cm, ae_leader_id = cm_id cm, ae_prev_log_index = prev,
          ae_prev_log_term = prev_term, ae_entries = entries_after (cm_log cm) prev,
          ae_leader_commit = cm_commit_index cm\<rparr>)"

definition is_replicated_on_majority :: "'s consensus_module \<Rightarrow> nat \<Rightarrow> bool" where
  "is_replicated_on_majority cm n =
     (1 + length (filter (\<lambda>p. lookup_or (cm_match_index cm) p 0 \<ge> n) (cm_peers cm)) \<ge> cm_quorum cm)"

text \<open>The loop that walks down from the tip; \<open>n\<close> is the loop variable.\<close>

fun advance_commit_from :: "'s consensus_module \<Rightarrow> nat \<Rightarrow> 's consensus_module" where
  "advance_commit_from cm 0 = cm"
| "advance_commit_from cm (Suc n) =
     (if Suc n > cm_commit_index cm then
        (if term_at (cm_log cm) (Suc n) = Some (cm_current_term cm) \<and>
            is_replicated_on_majority cm (Suc n)
         then cm\<lparr>cm_commit_index := Suc n\<rparr>
         else advance_commit_from cm n)
      else cm)"

definition maybe_advance_commit :: "'s consensus_module \<Rightarrow> 's consensus_module" where
  "maybe_advance_commit cm = advance_commit_from cm (last_index (cm_log cm))"

definition submit_command ::
  "bytes \<Rightarrow> 's consensus_module \<Rightarrow> 's consensus_module \<times> nat option" where
  "submit_command command cm =
     (if cm_role cm \<noteq> Leader then (cm, None)
      else
        (let (l, index) = log_append (cm_log cm) (log_entry_new (cm_current_term cm) command);
             cm = persist (cm\<lparr>cm_log := l\<rparr>);
             cm = maybe_advance_commit cm
         in (cm, Some index)))"

definition next_index_after_conflict ::
  "'s consensus_module \<Rightarrow> nat \<Rightarrow> append_entries_reply \<Rightarrow> nat" where
  "next_index_after_conflict cm peer reply =
     (case (aer_conflict_term reply, aer_conflict_index reply) of
        (Some t, Some ci) \<Rightarrow>
          (case last_index_of_term (cm_log cm) t of Some li \<Rightarrow> li + 1 | None \<Rightarrow> ci)
      | (None, Some ci) \<Rightarrow> ci
      | _ \<Rightarrow> lookup_or (cm_next_index cm) peer 1 - 1)"

text \<open>Moving a peer's view forward, shared by the two reply handlers.\<close>

definition advance_peer :: "nat \<Rightarrow> nat \<Rightarrow> 's consensus_module \<Rightarrow> 's consensus_module" where
  "advance_peer peer hint cm =
     (let matched = max (lookup_or (cm_match_index cm) peer 0) hint;
          cm = cm\<lparr>cm_match_index := (cm_match_index cm)(peer \<mapsto> matched),
                  cm_next_index := (cm_next_index cm)(peer \<mapsto> matched + 1)\<rparr>
      in maybe_advance_commit cm)"

definition handle_append_reply ::
  "nat \<Rightarrow> append_entries_reply \<Rightarrow> nat \<Rightarrow> 's consensus_module \<Rightarrow> 's consensus_module" where
  "handle_append_reply peer reply match_hint cm =
     (if aer_term reply > cm_current_term cm
      then (step_down (aer_term reply) cm)\<lparr>cm_leader_id := None\<rparr>
      else if cm_role cm \<noteq> Leader \<or> aer_term reply \<noteq> cm_current_term cm then cm
      else if aer_success reply then advance_peer peer match_hint cm
      else
        (let nxt = next_index_after_conflict cm peer reply
         in cm\<lparr>cm_next_index := (cm_next_index cm)(peer \<mapsto> max nxt 1)\<rparr>))"

section \<open>Snapshotting and log compaction\<close>

definition cm_take_snapshot ::
  "nat \<Rightarrow> bytes \<Rightarrow> 's consensus_module \<Rightarrow> 's consensus_module option" where
  "cm_take_snapshot index data cm =
     (if index \<le> lg_snapshot_index (cm_log cm) \<or> index > cm_last_applied cm then Some cm
      else
        (case term_at (cm_log cm) index of
           None \<Rightarrow> None
         | Some t \<Rightarrow>
             Some (persist (cm\<lparr>cm_log := compact (cm_log cm) index t, cm_snapshot := Some data\<rparr>))))"

definition install_snapshot_args :: "'s consensus_module \<Rightarrow> nat \<Rightarrow> install_snapshot_args" where
  "install_snapshot_args cm peer =
     \<lparr>is_term = cm_current_term cm, is_leader_id = cm_id cm,
      is_last_included_index = lg_snapshot_index (cm_log cm),
      is_last_included_term = lg_snapshot_term (cm_log cm),
      is_data = (case cm_snapshot cm of None \<Rightarrow> [] | Some d \<Rightarrow> d)\<rparr>"

definition install_image ::
  "install_snapshot_args \<Rightarrow> 's consensus_module \<Rightarrow> 's consensus_module" where
  "install_image args cm =
     (let cm = cm\<lparr>cm_log := compact (cm_log cm) (is_last_included_index args) (is_last_included_term args),
                  cm_snapshot := Some (is_data args),
                  cm_commit_index := is_last_included_index args,
                  cm_last_applied := is_last_included_index args\<rparr>;
          cm = persist cm
      in cm\<lparr>cm_pending_snapshot :=
              Some \<lparr>sn_last_included_index = is_last_included_index args,
                    sn_last_included_term = is_last_included_term args,
                    sn_data = is_data args\<rparr>\<rparr>)"

definition handle_install_snapshot ::
  "draw \<Rightarrow> nat \<Rightarrow> install_snapshot_args \<Rightarrow> 's consensus_module \<Rightarrow>
   's consensus_module \<times> install_snapshot_reply" where
  "handle_install_snapshot rng now args cm =
     (if is_term args < cm_current_term cm then (cm, \<lparr>isr_term = cm_current_term cm\<rparr>)
      else
        (let cm = yield_to_leader rng now (is_term args) (is_leader_id args) cm
         in if is_last_included_index args \<le> cm_commit_index cm
            then (cm, \<lparr>isr_term = cm_current_term cm\<rparr>)
            else
              (let cm = install_image args cm
               in (cm, \<lparr>isr_term = cm_current_term cm\<rparr>))))"

definition handle_install_snapshot_reply ::
  "nat \<Rightarrow> install_snapshot_reply \<Rightarrow> nat \<Rightarrow> 's consensus_module \<Rightarrow> 's consensus_module" where
  "handle_install_snapshot_reply peer reply li cm =
     (if isr_term reply > cm_current_term cm
      then (step_down (isr_term reply) cm)\<lparr>cm_leader_id := None\<rparr>
      else if cm_role cm \<noteq> Leader \<or> isr_term reply \<noteq> cm_current_term cm then cm
      else advance_peer peer li cm)"

section \<open>Draining applies\<close>

text \<open>
  The drain loop, over the apply cursor \<open>la\<close>: the new cursor and the commands delivered,
  or \<open>None\<close> where \<open>expect\<close> panics because a committed entry is missing.
\<close>

function drain_applies :: "raft_log \<Rightarrow> nat \<Rightarrow> nat \<Rightarrow> (nat \<times> apply_item list) option" where
  "drain_applies l la commit =
     (if la < commit then
        (case log_get l (la + 1) of
           None \<Rightarrow> None
         | Some e \<Rightarrow>
             map_option
               (\<lambda>(la', out).
                 (la', ApplyCommand \<lparr>ap_index = la + 1, ap_term = le_term e,
                                     ap_command = le_command e\<rparr> # out))
               (drain_applies l (la + 1) commit))
      else Some (la, []))"
  by pat_completeness auto
termination
  by (relation "measure (\<lambda>(l, la, commit). commit - la)") auto

declare drain_applies.simps [simp del]

definition take_applies ::
  "'s consensus_module \<Rightarrow> ('s consensus_module \<times> apply_item list) option" where
  "take_applies cm =
     (let out = (case cm_pending_snapshot cm of None \<Rightarrow> [] | Some s \<Rightarrow> [ApplySnapshot s]);
          cm = cm\<lparr>cm_pending_snapshot := None\<rparr>
      in (case drain_applies (cm_log cm) (cm_last_applied cm) (cm_commit_index cm) of
            None \<Rightarrow> None
          | Some (la, cmds) \<Rightarrow> Some (cm\<lparr>cm_last_applied := la\<rparr>, out @ cmds)))"

end
