(* ===== verification/Raft_Local.thy ===== *)
theory Raft_Local
  imports Raft_Consensus
begin

text \<open>
  One node on its own: which fields each method of the consensus module touches, the
  invariants every method keeps (terms only grow, one vote per term, the disk mirrors the
  persistent fields), and the functional behaviour of the methods.
\<close>

section \<open>Frames\<close>

lemma reset_frame [simp]:
  "cm_id (reset_election_deadline rng now cm) = cm_id cm"
  "cm_peers (reset_election_deadline rng now cm) = cm_peers cm"
  "cm_quorum (reset_election_deadline rng now cm) = cm_quorum cm"
  "cm_storage (reset_election_deadline rng now cm) = cm_storage cm"
  "cm_timing (reset_election_deadline rng now cm) = cm_timing cm"
  "cm_current_term (reset_election_deadline rng now cm) = cm_current_term cm"
  "cm_voted_for (reset_election_deadline rng now cm) = cm_voted_for cm"
  "cm_log (reset_election_deadline rng now cm) = cm_log cm"
  "cm_snapshot (reset_election_deadline rng now cm) = cm_snapshot cm"
  "cm_role (reset_election_deadline rng now cm) = cm_role cm"
  "cm_leader_id (reset_election_deadline rng now cm) = cm_leader_id cm"
  "cm_commit_index (reset_election_deadline rng now cm) = cm_commit_index cm"
  "cm_last_applied (reset_election_deadline rng now cm) = cm_last_applied cm"
  "cm_next_index (reset_election_deadline rng now cm) = cm_next_index cm"
  "cm_match_index (reset_election_deadline rng now cm) = cm_match_index cm"
  "cm_votes (reset_election_deadline rng now cm) = cm_votes cm"
  "cm_pre_candidate (reset_election_deadline rng now cm) = cm_pre_candidate cm"
  "cm_pre_votes (reset_election_deadline rng now cm) = cm_pre_votes cm"
  "cm_last_leader_contact (reset_election_deadline rng now cm) = cm_last_leader_contact cm"
  "cm_pending_snapshot (reset_election_deadline rng now cm) = cm_pending_snapshot cm"
  by (simp_all add: reset_election_deadline_def)

lemma persist_frame [simp]:
  "cm_id (persist cm) = cm_id cm"
  "cm_peers (persist cm) = cm_peers cm"
  "cm_quorum (persist cm) = cm_quorum cm"
  "cm_timing (persist cm) = cm_timing cm"
  "cm_current_term (persist cm) = cm_current_term cm"
  "cm_voted_for (persist cm) = cm_voted_for cm"
  "cm_log (persist cm) = cm_log cm"
  "cm_snapshot (persist cm) = cm_snapshot cm"
  "cm_role (persist cm) = cm_role cm"
  "cm_leader_id (persist cm) = cm_leader_id cm"
  "cm_commit_index (persist cm) = cm_commit_index cm"
  "cm_last_applied (persist cm) = cm_last_applied cm"
  "cm_next_index (persist cm) = cm_next_index cm"
  "cm_match_index (persist cm) = cm_match_index cm"
  "cm_votes (persist cm) = cm_votes cm"
  "cm_pre_candidate (persist cm) = cm_pre_candidate cm"
  "cm_pre_votes (persist cm) = cm_pre_votes cm"
  "cm_last_leader_contact (persist cm) = cm_last_leader_contact cm"
  "cm_pending_snapshot (persist cm) = cm_pending_snapshot cm"
  "cm_election_deadline (persist cm) = cm_election_deadline cm"
  by (simp_all add: persist_def)

lemma abandon_frame [simp]:
  "cm_id (abandon_pre_election cm) = cm_id cm"
  "cm_peers (abandon_pre_election cm) = cm_peers cm"
  "cm_quorum (abandon_pre_election cm) = cm_quorum cm"
  "cm_storage (abandon_pre_election cm) = cm_storage cm"
  "cm_timing (abandon_pre_election cm) = cm_timing cm"
  "cm_current_term (abandon_pre_election cm) = cm_current_term cm"
  "cm_voted_for (abandon_pre_election cm) = cm_voted_for cm"
  "cm_log (abandon_pre_election cm) = cm_log cm"
  "cm_snapshot (abandon_pre_election cm) = cm_snapshot cm"
  "cm_role (abandon_pre_election cm) = cm_role cm"
  "cm_leader_id (abandon_pre_election cm) = cm_leader_id cm"
  "cm_commit_index (abandon_pre_election cm) = cm_commit_index cm"
  "cm_last_applied (abandon_pre_election cm) = cm_last_applied cm"
  "cm_next_index (abandon_pre_election cm) = cm_next_index cm"
  "cm_match_index (abandon_pre_election cm) = cm_match_index cm"
  "cm_votes (abandon_pre_election cm) = cm_votes cm"
  "cm_last_leader_contact (abandon_pre_election cm) = cm_last_leader_contact cm"
  "cm_pending_snapshot (abandon_pre_election cm) = cm_pending_snapshot cm"
  "cm_election_deadline (abandon_pre_election cm) = cm_election_deadline cm"
  by (simp_all add: abandon_pre_election_def)

lemma step_down_frame [simp]:
  "cm_id (step_down t cm) = cm_id cm"
  "cm_peers (step_down t cm) = cm_peers cm"
  "cm_quorum (step_down t cm) = cm_quorum cm"
  "cm_timing (step_down t cm) = cm_timing cm"
  "cm_log (step_down t cm) = cm_log cm"
  "cm_snapshot (step_down t cm) = cm_snapshot cm"
  "cm_leader_id (step_down t cm) = cm_leader_id cm"
  "cm_commit_index (step_down t cm) = cm_commit_index cm"
  "cm_last_applied (step_down t cm) = cm_last_applied cm"
  "cm_next_index (step_down t cm) = cm_next_index cm"
  "cm_match_index (step_down t cm) = cm_match_index cm"
  "cm_last_leader_contact (step_down t cm) = cm_last_leader_contact cm"
  "cm_pending_snapshot (step_down t cm) = cm_pending_snapshot cm"
  "cm_election_deadline (step_down t cm) = cm_election_deadline cm"
  by (simp_all add: step_down_def Let_def)

lemma yield_frame [simp]:
  "cm_id (yield_to_leader rng now t leader cm) = cm_id cm"
  "cm_peers (yield_to_leader rng now t leader cm) = cm_peers cm"
  "cm_quorum (yield_to_leader rng now t leader cm) = cm_quorum cm"
  "cm_timing (yield_to_leader rng now t leader cm) = cm_timing cm"
  "cm_log (yield_to_leader rng now t leader cm) = cm_log cm"
  "cm_snapshot (yield_to_leader rng now t leader cm) = cm_snapshot cm"
  "cm_commit_index (yield_to_leader rng now t leader cm) = cm_commit_index cm"
  "cm_last_applied (yield_to_leader rng now t leader cm) = cm_last_applied cm"
  "cm_next_index (yield_to_leader rng now t leader cm) = cm_next_index cm"
  "cm_match_index (yield_to_leader rng now t leader cm) = cm_match_index cm"
  "cm_pending_snapshot (yield_to_leader rng now t leader cm) = cm_pending_snapshot cm"
  by (simp_all add: yield_to_leader_def Let_def)

lemma become_leader_frame [simp]:
  "cm_id (become_leader cm) = cm_id cm"
  "cm_peers (become_leader cm) = cm_peers cm"
  "cm_quorum (become_leader cm) = cm_quorum cm"
  "cm_storage (become_leader cm) = cm_storage cm"
  "cm_timing (become_leader cm) = cm_timing cm"
  "cm_current_term (become_leader cm) = cm_current_term cm"
  "cm_voted_for (become_leader cm) = cm_voted_for cm"
  "cm_log (become_leader cm) = cm_log cm"
  "cm_snapshot (become_leader cm) = cm_snapshot cm"
  "cm_commit_index (become_leader cm) = cm_commit_index cm"
  "cm_last_applied (become_leader cm) = cm_last_applied cm"
  "cm_votes (become_leader cm) = cm_votes cm"
  "cm_last_leader_contact (become_leader cm) = cm_last_leader_contact cm"
  "cm_pending_snapshot (become_leader cm) = cm_pending_snapshot cm"
  "cm_election_deadline (become_leader cm) = cm_election_deadline cm"
  by (simp_all add: become_leader_def Let_def)

lemma maybe_become_leader_frame [simp]:
  "cm_id (maybe_become_leader cm) = cm_id cm"
  "cm_peers (maybe_become_leader cm) = cm_peers cm"
  "cm_quorum (maybe_become_leader cm) = cm_quorum cm"
  "cm_storage (maybe_become_leader cm) = cm_storage cm"
  "cm_timing (maybe_become_leader cm) = cm_timing cm"
  "cm_current_term (maybe_become_leader cm) = cm_current_term cm"
  "cm_voted_for (maybe_become_leader cm) = cm_voted_for cm"
  "cm_log (maybe_become_leader cm) = cm_log cm"
  "cm_snapshot (maybe_become_leader cm) = cm_snapshot cm"
  "cm_commit_index (maybe_become_leader cm) = cm_commit_index cm"
  "cm_last_applied (maybe_become_leader cm) = cm_last_applied cm"
  "cm_votes (maybe_become_leader cm) = cm_votes cm"
  "cm_last_leader_contact (maybe_become_leader cm) = cm_last_leader_contact cm"
  "cm_pending_snapshot (maybe_become_leader cm) = cm_pending_snapshot cm"
  "cm_election_deadline (maybe_become_leader cm) = cm_election_deadline cm"
  by (simp_all add: maybe_become_leader_def)

lemma advance_commit_from_frame [simp]:
  "cm_id (advance_commit_from cm n) = cm_id cm"
  "cm_peers (advance_commit_from cm n) = cm_peers cm"
  "cm_quorum (advance_commit_from cm n) = cm_quorum cm"
  "cm_storage (advance_commit_from cm n) = cm_storage cm"
  "cm_timing (advance_commit_from cm n) = cm_timing cm"
  "cm_current_term (advance_commit_from cm n) = cm_current_term cm"
  "cm_voted_for (advance_commit_from cm n) = cm_voted_for cm"
  "cm_log (advance_commit_from cm n) = cm_log cm"
  "cm_snapshot (advance_commit_from cm n) = cm_snapshot cm"
  "cm_role (advance_commit_from cm n) = cm_role cm"
  "cm_leader_id (advance_commit_from cm n) = cm_leader_id cm"
  "cm_last_applied (advance_commit_from cm n) = cm_last_applied cm"
  "cm_next_index (advance_commit_from cm n) = cm_next_index cm"
  "cm_match_index (advance_commit_from cm n) = cm_match_index cm"
  "cm_votes (advance_commit_from cm n) = cm_votes cm"
  "cm_pre_candidate (advance_commit_from cm n) = cm_pre_candidate cm"
  "cm_pre_votes (advance_commit_from cm n) = cm_pre_votes cm"
  "cm_last_leader_contact (advance_commit_from cm n) = cm_last_leader_contact cm"
  "cm_pending_snapshot (advance_commit_from cm n) = cm_pending_snapshot cm"
  "cm_election_deadline (advance_commit_from cm n) = cm_election_deadline cm"
  by (induction n) simp_all

lemma maybe_advance_commit_frame [simp]:
  "cm_id (maybe_advance_commit cm) = cm_id cm"
  "cm_peers (maybe_advance_commit cm) = cm_peers cm"
  "cm_quorum (maybe_advance_commit cm) = cm_quorum cm"
  "cm_storage (maybe_advance_commit cm) = cm_storage cm"
  "cm_timing (maybe_advance_commit cm) = cm_timing cm"
  "cm_current_term (maybe_advance_commit cm) = cm_current_term cm"
  "cm_voted_for (maybe_advance_commit cm) = cm_voted_for cm"
  "cm_log (maybe_advance_commit cm) = cm_log cm"
  "cm_snapshot (maybe_advance_commit cm) = cm_snapshot cm"
  "cm_role (maybe_advance_commit cm) = cm_role cm"
  "cm_leader_id (maybe_advance_commit cm) = cm_leader_id cm"
  "cm_last_applied (maybe_advance_commit cm) = cm_last_applied cm"
  "cm_next_index (maybe_advance_commit cm) = cm_next_index cm"
  "cm_match_index (maybe_advance_commit cm) = cm_match_index cm"
  "cm_votes (maybe_advance_commit cm) = cm_votes cm"
  "cm_pre_candidate (maybe_advance_commit cm) = cm_pre_candidate cm"
  "cm_pre_votes (maybe_advance_commit cm) = cm_pre_votes cm"
  "cm_last_leader_contact (maybe_advance_commit cm) = cm_last_leader_contact cm"
  "cm_pending_snapshot (maybe_advance_commit cm) = cm_pending_snapshot cm"
  "cm_election_deadline (maybe_advance_commit cm) = cm_election_deadline cm"
  by (simp_all add: maybe_advance_commit_def)

lemma adopt_frame [simp]:
  "cm_id (adopt_newer_term t cm) = cm_id cm"
  "cm_peers (adopt_newer_term t cm) = cm_peers cm"
  "cm_quorum (adopt_newer_term t cm) = cm_quorum cm"
  "cm_timing (adopt_newer_term t cm) = cm_timing cm"
  "cm_log (adopt_newer_term t cm) = cm_log cm"
  "cm_snapshot (adopt_newer_term t cm) = cm_snapshot cm"
  "cm_leader_id (adopt_newer_term t cm) = cm_leader_id cm"
  "cm_commit_index (adopt_newer_term t cm) = cm_commit_index cm"
  "cm_last_applied (adopt_newer_term t cm) = cm_last_applied cm"
  "cm_next_index (adopt_newer_term t cm) = cm_next_index cm"
  "cm_match_index (adopt_newer_term t cm) = cm_match_index cm"
  "cm_last_leader_contact (adopt_newer_term t cm) = cm_last_leader_contact cm"
  "cm_pending_snapshot (adopt_newer_term t cm) = cm_pending_snapshot cm"
  "cm_election_deadline (adopt_newer_term t cm) = cm_election_deadline cm"
  by (simp_all add: adopt_newer_term_def)

lemma grant_vote_frame [simp]:
  "cm_id (grant_vote rng now c cm) = cm_id cm"
  "cm_peers (grant_vote rng now c cm) = cm_peers cm"
  "cm_quorum (grant_vote rng now c cm) = cm_quorum cm"
  "cm_timing (grant_vote rng now c cm) = cm_timing cm"
  "cm_current_term (grant_vote rng now c cm) = cm_current_term cm"
  "cm_log (grant_vote rng now c cm) = cm_log cm"
  "cm_snapshot (grant_vote rng now c cm) = cm_snapshot cm"
  "cm_role (grant_vote rng now c cm) = cm_role cm"
  "cm_leader_id (grant_vote rng now c cm) = cm_leader_id cm"
  "cm_commit_index (grant_vote rng now c cm) = cm_commit_index cm"
  "cm_last_applied (grant_vote rng now c cm) = cm_last_applied cm"
  "cm_next_index (grant_vote rng now c cm) = cm_next_index cm"
  "cm_match_index (grant_vote rng now c cm) = cm_match_index cm"
  "cm_votes (grant_vote rng now c cm) = cm_votes cm"
  "cm_pre_candidate (grant_vote rng now c cm) = cm_pre_candidate cm"
  "cm_pre_votes (grant_vote rng now c cm) = cm_pre_votes cm"
  "cm_last_leader_contact (grant_vote rng now c cm) = cm_last_leader_contact cm"
  "cm_pending_snapshot (grant_vote rng now c cm) = cm_pending_snapshot cm"
  by (simp_all add: grant_vote_def Let_def)

lemma accept_entries_frame [simp]:
  "cm_id (accept_entries args cm) = cm_id cm"
  "cm_peers (accept_entries args cm) = cm_peers cm"
  "cm_quorum (accept_entries args cm) = cm_quorum cm"
  "cm_timing (accept_entries args cm) = cm_timing cm"
  "cm_current_term (accept_entries args cm) = cm_current_term cm"
  "cm_voted_for (accept_entries args cm) = cm_voted_for cm"
  "cm_snapshot (accept_entries args cm) = cm_snapshot cm"
  "cm_role (accept_entries args cm) = cm_role cm"
  "cm_leader_id (accept_entries args cm) = cm_leader_id cm"
  "cm_last_applied (accept_entries args cm) = cm_last_applied cm"
  "cm_next_index (accept_entries args cm) = cm_next_index cm"
  "cm_match_index (accept_entries args cm) = cm_match_index cm"
  "cm_votes (accept_entries args cm) = cm_votes cm"
  "cm_pre_candidate (accept_entries args cm) = cm_pre_candidate cm"
  "cm_pre_votes (accept_entries args cm) = cm_pre_votes cm"
  "cm_last_leader_contact (accept_entries args cm) = cm_last_leader_contact cm"
  "cm_pending_snapshot (accept_entries args cm) = cm_pending_snapshot cm"
  "cm_election_deadline (accept_entries args cm) = cm_election_deadline cm"
  by (simp_all add: accept_entries_def Let_def)

lemma install_image_frame [simp]:
  "cm_id (install_image args cm) = cm_id cm"
  "cm_peers (install_image args cm) = cm_peers cm"
  "cm_quorum (install_image args cm) = cm_quorum cm"
  "cm_timing (install_image args cm) = cm_timing cm"
  "cm_current_term (install_image args cm) = cm_current_term cm"
  "cm_voted_for (install_image args cm) = cm_voted_for cm"
  "cm_role (install_image args cm) = cm_role cm"
  "cm_leader_id (install_image args cm) = cm_leader_id cm"
  "cm_next_index (install_image args cm) = cm_next_index cm"
  "cm_match_index (install_image args cm) = cm_match_index cm"
  "cm_votes (install_image args cm) = cm_votes cm"
  "cm_pre_candidate (install_image args cm) = cm_pre_candidate cm"
  "cm_pre_votes (install_image args cm) = cm_pre_votes cm"
  "cm_last_leader_contact (install_image args cm) = cm_last_leader_contact cm"
  "cm_election_deadline (install_image args cm) = cm_election_deadline cm"
  by (simp_all add: install_image_def Let_def)

lemma advance_peer_frame [simp]:
  "cm_id (advance_peer peer hint cm) = cm_id cm"
  "cm_peers (advance_peer peer hint cm) = cm_peers cm"
  "cm_quorum (advance_peer peer hint cm) = cm_quorum cm"
  "cm_storage (advance_peer peer hint cm) = cm_storage cm"
  "cm_timing (advance_peer peer hint cm) = cm_timing cm"
  "cm_current_term (advance_peer peer hint cm) = cm_current_term cm"
  "cm_voted_for (advance_peer peer hint cm) = cm_voted_for cm"
  "cm_log (advance_peer peer hint cm) = cm_log cm"
  "cm_snapshot (advance_peer peer hint cm) = cm_snapshot cm"
  "cm_role (advance_peer peer hint cm) = cm_role cm"
  "cm_leader_id (advance_peer peer hint cm) = cm_leader_id cm"
  "cm_last_applied (advance_peer peer hint cm) = cm_last_applied cm"
  "cm_votes (advance_peer peer hint cm) = cm_votes cm"
  "cm_pre_candidate (advance_peer peer hint cm) = cm_pre_candidate cm"
  "cm_pre_votes (advance_peer peer hint cm) = cm_pre_votes cm"
  "cm_last_leader_contact (advance_peer peer hint cm) = cm_last_leader_contact cm"
  "cm_pending_snapshot (advance_peer peer hint cm) = cm_pending_snapshot cm"
  "cm_election_deadline (advance_peer peer hint cm) = cm_election_deadline cm"
  by (simp_all add: advance_peer_def Let_def)


lemma step_down_sel [simp]:
  "cm_current_term (step_down t cm) = max t (cm_current_term cm)"
  "cm_voted_for (step_down t cm) = (if t > cm_current_term cm then None else cm_voted_for cm)"
  "cm_role (step_down t cm) = Follower"
  "cm_votes (step_down t cm) = {}"
  by (simp_all add: step_down_def Let_def max_def)

lemma yield_sel [simp]:
  "cm_current_term (yield_to_leader rng now t leader cm) = max t (cm_current_term cm)"
  "cm_voted_for (yield_to_leader rng now t leader cm) =
     (if t > cm_current_term cm then None else cm_voted_for cm)"
  "cm_role (yield_to_leader rng now t leader cm) = Follower"
  "cm_votes (yield_to_leader rng now t leader cm) = {}"
  "cm_leader_id (yield_to_leader rng now t leader cm) = Some leader"
  "cm_last_leader_contact (yield_to_leader rng now t leader cm) = now"
  by (simp_all add: yield_to_leader_def Let_def max_def)

lemma fold_map_upd:
  "fold (\<lambda>p m. m(p \<mapsto> v)) ps m = (\<lambda>p. if p \<in> set ps then Some v else m p)"
  by (induction ps arbitrary: m) (auto simp: fun_eq_iff)

lemma become_leader_sel [simp]:
  "cm_role (become_leader cm) = Leader"
  "cm_leader_id (become_leader cm) = Some (cm_id cm)"
  "cm_next_index (become_leader cm) =
     (\<lambda>p. if p \<in> set (cm_peers cm) then Some (last_index (cm_log cm) + 1) else None)"
  "cm_match_index (become_leader cm) = (\<lambda>p. if p \<in> set (cm_peers cm) then Some 0 else None)"
  by (simp_all add: become_leader_def Let_def fold_map_upd fun_eq_iff)

lemma adopt_sel [simp]:
  "cm_current_term (adopt_newer_term t cm) = max t (cm_current_term cm)"
  "cm_voted_for (adopt_newer_term t cm) = (if t > cm_current_term cm then None else cm_voted_for cm)"
  "cm_role (adopt_newer_term t cm) = (if t > cm_current_term cm then Follower else cm_role cm)"
  "cm_votes (adopt_newer_term t cm) = (if t > cm_current_term cm then {} else cm_votes cm)"
  by (simp_all add: adopt_newer_term_def)

lemma grant_vote_sel [simp]: "cm_voted_for (grant_vote rng now c cm) = Some c"
  by (simp add: grant_vote_def Let_def)

lemma accept_entries_sel [simp]:
  "cm_log (accept_entries args cm) =
     splice_entries (cm_log cm) (ae_prev_log_index args) (ae_entries args)"
  "cm_commit_index (accept_entries args cm) =
     (if ae_leader_commit args > cm_commit_index cm
      then min (ae_leader_commit args)
             (last_index (splice_entries (cm_log cm) (ae_prev_log_index args) (ae_entries args)))
      else cm_commit_index cm)"
  by (simp_all add: accept_entries_def Let_def)

lemma install_image_sel [simp]:
  "cm_log (install_image args cm) =
     compact (cm_log cm) (is_last_included_index args) (is_last_included_term args)"
  "cm_snapshot (install_image args cm) = Some (is_data args)"
  "cm_commit_index (install_image args cm) = is_last_included_index args"
  "cm_last_applied (install_image args cm) = is_last_included_index args"
  "cm_pending_snapshot (install_image args cm) =
     Some \<lparr>sn_last_included_index = is_last_included_index args,
           sn_last_included_term = is_last_included_term args, sn_data = is_data args\<rparr>"
  by (simp_all add: install_image_def Let_def)

lemma log_is_up_to_date_adopt [simp]:
  "log_is_up_to_date i t (adopt_newer_term u cm) = log_is_up_to_date i t cm"
  by (simp add: log_is_up_to_date_def)

lemma consistent_at_yield [simp]:
  "consistent_at i t (yield_to_leader rng now u l cm) = consistent_at i t cm"
  by (simp add: consistent_at_def)

text \<open>The paths through the two request handlers.\<close>

lemma request_vote_cases:
  obtains (pre_vote) "rv_pre_vote args" "fst (handle_request_vote rng now args cm) = cm"
  | (stale) "\<not> rv_pre_vote args" "rv_term args < cm_current_term cm"
      "handle_request_vote rng now args cm =
        (cm, \<lparr>rvr_term = cm_current_term cm, rvr_vote_granted = False\<rparr>)"
  | (granted) "\<not> rv_pre_vote args" "cm_current_term cm \<le> rv_term args"
      "cm_voted_for (adopt_newer_term (rv_term args) cm) \<in> {None, Some (rv_candidate_id args)}"
      "log_is_up_to_date (rv_last_log_index args) (rv_last_log_term args) cm"
      "handle_request_vote rng now args cm =
        (grant_vote rng now (rv_candidate_id args) (adopt_newer_term (rv_term args) cm),
         \<lparr>rvr_term = rv_term args, rvr_vote_granted = True\<rparr>)"
  | (refused) "\<not> rv_pre_vote args" "cm_current_term cm \<le> rv_term args"
      "handle_request_vote rng now args cm =
        (adopt_newer_term (rv_term args) cm,
         \<lparr>rvr_term = rv_term args, rvr_vote_granted = False\<rparr>)"
proof -
  consider "rv_pre_vote args" | "\<not> rv_pre_vote args" "rv_term args < cm_current_term cm"
    | "\<not> rv_pre_vote args" "cm_current_term cm \<le> rv_term args"
    by linarith
  then show thesis
  proof cases
    case 1
    then show thesis by (intro pre_vote) (simp_all add: handle_request_vote_def Let_def)
  next
    case 2
    then show thesis by (intro stale) (simp_all add: handle_request_vote_def)
  next
    case 3
    show thesis
    proof (cases "cm_voted_for (adopt_newer_term (rv_term args) cm) \<in> {None, Some (rv_candidate_id args)}
        \<and> log_is_up_to_date (rv_last_log_index args) (rv_last_log_term args) cm")
      case True
      with 3 show thesis
        by (intro granted) (simp_all add: handle_request_vote_def Let_def max_absorb1)
    next
      case False
      with 3 show thesis
        by (intro refused) (simp_all add: handle_request_vote_def Let_def max_absorb1)
    qed
  qed
qed

lemma append_entries_cases:
  obtains (stale) "ae_term args < cm_current_term cm"
      "handle_append_entries rng now args cm = (cm, append_reply_rejected (cm_current_term cm))"
  | (conflict) "cm_current_term cm \<le> ae_term args"
      "\<not> consistent_at (ae_prev_log_index args) (ae_prev_log_term args) cm"
      "handle_append_entries rng now args cm =
        (yield_to_leader rng now (ae_term args) (ae_leader_id args) cm,
         append_conflict (ae_prev_log_index args)
           (yield_to_leader rng now (ae_term args) (ae_leader_id args) cm))"
  | (accept) "cm_current_term cm \<le> ae_term args"
      "consistent_at (ae_prev_log_index args) (ae_prev_log_term args) cm"
      "handle_append_entries rng now args cm =
        (accept_entries args (yield_to_leader rng now (ae_term args) (ae_leader_id args) cm),
         append_reply_success (ae_term args))"
proof (cases "ae_term args < cm_current_term cm")
  case True
  then show thesis by (intro stale) (simp_all add: handle_append_entries_def)
next
  case False
  then show thesis
    by (cases "consistent_at (ae_prev_log_index args) (ae_prev_log_term args) cm")
      (intro accept conflict; simp add: handle_append_entries_def Let_def max_absorb1)+
qed

lemma install_snapshot_cases:
  obtains (stale) "is_term args < cm_current_term cm"
      "handle_install_snapshot rng now args cm = (cm, \<lparr>isr_term = cm_current_term cm\<rparr>)"
  | (covered) "cm_current_term cm \<le> is_term args" "is_last_included_index args \<le> cm_commit_index cm"
      "handle_install_snapshot rng now args cm =
        (yield_to_leader rng now (is_term args) (is_leader_id args) cm, \<lparr>isr_term = is_term args\<rparr>)"
  | (install) "cm_current_term cm \<le> is_term args" "cm_commit_index cm < is_last_included_index args"
      "handle_install_snapshot rng now args cm =
        (install_image args (yield_to_leader rng now (is_term args) (is_leader_id args) cm),
         \<lparr>isr_term = is_term args\<rparr>)"
proof (cases "is_term args < cm_current_term cm")
  case True
  then show thesis by (intro stale) (simp_all add: handle_install_snapshot_def)
next
  case False
  then show thesis
    by (cases "is_last_included_index args \<le> cm_commit_index cm")
      (intro install covered; simp add: handle_install_snapshot_def Let_def max_absorb1)+
qed

lemma storage_step_down:
  "cm_storage (step_down t cm) =
     (if t > cm_current_term cm
      then snd (storage_save (cm_storage cm)
             \<lparr>ps_current_term = t, ps_voted_for = None, ps_log = cm_log cm, ps_snapshot = cm_snapshot cm\<rparr>)
      else cm_storage cm)"
  by (simp add: step_down_def Let_def persist_def persistent_of_def)

lemma storage_yield: "cm_storage (yield_to_leader rng now t leader cm) = cm_storage (step_down t cm)"
  by (simp add: yield_to_leader_def Let_def storage_step_down)

section \<open>The public methods as events\<close>

text \<open>
  Every method through which the driver and the gRPC service change a consensus module,
  as one datatype, and what each does to the state. \<open>None\<close> is a panic.
\<close>

datatype cm_op =
    StartPreElection draw nat
  | StartElection draw nat
  | RecordPreVoteReply nat request_vote_reply
  | RecordVoteReply nat request_vote_reply
  | HandleRequestVote draw nat request_vote_args
  | HandleAppendEntries draw nat append_entries_args
  | SubmitCommand bytes
  | HandleAppendReply nat append_entries_reply nat
  | TakeSnapshot nat bytes
  | HandleInstallSnapshot draw nat install_snapshot_args
  | HandleInstallSnapshotReply nat install_snapshot_reply nat
  | TakeApplies

fun cm_exec :: "cm_op \<Rightarrow> 's consensus_module \<Rightarrow> 's consensus_module option" where
  "cm_exec (StartPreElection rng now) cm = Some (fst (start_pre_election rng now cm))"
| "cm_exec (StartElection rng now) cm = Some (fst (start_election rng now cm))"
| "cm_exec (RecordPreVoteReply from reply) cm = Some (record_pre_vote_reply from reply cm)"
| "cm_exec (RecordVoteReply from reply) cm = Some (record_vote_reply from reply cm)"
| "cm_exec (HandleRequestVote rng now args) cm = Some (fst (handle_request_vote rng now args cm))"
| "cm_exec (HandleAppendEntries rng now args) cm = Some (fst (handle_append_entries rng now args cm))"
| "cm_exec (SubmitCommand c) cm = Some (fst (submit_command c cm))"
| "cm_exec (HandleAppendReply peer reply hint) cm = Some (handle_append_reply peer reply hint cm)"
| "cm_exec (TakeSnapshot i data) cm = cm_take_snapshot i data cm"
| "cm_exec (HandleInstallSnapshot rng now args) cm = Some (fst (handle_install_snapshot rng now args cm))"
| "cm_exec (HandleInstallSnapshotReply peer reply li) cm = Some (handle_install_snapshot_reply peer reply li cm)"
| "cm_exec TakeApplies cm = map_option fst (take_applies cm)"

lemmas method_defs =
  start_pre_election_def start_election_def record_pre_vote_reply_def record_vote_reply_def
  handle_request_vote_def handle_append_entries_def submit_command_def handle_append_reply_def
  cm_take_snapshot_def handle_install_snapshot_def handle_install_snapshot_reply_def
  take_applies_def

text \<open>Identity and membership never change, and terms never go back.\<close>

lemma exec_identity:
  assumes "cm_exec op cm = Some cm'"
  shows "cm_id cm' = cm_id cm" "cm_peers cm' = cm_peers cm" "cm_quorum cm' = cm_quorum cm"
    and "cm_timing cm' = cm_timing cm"
  using assms
  by (cases op; auto simp: method_defs Let_def split: if_splits option.splits prod.splits)+

lemma exec_term_mono:
  assumes "cm_exec op cm = Some cm'"
  shows "cm_current_term cm \<le> cm_current_term cm'"
  using assms
  by (cases op) (auto simp: method_defs Let_def split: if_splits option.splits prod.splits)

text \<open>A vote, once cast, stands until the term moves on.\<close>

lemma exec_vote_once:
  assumes "cm_exec op cm = Some cm'" "cm_current_term cm' = cm_current_term cm"
    and "cm_voted_for cm = Some v"
  shows "cm_voted_for cm' = Some v"
  using assms
  by (cases op) (auto simp: method_defs Let_def split: if_splits option.splits prod.splits)

section \<open>Persistence\<close>

text \<open>
  \<open>saved cm cm'\<close>: on the way from \<open>cm\<close> to \<open>cm'\<close> the module saved some states, the last
  of them being exactly the persistent fields of \<open>cm'\<close>; or it saved nothing and those
  fields are as they were.
\<close>

definition save_all :: "'s dyn_storage \<Rightarrow> persistent_state list \<Rightarrow> 's dyn_storage" where
  "save_all d sts = foldl (\<lambda>d st. snd (storage_save d st)) d sts"

definition saved :: "'s consensus_module \<Rightarrow> 's consensus_module \<Rightarrow> bool" where
  "saved cm cm' \<longleftrightarrow>
     (\<exists>sts. cm_storage cm' = save_all (cm_storage cm) sts \<and>
        (if sts = [] then persistent_of cm' = persistent_of cm
         else last sts = persistent_of cm'))"

lemma saved_same:
  "cm_storage cm' = cm_storage cm \<Longrightarrow> persistent_of cm' = persistent_of cm \<Longrightarrow> saved cm cm'"
  unfolding saved_def by (rule exI [of _ "[]"]) (simp add: save_all_def)

lemma saved_persist: "cm_storage cm' = cm_storage cm \<Longrightarrow> saved cm (persist cm')"
  unfolding saved_def
  by (rule exI [of _ "[persistent_of cm']"])
    (simp add: save_all_def persist_def persistent_of_def)

lemma saved_trans:
  assumes "saved a b" "saved b c"
  shows "saved a c"
proof -
  from assms(1) obtain xs where xs: "cm_storage b = save_all (cm_storage a) xs"
    "if xs = [] then persistent_of b = persistent_of a else last xs = persistent_of b"
    by (auto simp: saved_def)
  from assms(2) obtain ys where ys: "cm_storage c = save_all (cm_storage b) ys"
    "if ys = [] then persistent_of c = persistent_of b else last ys = persistent_of c"
    by (auto simp: saved_def)
  show ?thesis unfolding saved_def
    by (rule exI [of _ "xs @ ys"]) (use xs ys in \<open>auto simp: save_all_def split: if_splits\<close>)
qed

lemma persistent_of_eq_iff:
  "persistent_of cm' = persistent_of cm \<longleftrightarrow>
     cm_current_term cm' = cm_current_term cm \<and> cm_voted_for cm' = cm_voted_for cm \<and>
     cm_log cm' = cm_log cm \<and> cm_snapshot cm' = cm_snapshot cm"
  by (auto simp: persistent_of_def)

lemma saved_step_down: "saved cm (step_down t cm)"
  by (cases "t > cm_current_term cm")
    (auto simp: step_down_def Let_def persistent_of_eq_iff abandon_pre_election_def
      intro!: saved_same saved_persist)

lemma saved_yield: "saved cm (yield_to_leader rng now t leader cm)"
proof (rule saved_trans [OF saved_step_down])
  show "saved (step_down t cm) (yield_to_leader rng now t leader cm)"
    by (rule saved_same) (simp_all add: storage_yield persistent_of_eq_iff)
qed

lemma saved_advance: "saved cm (maybe_advance_commit cm)"
  by (rule saved_same) (simp_all add: persistent_of_eq_iff)

lemma saved_start_election: "saved cm (fst (start_election rng now cm))"
proof -
  let ?c = "reset_election_deadline rng now
    ((abandon_pre_election cm)\<lparr>cm_role := Candidate, cm_current_term := cm_current_term cm + 1,
      cm_voted_for := Some (cm_id cm), cm_leader_id := None, cm_votes := {cm_id cm}\<rparr>)"
  have "saved cm (persist ?c)" by (rule saved_persist) simp
  moreover have "saved (persist ?c) (maybe_become_leader (persist ?c))"
    by (rule saved_same) (simp_all add: persistent_of_eq_iff)
  ultimately have "saved cm (maybe_become_leader (persist ?c))" by (rule saved_trans)
  then show ?thesis by (simp add: start_election_def Let_def)
qed

lemma saved_record_vote: "saved cm (record_vote_reply from reply cm)"
  unfolding record_vote_reply_def
  by (auto simp: persistent_of_eq_iff intro: saved_same saved_trans [OF saved_step_down saved_same])

lemma saved_record_pre_vote: "saved cm (record_pre_vote_reply from reply cm)"
  unfolding record_pre_vote_reply_def
  by (auto simp: persistent_of_eq_iff intro: saved_same saved_trans [OF saved_step_down saved_same])

lemma saved_adopt: "saved cm (adopt_newer_term t cm)"
  by (simp add: adopt_newer_term_def saved_step_down saved_same)

lemma saved_grant: "saved cm (grant_vote rng now c cm)"
  unfolding grant_vote_def Let_def by (rule saved_persist) simp

lemma saved_request_vote: "saved cm (fst (handle_request_vote rng now args cm))"
  by (rule request_vote_cases [of args rng now cm])
    (auto intro: saved_same saved_adopt saved_trans [OF saved_adopt saved_grant])

lemma saved_accept: "saved cm (accept_entries args cm)"
proof -
  let ?c = "cm\<lparr>cm_log := splice_entries (cm_log cm) (ae_prev_log_index args) (ae_entries args)\<rparr>"
  let ?z = "if ae_entries args \<noteq> [] then persist ?c else ?c"
  have z: "saved cm ?z"
    by (auto intro!: saved_persist saved_same simp: persistent_of_eq_iff)
  have "saved ?z (accept_entries args cm)"
    by (rule saved_same)
      (auto simp: accept_entries_def Let_def persistent_of_eq_iff split: if_splits)
  with z show ?thesis by (rule saved_trans)
qed

lemma saved_append_entries: "saved cm (fst (handle_append_entries rng now args cm))"
  by (rule append_entries_cases [of args cm rng now])
    (auto intro: saved_same saved_yield saved_trans [OF saved_yield saved_accept])

lemma saved_submit: "saved cm (fst (submit_command c cm))"
  unfolding submit_command_def
  by (auto simp: Let_def split: prod.splits
      intro: saved_same saved_trans [OF saved_persist saved_advance])

lemma saved_advance_peer: "saved cm (advance_peer peer hint cm)"
  by (rule saved_same) (simp_all add: persistent_of_eq_iff)

lemma saved_append_reply: "saved cm (handle_append_reply peer reply hint cm)"
  unfolding handle_append_reply_def Let_def
  by (auto simp: persistent_of_eq_iff
      intro: saved_same saved_advance_peer saved_trans [OF saved_step_down saved_same])

lemma saved_install_reply: "saved cm (handle_install_snapshot_reply peer reply li cm)"
  unfolding handle_install_snapshot_reply_def Let_def
  by (auto simp: persistent_of_eq_iff
      intro: saved_same saved_advance_peer saved_trans [OF saved_step_down saved_same])

lemma saved_install_image: "saved cm (install_image args cm)"
proof -
  let ?c = "cm\<lparr>cm_log := compact (cm_log cm) (is_last_included_index args) (is_last_included_term args),
     cm_snapshot := Some (is_data args), cm_commit_index := is_last_included_index args,
     cm_last_applied := is_last_included_index args\<rparr>"
  have "saved cm (persist ?c)" by (rule saved_persist) simp
  moreover have "saved (persist ?c) (install_image args cm)"
    by (rule saved_same) (simp_all add: install_image_def Let_def persistent_of_eq_iff)
  ultimately show ?thesis by (rule saved_trans)
qed

lemma saved_install: "saved cm (fst (handle_install_snapshot rng now args cm))"
  by (rule install_snapshot_cases [of args cm rng now])
    (auto intro: saved_same saved_yield saved_trans [OF saved_yield saved_install_image])

lemma exec_saved: "cm_exec op cm = Some cm' \<Longrightarrow> saved cm cm'"
proof (cases op)
  case (TakeSnapshot i data)
  moreover assume "cm_exec op cm = Some cm'"
  ultimately show ?thesis
    by (auto simp: cm_take_snapshot_def saved_same split: if_splits option.splits intro!: saved_persist)
next
  case TakeApplies
  moreover assume "cm_exec op cm = Some cm'"
  ultimately show ?thesis
    by (auto simp: take_applies_def Let_def persistent_of_eq_iff split: option.splits intro!: saved_same)
next
  case (StartPreElection rng now)
  moreover assume "cm_exec op cm = Some cm'"
  ultimately show ?thesis
    by (auto simp: start_pre_election_def Let_def persistent_of_eq_iff intro!: saved_same)
qed (auto intro: saved_start_election saved_record_vote saved_record_pre_vote saved_request_vote
    saved_append_entries saved_submit saved_append_reply saved_install_reply saved_install)

text \<open>The disk holds exactly the persistent fields.\<close>

definition mirrored :: "'s consensus_module \<Rightarrow> bool" where
  "mirrored cm \<longleftrightarrow> storage_load (cm_storage cm) = Inr (persistent_of cm)"

text \<open>Storage whose saves do not fail.\<close>

locale reliable_storage = raft_storage +
  assumes save_succeeds: "sound s \<Longrightarrow> fits st \<Longrightarrow> fst (save s st) = Inr ()"
begin

lemma box_save_all:
  "boxed load save sound d \<Longrightarrow> boxed load save sound (save_all d sts)"
  by (induction sts arbitrary: d) (auto simp: save_all_def boxed_save)

lemma box_last_save:
  assumes "boxed load save sound d" "sts \<noteq> []" "fits (last sts)"
  shows "storage_load (save_all d sts) = Inr (last sts)"
proof -
  from assms(2) obtain xs x where sts: "sts = xs @ [x]" by (metis rev_exhaust)
  have b: "boxed load save sound (save_all d xs)" using assms(1) by (rule box_save_all)
  have "fst (storage_save (save_all d xs) x) = Inr ()"
    using b assms(3) save_succeeds [of "ds_self (save_all d xs)" x]
    by (auto simp: sts boxed_def storage_save_def split: prod.splits)
  from box_load_save [OF b _ this] assms(3) show ?thesis
    by (simp add: sts save_all_def)
qed

lemma exec_mirrored:
  assumes "boxed load save sound (cm_storage cm)" "mirrored cm"
    and "cm_exec op cm = Some cm'" "fits (persistent_of cm')"
  shows "boxed load save sound (cm_storage cm') \<and> mirrored cm'"
proof -
  from exec_saved [OF assms(3)] obtain sts where
    sts: "cm_storage cm' = save_all (cm_storage cm) sts"
      "if sts = [] then persistent_of cm' = persistent_of cm else last sts = persistent_of cm'"
    by (auto simp: saved_def)
  show ?thesis
  proof (cases "sts = []")
    case True
    with sts assms(1,2) show ?thesis by (simp add: mirrored_def save_all_def)
  next
    case False
    with sts assms box_last_save [OF assms(1) False] box_save_all [OF assms(1), of sts]
    show ?thesis by (simp add: mirrored_def)
  qed
qed

text \<open>A node rebuilt from such a disk is the node that wrote it, in its persistent part.\<close>

lemma restart_recovers:
  assumes "mirrored cm"
  shows "\<exists>cm'. cm_new rng (cm_id cm) (cm_peers cm) (cm_storage cm) tim now = Inr cm' \<and>
    persistent_of cm' = persistent_of cm \<and> mirrored cm' \<and> cm_role cm' = Follower"
  using assms by (auto simp: mirrored_def cm_new_def Let_def persistent_of_def)

end

interpretation in_memory: reliable_storage in_memory_load in_memory_save "\<lambda>_. True" "\<lambda>_. True"
  by unfold_locales (simp add: in_memory_save_def)

section \<open>Runs of a module\<close>

text \<open>
  A module that is driven through any sequence of its methods; \<open>fits\<close> holds of everything
  it persists on the way.
\<close>

inductive cm_runs ::
  "(persistent_state \<Rightarrow> bool) \<Rightarrow> 's consensus_module \<Rightarrow> cm_op list \<Rightarrow> 's consensus_module \<Rightarrow> bool" for fits where
  none: "cm_runs fits cm [] cm"
| more: "cm_exec op cm = Some cm1 \<Longrightarrow> fits (persistent_of cm1) \<Longrightarrow> cm_runs fits cm1 ops cm' \<Longrightarrow>
    cm_runs fits cm (op # ops) cm'"

lemma runs_term_mono: "cm_runs fits cm ops cm' \<Longrightarrow> cm_current_term cm \<le> cm_current_term cm'"
  by (induction rule: cm_runs.induct) (auto dest: exec_term_mono)

lemma runs_vote_once:
  assumes "cm_runs fits cm ops cm'" "cm_current_term cm' = cm_current_term cm" "cm_voted_for cm = Some v"
  shows "cm_voted_for cm' = Some v"
  using assms
proof (induction rule: cm_runs.induct)
  case (more op cm cm1 ops cm')
  then have "cm_current_term cm1 = cm_current_term cm"
    using exec_term_mono [OF more(1)] runs_term_mono [OF more(3)] by simp
  with more exec_vote_once show ?case by metis
qed

lemma runs_identity: "cm_runs fits cm ops cm' \<Longrightarrow> cm_id cm' = cm_id cm \<and> cm_peers cm' = cm_peers cm"
  by (induction rule: cm_runs.induct) (auto dest: exec_identity)

context reliable_storage
begin

lemma runs_mirrored:
  assumes "cm_runs fits cm ops cm'" "boxed load save sound (cm_storage cm)" "mirrored cm"
  shows "boxed load save sound (cm_storage cm') \<and> mirrored cm'"
  using assms
proof (induction rule: cm_runs.induct)
  case (more op cm cm1 ops cm')
  from exec_mirrored [OF more(5,6,1,2)] more.IH show ?case by blast
qed simp

end

text \<open>A module started on an empty in-memory disk, and its first campaign.\<close>

definition fresh_module :: "persistent_state consensus_module" where
  "fresh_module = (case cm_new (\<lambda>lo hi. lo) 1 [2, 3] in_memory_new quick 0 of Inr cm \<Rightarrow> cm)"

lemma fresh_module_ok:
  "boxed in_memory_load in_memory_save (\<lambda>_. True) (cm_storage fresh_module)" "mirrored fresh_module"
  "cm_id fresh_module = 1" "cm_peers fresh_module = [2, 3]" "cm_current_term fresh_module = 0"
  "cm_log fresh_module = log_new" "cm_commit_index fresh_module = 0" "cm_last_applied fresh_module = 0"
  "cm_role fresh_module = Follower"
  by (auto simp: fresh_module_def cm_new_def storage_load_def in_memory_new_def in_memory_load_def Let_def
      boxed_def mirrored_def persistent_of_def reset_election_deadline_def persistent_default_def log_new_def)

definition campaigned :: "persistent_state consensus_module" where
  "campaigned = fst (start_election (\<lambda>lo hi. lo) 1 fresh_module)"

lemma campaigned_run: "cm_runs (\<lambda>_. True) fresh_module [StartElection (\<lambda>lo hi. lo) 1] campaigned"
  by (rule cm_runs.more [OF _ _ cm_runs.none]) (simp_all add: campaigned_def)

section \<open>Properties\<close>

text \<open>
  C20. One vote per term: through any sequence of its methods a node's term never goes back,
  and a vote it has cast stands as long as the term does; nor do its id and its peers change.
\<close>

theorem one_vote_per_term:
  assumes "cm_runs fits cm ops cm'"
  shows "cm_current_term cm \<le> cm_current_term cm' \<and> cm_id cm' = cm_id cm \<and> cm_peers cm' = cm_peers cm \<and>
    (cm_current_term cm' = cm_current_term cm \<and> cm_voted_for cm = Some v \<longrightarrow> cm_voted_for cm' = Some v)"
  using runs_term_mono [OF assms] runs_identity [OF assms] runs_vote_once [OF assms] by blast

theorem one_vote_per_term_witness:
  "\<exists>cm'. cm_runs (\<lambda>_. True) fresh_module [StartElection (\<lambda>lo hi. lo) 1] cm' \<and> cm_id cm' = 1"
  using one_vote_per_term [OF campaigned_run] campaigned_run fresh_module_ok(3) by auto

text \<open>
  C21. Everything that must survive is on the disk when a method returns: on storage that does
  not fail, after any sequence of methods a restart from the disk gives back the term, the
  vote, the log and the snapshot, in a follower with the same id and peers.
\<close>

theorem restart_recovers_state:
  assumes "reliable_storage load save sound fits" "cm_runs fits cm ops cm'"
    and "boxed load save sound (cm_storage cm)" "mirrored cm"
  shows "\<exists>cm2. cm_new rng (cm_id cm) (cm_peers cm) (cm_storage cm') tim now = Inr cm2 \<and>
    cm_current_term cm2 = cm_current_term cm' \<and> cm_voted_for cm2 = cm_voted_for cm' \<and>
    cm_log cm2 = cm_log cm' \<and> cm_snapshot cm2 = cm_snapshot cm' \<and> cm_role cm2 = Follower"
proof -
  have m: "mirrored cm'" using reliable_storage.runs_mirrored [OF assms] ..
  obtain cm2 where "cm_new rng (cm_id cm') (cm_peers cm') (cm_storage cm') tim now = Inr cm2"
    "persistent_of cm2 = persistent_of cm'" "cm_role cm2 = Follower"
    using reliable_storage.restart_recovers [OF assms(1) m, of rng tim now] by blast
  with runs_identity [OF assms(2)] show ?thesis by (auto simp: persistent_of_def)
qed

theorem restart_recovers_state_witness:
  "\<exists>cm2. cm_new (\<lambda>lo hi. lo) 1 [2, 3] (cm_storage campaigned) quick 5 = Inr cm2 \<and>
     cm_voted_for cm2 = Some 1 \<and> cm_current_term cm2 = 1"
proof -
  have "cm_voted_for campaigned = Some 1" "cm_current_term campaigned = 1"
    using fresh_module_ok(3,5) by (simp_all add: campaigned_def start_election_def Let_def)
  with restart_recovers_state [OF in_memory.reliable_storage_axioms campaigned_run fresh_module_ok(1,2),
      of "\<lambda>lo hi. lo" quick 5] fresh_module_ok(3,4) show ?thesis by auto
qed

end
