(* ===== verification/Raft_Transport.thy ===== *)
theory Raft_Transport
  imports Raft_Local
begin

text \<open>
  The gRPC boundary of \<^verbatim>\<open>src/raft/transport.rs\<close>: the wire messages of
  \<^verbatim>\<open>proto/raft.proto\<close>, the conversions between wire and logical messages, the clients
  that call a peer and the service that answers. The network between them (tonic) is a
  parameter: what a client's endpoint answers to a request, or the error it reports.
\<close>

section \<open>Wire messages\<close>

record pb_log_entry =
  pe_term :: nat
  pe_command :: bytes

record pb_vote_request =
  pvq_term :: nat
  pvq_candidate_id :: nat
  pvq_last_log_index :: nat
  pvq_last_log_term :: nat
  pvq_pre_vote :: bool

record pb_vote_response =
  pvp_term :: nat
  pvp_vote_granted :: bool

record pb_append_request =
  paq_term :: nat
  paq_leader_id :: nat
  paq_prev_log_index :: nat
  paq_prev_log_term :: nat
  paq_entries :: "pb_log_entry list"
  paq_leader_commit :: nat

record pb_append_response =
  pap_term :: nat
  pap_success :: bool
  pap_has_conflict :: bool
  pap_conflict_index :: nat
  pap_conflict_term :: nat

record pb_install_request =
  piq_term :: nat
  piq_leader_id :: nat
  piq_last_included_index :: nat
  piq_last_included_term :: nat
  piq_data :: bytes

record pb_install_response =
  pip_term :: nat

section \<open>Conversions\<close>

definition entries_to_pb :: "log_entry list \<Rightarrow> pb_log_entry list" where
  "entries_to_pb = map (\<lambda>e. \<lparr>pe_term = le_term e, pe_command = le_command e\<rparr>)"

definition entries_from_pb :: "pb_log_entry list \<Rightarrow> log_entry list" where
  "entries_from_pb = map (\<lambda>e. \<lparr>le_term = pe_term e, le_command = pe_command e\<rparr>)"

definition vote_req_to_pb :: "request_vote_args \<Rightarrow> pb_vote_request" where
  "vote_req_to_pb a =
     \<lparr>pvq_term = rv_term a, pvq_candidate_id = rv_candidate_id a,
      pvq_last_log_index = rv_last_log_index a, pvq_last_log_term = rv_last_log_term a,
      pvq_pre_vote = rv_pre_vote a\<rparr>"

definition vote_req_from_pb :: "pb_vote_request \<Rightarrow> request_vote_args" where
  "vote_req_from_pb r =
     \<lparr>rv_term = pvq_term r, rv_candidate_id = pvq_candidate_id r,
      rv_last_log_index = pvq_last_log_index r, rv_last_log_term = pvq_last_log_term r,
      rv_pre_vote = pvq_pre_vote r\<rparr>"

definition vote_reply_to_pb :: "request_vote_reply \<Rightarrow> pb_vote_response" where
  "vote_reply_to_pb r = \<lparr>pvp_term = rvr_term r, pvp_vote_granted = rvr_vote_granted r\<rparr>"

definition vote_reply_from_pb :: "pb_vote_response \<Rightarrow> request_vote_reply" where
  "vote_reply_from_pb r = \<lparr>rvr_term = pvp_term r, rvr_vote_granted = pvp_vote_granted r\<rparr>"

definition append_req_to_pb :: "append_entries_args \<Rightarrow> pb_append_request" where
  "append_req_to_pb a =
     \<lparr>paq_term = ae_term a, paq_leader_id = ae_leader_id a,
      paq_prev_log_index = ae_prev_log_index a, paq_prev_log_term = ae_prev_log_term a,
      paq_entries = entries_to_pb (ae_entries a), paq_leader_commit = ae_leader_commit a\<rparr>"

definition append_req_from_pb :: "pb_append_request \<Rightarrow> append_entries_args" where
  "append_req_from_pb r =
     \<lparr>ae_term = paq_term r, ae_leader_id = paq_leader_id r,
      ae_prev_log_index = paq_prev_log_index r, ae_prev_log_term = paq_prev_log_term r,
      ae_entries = entries_from_pb (paq_entries r), ae_leader_commit = paq_leader_commit r\<rparr>"

definition unwrap_or_0 :: "nat option \<Rightarrow> nat" where
  "unwrap_or_0 x = (case x of None \<Rightarrow> 0 | Some v \<Rightarrow> v)"

definition append_reply_to_pb :: "append_entries_reply \<Rightarrow> pb_append_response" where
  "append_reply_to_pb r =
     \<lparr>pap_term = aer_term r, pap_success = aer_success r,
      pap_has_conflict = (aer_conflict_index r \<noteq> None),
      pap_conflict_index = unwrap_or_0 (aer_conflict_index r),
      pap_conflict_term = unwrap_or_0 (aer_conflict_term r)\<rparr>"

definition append_reply_from_pb :: "pb_append_response \<Rightarrow> append_entries_reply" where
  "append_reply_from_pb r =
     \<lparr>aer_term = pap_term r, aer_success = pap_success r,
      aer_conflict_index = (if pap_has_conflict r then Some (pap_conflict_index r) else None),
      aer_conflict_term = (if pap_has_conflict r then Some (pap_conflict_term r) else None)\<rparr>"

definition install_req_to_pb :: "install_snapshot_args \<Rightarrow> pb_install_request" where
  "install_req_to_pb a =
     \<lparr>piq_term = is_term a, piq_leader_id = is_leader_id a,
      piq_last_included_index = is_last_included_index a,
      piq_last_included_term = is_last_included_term a, piq_data = is_data a\<rparr>"

definition install_req_from_pb :: "pb_install_request \<Rightarrow> install_snapshot_args" where
  "install_req_from_pb r =
     \<lparr>is_term = piq_term r, is_leader_id = piq_leader_id r,
      is_last_included_index = piq_last_included_index r,
      is_last_included_term = piq_last_included_term r, is_data = piq_data r\<rparr>"

definition install_reply_to_pb :: "install_snapshot_reply \<Rightarrow> pb_install_response" where
  "install_reply_to_pb r = \<lparr>pip_term = isr_term r\<rparr>"

definition install_reply_from_pb :: "pb_install_response \<Rightarrow> install_snapshot_reply" where
  "install_reply_from_pb r = \<lparr>isr_term = pip_term r\<rparr>"

section \<open>Outbound clients\<close>

datatype transport_error = UnknownPeer nat | InvalidEndpoint string | RpcFailed string

type_synonym 'e peer_clients = "nat \<rightharpoonup> 'e"

text \<open>\<open>from_shared\<close> is tonic's endpoint parser.\<close>

fun connect_peers ::
  "(string \<Rightarrow> transport_error + 'e) \<Rightarrow> (nat \<times> string) list \<Rightarrow> 'e peer_clients \<Rightarrow>
   transport_error + 'e peer_clients" where
  "connect_peers from_shared [] clients = Inr clients"
| "connect_peers from_shared ((pid, addr) # ps) clients =
     res_bind (from_shared (''http://'' @ addr)) (\<lambda>endpoint.
       connect_peers from_shared ps (clients(pid \<mapsto> endpoint)))"

definition peer_clients_connect ::
  "(string \<Rightarrow> transport_error + 'e) \<Rightarrow> (nat \<times> string) list \<Rightarrow> transport_error + 'e peer_clients" where
  "peer_clients_connect from_shared peers = connect_peers from_shared peers Map.empty"

definition client_request_vote ::
  "('e \<Rightarrow> pb_vote_request \<Rightarrow> transport_error + pb_vote_response) \<Rightarrow> 'e peer_clients \<Rightarrow> nat \<Rightarrow>
   request_vote_args \<Rightarrow> transport_error + request_vote_reply" where
  "client_request_vote send clients peer args =
     (case clients peer of
        None \<Rightarrow> Inl (UnknownPeer peer)
      | Some client \<Rightarrow>
          res_bind (send client (vote_req_to_pb args)) (\<lambda>resp. Inr (vote_reply_from_pb resp)))"

definition client_append_entries ::
  "('e \<Rightarrow> pb_append_request \<Rightarrow> transport_error + pb_append_response) \<Rightarrow> 'e peer_clients \<Rightarrow> nat \<Rightarrow>
   append_entries_args \<Rightarrow> transport_error + append_entries_reply" where
  "client_append_entries send clients peer args =
     (case clients peer of
        None \<Rightarrow> Inl (UnknownPeer peer)
      | Some client \<Rightarrow>
          res_bind (send client (append_req_to_pb args)) (\<lambda>resp. Inr (append_reply_from_pb resp)))"

definition client_install_snapshot ::
  "('e \<Rightarrow> pb_install_request \<Rightarrow> transport_error + pb_install_response) \<Rightarrow> 'e peer_clients \<Rightarrow> nat \<Rightarrow>
   install_snapshot_args \<Rightarrow> transport_error + install_snapshot_reply" where
  "client_install_snapshot send clients peer args =
     (case clients peer of
        None \<Rightarrow> Inl (UnknownPeer peer)
      | Some client \<Rightarrow>
          res_bind (send client (install_req_to_pb args)) (\<lambda>resp. Inr (install_reply_from_pb resp)))"

section \<open>Inbound service\<close>

definition service_request_vote ::
  "draw \<Rightarrow> nat \<Rightarrow> pb_vote_request \<Rightarrow> 's consensus_module \<Rightarrow> 's consensus_module \<times> pb_vote_response" where
  "service_request_vote rng now request core =
     (let args = vote_req_from_pb request;
          (core, reply) = handle_request_vote rng now args core
      in (core, vote_reply_to_pb reply))"

definition service_append_entries ::
  "draw \<Rightarrow> nat \<Rightarrow> pb_append_request \<Rightarrow> 's consensus_module \<Rightarrow>
   's consensus_module \<times> pb_append_response" where
  "service_append_entries rng now request core =
     (let args = append_req_from_pb request;
          (core, reply) = handle_append_entries rng now args core
      in (core, append_reply_to_pb reply))"

definition service_install_snapshot ::
  "draw \<Rightarrow> nat \<Rightarrow> pb_install_request \<Rightarrow> 's consensus_module \<Rightarrow>
   's consensus_module \<times> pb_install_response" where
  "service_install_snapshot rng now request core =
     (let args = install_req_from_pb request;
          (core, reply) = handle_install_snapshot rng now args core
      in (core, install_reply_to_pb reply))"

section \<open>What survives the wire\<close>

lemma entries_wire [simp]: "entries_from_pb (entries_to_pb es) = es"
  by (induction es) (simp_all add: entries_from_pb_def entries_to_pb_def)

lemma vote_req_wire [simp]: "vote_req_from_pb (vote_req_to_pb a) = a"
  by (simp add: vote_req_from_pb_def vote_req_to_pb_def)

lemma vote_reply_wire [simp]: "vote_reply_from_pb (vote_reply_to_pb r) = r"
  by (simp add: vote_reply_from_pb_def vote_reply_to_pb_def)

lemma append_req_wire [simp]: "append_req_from_pb (append_req_to_pb a) = a"
  by (simp add: append_req_from_pb_def append_req_to_pb_def)

lemma install_req_wire [simp]: "install_req_from_pb (install_req_to_pb a) = a"
  by (simp add: install_req_from_pb_def install_req_to_pb_def)

lemma install_reply_wire [simp]: "install_reply_from_pb (install_reply_to_pb r) = r"
  by (simp add: install_reply_from_pb_def install_reply_to_pb_def)

text \<open>
  The reply to AppendEntries is the one message that does not come through unchanged: an
  index-only hint arrives with conflict term 0.
\<close>

definition over_wire :: "append_entries_reply \<Rightarrow> append_entries_reply" where
  "over_wire r = append_reply_from_pb (append_reply_to_pb r)"

lemma over_wire_sel [simp]:
  "aer_term (over_wire r) = aer_term r"
  "aer_success (over_wire r) = aer_success r"
  "aer_conflict_index (over_wire r) = aer_conflict_index r"
  "aer_conflict_term (over_wire r) =
     (if aer_conflict_index r = None then None else Some (unwrap_or_0 (aer_conflict_term r)))"
  by (auto simp: over_wire_def append_reply_from_pb_def append_reply_to_pb_def unwrap_or_0_def
      split: option.splits)

lemma over_wire_changes: "over_wire r \<noteq> r \<longleftrightarrow>
  (aer_conflict_index r = None \<longleftrightarrow> aer_conflict_term r \<noteq> None)"
  by (cases r) (auto simp: over_wire_def append_reply_from_pb_def append_reply_to_pb_def unwrap_or_0_def
      split: option.splits)

lemma next_index_over_wire:
  assumes "\<And>e. e \<in> set (lg_entries (cm_log cm)) \<Longrightarrow> 0 < le_term e"
  shows "next_index_after_conflict cm peer (over_wire r) = next_index_after_conflict cm peer r"
proof -
  have "last_index_of_term (cm_log cm) 0 = None"
    using assms by (fastforce simp: last_index_of_term_def)
  then show ?thesis
    by (auto simp: next_index_after_conflict_def unwrap_or_0_def split: option.splits)
qed

section \<open>Property\<close>



end
