(* ===== verification/Raft_Replication.thy ===== *)
theory Raft_Replication
  imports Raft_Local
begin

text \<open>
  What the replication methods do to the whole log a node's compacted log stands for: the
  splice loop of AppendEntries, the commit rule, the apply drain and the conflict hints;
  and the invariant under which no method of the module can panic.
\<close>

section \<open>The splice loop\<close>

text \<open>
  \<open>agree L b i es\<close> counts the leading entries of \<open>es\<close> (which sit at \<open>i + 1, i + 2, \<dots>\<close>)
  that the loop leaves alone: those at or below the boundary \<open>b\<close> and those whose term the
  log already has. \<open>spliced\<close> is the log the loop ends with.
\<close>

fun agree :: "log_entry list \<Rightarrow> nat \<Rightarrow> nat \<Rightarrow> log_entry list \<Rightarrow> nat" where
  "agree L b i [] = 0"
| "agree L b i (e # es) =
     (if Suc i \<le> b \<or> (Suc i \<le> length L \<and> term_of L (Suc i) = le_term e)
      then Suc (agree L b (Suc i) es) else 0)"

definition spliced :: "log_entry list \<Rightarrow> nat \<Rightarrow> nat \<Rightarrow> log_entry list \<Rightarrow> log_entry list" where
  "spliced L b i es =
     (let k = agree L b i es in if k = length es then L else take (i + k) L @ drop k es)"

lemma agree_le: "agree L b i es \<le> length es"
  by (induction L b i es rule: agree.induct) auto

lemma agree_beyond: "length L \<le> i \<Longrightarrow> b \<le> i \<Longrightarrow> agree L b i es = 0"
  by (cases es) auto

lemma agree_bound: "b \<le> length L \<Longrightarrow> i \<le> length L \<Longrightarrow> i + agree L b i es \<le> length L"
  by (induction L b i es rule: agree.induct) auto

lemma agree_nth:
  "j < agree L b i es \<Longrightarrow>
     i + Suc j \<le> b \<or> (i + Suc j \<le> length L \<and> term_of L (i + Suc j) = le_term (es ! j))"
proof (induction L b i es arbitrary: j rule: agree.induct)
  case (1 L b i)
  then show ?case by simp
next
  case (2 L b i e es)
  show ?case
  proof (cases j)
    case 0
    with 2 show ?thesis by (auto split: if_splits)
  next
    case (Suc k)
    with 2 show ?thesis by (fastforce split: if_splits)
  qed
qed

lemma agree_stop:
  assumes "agree L b i es < length es"
  shows "b \<le> i + agree L b i es"
    and "length L \<le> i + agree L b i es \<or>
      term_of L (Suc (i + agree L b i es)) \<noteq> le_term (es ! agree L b i es)"
  using assms by (induction L b i es rule: agree.induct) (auto split: if_splits)

lemma spliced_all: "agree L b i es = length es \<Longrightarrow> spliced L b i es = L"
  by (simp add: spliced_def)

lemma splice_represents:
  assumes "represents L l" "i \<le> length L"
  shows "represents (spliced L (lg_snapshot_index l) i es) (splice_entries l i es) \<and>
    lg_snapshot_index (splice_entries l i es) = lg_snapshot_index l"
  using assms
proof (induction es arbitrary: L l i)
  case Nil
  then show ?case by (simp add: spliced_def)
next
  case (Cons e es)
  let ?b = "lg_snapshot_index l"
  note rep = Cons.prems(1)
  have replace: "spliced L ?b i (e # es) = spliced (take i L @ [e]) ?b (Suc i) es"
    if "\<not> Suc i \<le> ?b" "\<not> (Suc i \<le> length L \<and> term_of L (Suc i) = le_term e)"
  proof -
    have "agree (take i L @ [e]) ?b (Suc i) es = 0"
      using that Cons.prems(2) by (intro agree_beyond) auto
    with that Cons.prems(2) show ?thesis
      by (auto simp: spliced_def Let_def)
  qed
  have step: ?case
    if "splice_entries l i (e # es) = splice_entries l' (Suc i) es" "represents L' l'"
      "lg_snapshot_index l' = ?b" "Suc i \<le> length L'"
      "spliced L ?b i (e # es) = spliced L' ?b (Suc i) es" for l' L'
    using Cons.IH [OF that(2,4)] that by simp
  show ?case
  proof (cases "Suc i \<le> ?b")
    case True
    then show ?thesis
      using rep rlog.base_le [OF rep]
      by (intro step [of l L]) (auto simp: spliced_def Let_def)
  next
    case above: False
    show ?thesis
    proof (cases "Suc i \<le> length L")
      case True
      then have t: "term_at l (Suc i) = Some (term_of L (Suc i))"
        using above rep by (simp add: rlog.termAt)
      show ?thesis
      proof (cases "term_of L (Suc i) = le_term e")
        case eq: True
        with t above True rep show ?thesis
          by (intro step [of l L]) (auto simp: spliced_def Let_def)
      next
        case False
        let ?l' = "fst (log_append (truncate_after l i) e)"
        have "represents (take i L @ [e]) ?l'"
          using rlog.append_repr [OF rlog.truncate_repr [OF rep, of i]] above
          by (simp add: max_absorb1)
        moreover have "lg_snapshot_index ?l' = ?b"
          by (simp add: rlog.append_base rlog.truncate_base)
        ultimately show ?thesis
          using t above False True replace
          by (intro step [of ?l' "take i L @ [e]"]) auto
      qed
    next
      case False
      then have i: "i = length L" using Cons.prems(2) by simp
      have "term_at l (Suc i) = None" using False rep by (simp add: rlog.termAt)
      with above i rep False replace show ?thesis
        by (intro step [of "fst (log_append l e)" "L @ [e]"])
          (auto simp: rlog.append_repr rlog.append_base)
    qed
  qed
qed

lemmas splice_repr = splice_represents [THEN conjunct1]
lemmas splice_base = splice_represents [THEN conjunct2]

lemma spliced_length:
  assumes "b \<le> length L" "i \<le> length L"
  shows "i + length es \<le> length (spliced L b i es)"
proof -
  let ?k = "agree L b i es"
  have "?k \<le> length es" "i + ?k \<le> length L"
    using assms by (simp_all add: agree_le agree_bound)
  then show ?thesis by (auto simp: spliced_def Let_def)
qed

text \<open>
  If equal terms mean equal prefixes (the log matching property between the local log and
  the sender's log \<open>T\<close>), the splice makes the local log agree with \<open>T\<close> through the last
  entry sent, and it only ever drops entries that disagree with \<open>T\<close>.
\<close>

lemma spliced_matches:
  assumes prev: "take i L = take i T" and i: "i \<le> length L"
    and es: "es = take n (drop i T)" and n: "i + n \<le> length T"
    and b: "b \<le> length L" and base: "take (min b (i + n)) L = take (min b (i + n)) T"
    and matching: "\<And>j. 0 < j \<Longrightarrow> j \<le> length L \<Longrightarrow> j \<le> length T \<Longrightarrow>
      term_of L j = term_of T j \<Longrightarrow> take j L = take j T"
  shows "take (i + n) (spliced L b i es) = take (i + n) T"
    and "spliced L b i es = L \<or> spliced L b i es = take (i + n) T"
proof -
  let ?k = "agree L b i es"
  have len: "length es = n" using es n by simp
  have k: "?k \<le> n" "i + ?k \<le> length L"
    using agree_le [of L b i es] len agree_bound [OF b i, of es] by simp_all
  have pre: "take (i + ?k) L = take (i + ?k) T"
  proof (cases ?k)
    case 0
    with prev show ?thesis by simp
  next
    case (Suc m)
    then have "m < ?k" by simp
    from agree_nth [OF this] consider "i + Suc m \<le> b"
      | "i + Suc m \<le> length L" "term_of L (i + Suc m) = le_term (es ! m)"
      by blast
    then show ?thesis
    proof cases
      case 1
      with Suc k base show ?thesis by (metis min.boundedI take_eq_trans add_left_mono)
    next
      case 2
      have "es ! m = T ! (i + m)" using es n Suc k len by simp
      with 2 have "term_of L (i + Suc m) = term_of T (i + Suc m)" by (simp add: term_of_def)
      with matching [of "i + Suc m"] 2 Suc k n show ?thesis by simp
    qed
  qed
  have T: "take (i + ?k) T @ drop ?k es = take (i + n) T"
  proof -
    have "drop ?k es = take (n - ?k) (drop (i + ?k) T)"
      by (simp add: es drop_take add.commute)
    moreover have "take (i + ?k) T @ take (n - ?k) (drop (i + ?k) T) = take (i + n) T"
      using k(1) by (metis add.assoc le_add_diff_inverse take_add)
    ultimately show ?thesis by simp
  qed
  show "take (i + n) (spliced L b i es) = take (i + n) T"
  proof (cases "?k = n")
    case True
    with pre len show ?thesis by (simp add: spliced_def)
  next
    case False
    with pre T len show ?thesis by (simp add: spliced_def)
  qed
  show "spliced L b i es = L \<or> spliced L b i es = take (i + n) T"
    using pre T by (simp add: spliced_def Let_def)
qed

section \<open>The commit rule\<close>

definition committable :: "'s consensus_module \<Rightarrow> nat \<Rightarrow> bool" where
  "committable cm n \<longleftrightarrow>
     term_at (cm_log cm) n = Some (cm_current_term cm) \<and> is_replicated_on_majority cm n"

lemma is_replicated_frame [simp]:
  "is_replicated_on_majority (cm\<lparr>cm_commit_index := k\<rparr>) n = is_replicated_on_majority cm n"
  by (simp add: is_replicated_on_majority_def)

lemma advance_commit_from_spec:
  "let c = cm_commit_index cm; c' = cm_commit_index (advance_commit_from cm n) in
     (c' = c \<or> c < c' \<and> c' \<le> n \<and> committable cm c') \<and>
     (\<forall>m. c' < m \<and> m \<le> n \<longrightarrow> \<not> (c < m \<and> committable cm m))"
proof (induction n)
  case 0
  then show ?case by (simp add: Let_def)
next
  case (Suc n)
  then show ?case
    by (auto simp: Let_def committable_def le_Suc_eq)
qed

lemma advance_commit_cases:
  obtains (same) "maybe_advance_commit cm = cm"
      "\<And>m. cm_commit_index cm < m \<Longrightarrow> m \<le> last_index (cm_log cm) \<Longrightarrow> \<not> committable cm m"
  | (advance) n where "maybe_advance_commit cm = cm\<lparr>cm_commit_index := n\<rparr>"
      "cm_commit_index cm < n" "n \<le> last_index (cm_log cm)" "committable cm n"
      "\<And>m. n < m \<Longrightarrow> m \<le> last_index (cm_log cm) \<Longrightarrow> \<not> committable cm m"
proof -
  let ?c = "cm_commit_index cm" and ?c' = "cm_commit_index (maybe_advance_commit cm)"
  have eq: "maybe_advance_commit cm = cm\<lparr>cm_commit_index := ?c'\<rparr>"
    by simp
  note spec = advance_commit_from_spec [of cm "last_index (cm_log cm)",
      folded maybe_advance_commit_def, unfolded Let_def]
  show thesis
  proof (cases "?c' = ?c")
    case True
    with eq have "maybe_advance_commit cm = cm" by simp
    with spec True show thesis by (intro same) auto
  next
    case False
    with spec have n: "?c < ?c'" "?c' \<le> last_index (cm_log cm)" "committable cm ?c'" by auto
    show thesis by (rule advance [OF eq n]) (use spec n in auto)
  qed
qed

section \<open>Draining applies\<close>

definition apply_of :: "log_entry list \<Rightarrow> nat \<Rightarrow> apply_item" where
  "apply_of L i =
     ApplyCommand \<lparr>ap_index = i, ap_term = term_of L i, ap_command = le_command (L ! (i - 1))\<rparr>"

lemma drain_applies_spec:
  assumes "represents L l" "lg_snapshot_index l \<le> la" "la \<le> c" "c \<le> length L"
  shows "drain_applies l la c = Some (c, map (apply_of L) [Suc la ..< Suc c])"
  using assms
proof (induction l la c rule: drain_applies.induct)
  case (1 l la c)
  show ?case
  proof (cases "la < c")
    case True
    then have get: "log_get l (la + 1) = Some (L ! la)"
      using "1.prems" by (simp add: rlog.getAt)
    have "drain_applies l (la + 1) c = Some (c, map (apply_of L) [Suc (la + 1) ..< Suc c])"
      using "1.prems" True by (intro "1.IH" [OF True get]) simp_all
    moreover have "[Suc la ..< Suc c] = Suc la # [Suc (Suc la) ..< Suc c]"
      using True by (simp add: upt_rec)
    ultimately show ?thesis
      using True get by (simp add: drain_applies.simps [of l la c] apply_of_def del: upt_Suc)
  next
    case False
    with "1.prems" have "la = c" by simp
    then show ?thesis by (simp add: drain_applies.simps [of l c c])
  qed
qed

section \<open>The local invariant\<close>

text \<open>
  What a node keeps true of its own fields: the log has a boundary that makes sense, the
  cursors are ordered, replication cursors are at least 1, and a node that campaigned has
  voted for itself.
\<close>

definition cm_inv :: "'s consensus_module \<Rightarrow> bool" where
  "cm_inv cm \<longleftrightarrow>
     log_wf (cm_log cm) \<and>
     (cm_snapshot cm = None \<longrightarrow> lg_snapshot_index (cm_log cm) = 0) \<and>
     lg_snapshot_index (cm_log cm) \<le> cm_last_applied cm \<and>
     cm_last_applied cm \<le> cm_commit_index cm \<and>
     cm_commit_index cm \<le> last_index (cm_log cm) \<and>
     (\<forall>p k. cm_next_index cm p = Some k \<longrightarrow> 1 \<le> k) \<and>
     (cm_role cm \<noteq> Follower \<longrightarrow> cm_voted_for cm = Some (cm_id cm)) \<and>
     cm_quorum cm = quorum_of (cm_peers cm) \<and>
     finite (cm_votes cm) \<and> finite (cm_pre_votes cm)"

lemma cm_invI:
  assumes "log_wf (cm_log cm)" "cm_snapshot cm = None \<Longrightarrow> lg_snapshot_index (cm_log cm) = 0"
    and "lg_snapshot_index (cm_log cm) \<le> cm_last_applied cm"
    and "cm_last_applied cm \<le> cm_commit_index cm" "cm_commit_index cm \<le> last_index (cm_log cm)"
    and "\<And>p k. cm_next_index cm p = Some k \<Longrightarrow> 1 \<le> k"
    and "cm_role cm \<noteq> Follower \<Longrightarrow> cm_voted_for cm = Some (cm_id cm)"
    and "cm_quorum cm = quorum_of (cm_peers cm)" "finite (cm_votes cm)" "finite (cm_pre_votes cm)"
  shows "cm_inv cm"
  using assms by (simp add: cm_inv_def)

lemma cm_invD:
  assumes "cm_inv cm"
  shows "log_wf (cm_log cm)" "cm_snapshot cm = None \<Longrightarrow> lg_snapshot_index (cm_log cm) = 0"
    and "lg_snapshot_index (cm_log cm) \<le> cm_last_applied cm"
    and "cm_last_applied cm \<le> cm_commit_index cm" "cm_commit_index cm \<le> last_index (cm_log cm)"
    and "cm_next_index cm p = Some k \<Longrightarrow> 1 \<le> k"
    and "cm_role cm \<noteq> Follower \<Longrightarrow> cm_voted_for cm = Some (cm_id cm)"
    and "cm_quorum cm = quorum_of (cm_peers cm)" "finite (cm_votes cm)" "finite (cm_pre_votes cm)"
  using assms by (auto simp: cm_inv_def)

lemma cm_inv_represents:
  assumes "cm_inv cm"
  obtains L where "represents L (cm_log cm)" "length L = last_index (cm_log cm)"
proof -
  from cm_invD(1) [OF assms] obtain L where "represents L (cm_log cm)"
    by (auto simp: log_wf_iff_represents)
  with that show thesis by (simp add: rlog.lastIndex)
qed

lemma cm_new_inv:
  assumes "cm_new rng nid peers st tim now = Inr cm" "storage_load st = Inr ps"
    and "log_wf (ps_log ps)" "ps_snapshot ps = None \<Longrightarrow> lg_snapshot_index (ps_log ps) = 0"
  shows "cm_inv cm"
proof -
  from assms(3) obtain L where "represents L (ps_log ps)" by (auto simp: log_wf_iff_represents)
  then have "lg_snapshot_index (ps_log ps) \<le> last_index (ps_log ps)"
    by (simp add: rlog.base_le rlog.lastIndex)
  with assms show ?thesis by (auto simp: cm_new_def Let_def cm_inv_def)
qed

text \<open>No method panics: every \<open>expect\<close> is reached only where its value is present.\<close>

lemma take_applies_inv:
  assumes "cm_inv cm" "represents L (cm_log cm)"
  shows "take_applies cm =
    Some (cm\<lparr>cm_pending_snapshot := None, cm_last_applied := cm_commit_index cm\<rparr>,
      (case cm_pending_snapshot cm of None \<Rightarrow> [] | Some s \<Rightarrow> [ApplySnapshot s]) @
      map (apply_of L) [Suc (cm_last_applied cm) ..< Suc (cm_commit_index cm)])"
  using drain_applies_spec [OF assms(2) cm_invD(3,4) [OF assms(1)]] cm_invD(5) [OF assms(1)]
    rlog.lastIndex [OF assms(2)]
  by (simp add: take_applies_def Let_def)

lemma take_snapshot_inv:
  assumes "cm_inv cm" "represents L (cm_log cm)"
  shows "cm_take_snapshot i data cm =
    Some (if lg_snapshot_index (cm_log cm) < i \<and> i \<le> cm_last_applied cm
      then persist (cm\<lparr>cm_log := compact (cm_log cm) i (term_of L i), cm_snapshot := Some data\<rparr>)
      else cm)"
  using cm_invD(3-5) [OF assms(1)] rlog.lastIndex [OF assms(2)] rlog.termAt [OF assms(2), of i]
  by (auto simp: cm_take_snapshot_def)

lemma exec_total:
  assumes "cm_inv cm"
  shows "\<exists>cm'. cm_exec op cm = Some cm'"
proof -
  obtain L where "represents L (cm_log cm)" using cm_inv_represents [OF assms] by blast
  with assms show ?thesis
    by (cases op) (auto simp: take_applies_inv take_snapshot_inv)
qed

subsection \<open>Every method keeps it\<close>

text \<open>
  One method can break the order of the cursors if it is fed what no leader sends:
  AppendEntries whose entries contradict an index this node has committed. That this does
  not happen is a property of the cluster; here it is a hypothesis.
\<close>

fun op_safe :: "cm_op \<Rightarrow> 's consensus_module \<Rightarrow> bool" where
  "op_safe (HandleAppendEntries rng now args) cm =
     (\<forall>j < length (ae_entries args).
        (let i = ae_prev_log_index args + Suc j in
         lg_snapshot_index (cm_log cm) < i \<and> i \<le> cm_commit_index cm \<longrightarrow>
         term_at (cm_log cm) i = Some (le_term (ae_entries args ! j))))"
| "op_safe _ cm = True"

lemma cm_inv_update:
  assumes "cm_inv cm"
    and "cm_log cm' = cm_log cm" "cm_snapshot cm' = cm_snapshot cm"
    and "cm_last_applied cm' = cm_last_applied cm" "cm_commit_index cm' = cm_commit_index cm"
    and "cm_quorum cm' = cm_quorum cm" "cm_peers cm' = cm_peers cm"
    and "\<And>p k. cm_next_index cm' p = Some k \<Longrightarrow> 1 \<le> k"
    and "cm_role cm' \<noteq> Follower \<Longrightarrow> cm_voted_for cm' = Some (cm_id cm')"
    and "finite (cm_votes cm')" "finite (cm_pre_votes cm')"
  shows "cm_inv cm'"
  using assms by (simp add: cm_inv_def)

lemma pre_votes_cleared [simp]:
  "cm_pre_votes (abandon_pre_election cm) = {}"
  "cm_pre_votes (step_down t cm) = {}"
  "cm_pre_votes (yield_to_leader rng now t l cm) = {}"
  "cm_pre_votes (become_leader cm) = {}"
  by (simp_all add: abandon_pre_election_def step_down_def yield_to_leader_def become_leader_def Let_def
      persist_def reset_election_deadline_def)

lemma step_down_inv:
  assumes inv: "cm_inv cm"
  shows "cm_inv (step_down t cm)"
  by (rule cm_inv_update [OF inv]) (use cm_invD(6,9) [OF inv] in auto)

lemma yield_inv:
  assumes inv: "cm_inv cm"
  shows "cm_inv (yield_to_leader rng now t l cm)"
  by (rule cm_inv_update [OF inv]) (use cm_invD(6,9) [OF inv] in auto)

lemma adopt_inv: "cm_inv cm \<Longrightarrow> cm_inv (adopt_newer_term t cm)"
  by (simp add: adopt_newer_term_def step_down_inv)

lemma leader_id_inv [simp]: "cm_inv (cm\<lparr>cm_leader_id := x\<rparr>) = cm_inv cm"
  by (simp add: cm_inv_def)

lemma persist_inv [simp]: "cm_inv (persist cm) = cm_inv cm"
  by (simp add: cm_inv_def)

lemma maybe_become_leader_inv:
  assumes "cm_inv cm"
  shows "cm_inv (maybe_become_leader cm)"
proof (cases "cm_role cm = Candidate \<and> card (cm_votes cm) \<ge> cm_quorum cm")
  case True
  with assms have "cm_inv (become_leader cm)"
    by (intro cm_inv_update [OF assms]) (auto simp: cm_invD split: if_splits)
  with True show ?thesis by (simp add: maybe_become_leader_def)
next
  case False
  with assms show ?thesis unfolding maybe_become_leader_def by (simp only: if_False)
qed

lemma advance_inv: "cm_inv cm \<Longrightarrow> cm_inv (maybe_advance_commit cm)"
  by (rule advance_commit_cases [of cm]) (auto simp: cm_inv_def)

lemma advance_peer_inv:
  assumes inv: "cm_inv cm"
  shows "cm_inv (advance_peer peer hint cm)"
  unfolding advance_peer_def Let_def
  by (rule advance_inv, rule cm_inv_update [OF inv])
    (use cm_invD(6,7,9,10) [OF inv] in \<open>auto split: if_splits\<close>)

lemma start_election_inv:
  assumes inv: "cm_inv cm"
  shows "cm_inv (fst (start_election rng now cm))"
  unfolding start_election_def Let_def fst_conv
  by (rule maybe_become_leader_inv, unfold persist_inv, rule cm_inv_update [OF inv])
    (use cm_invD(6) [OF inv] in auto)

lemma accept_entries_inv:
  assumes inv: "cm_inv cm" and con: "consistent_at (ae_prev_log_index args) (ae_prev_log_term args) cm"
    and safe: "op_safe (HandleAppendEntries rng now args) cm"
  shows "cm_inv (accept_entries args cm)"
proof -
  let ?b = "lg_snapshot_index (cm_log cm)" and ?i = "ae_prev_log_index args" and ?es = "ae_entries args"
  obtain L where L: "represents L (cm_log cm)" "length L = last_index (cm_log cm)"
    using cm_inv_represents [OF inv] by blast
  have b: "?b \<le> length L" using L(1) by (rule rlog.base_le)
  have i: "?i \<le> length L"
    using con L b by (auto simp: consistent_at_def rlog.termAt split: if_splits option.splits)
  let ?l = "splice_entries (cm_log cm) ?i ?es" and ?k = "agree L ?b ?i ?es"
  have rep: "represents (spliced L ?b ?i ?es) ?l" by (rule splice_repr [OF L(1) i])
  have "cm_commit_index cm \<le> length (spliced L ?b ?i ?es)"
  proof (cases "?k = length ?es")
    case True
    then show ?thesis using cm_invD(5) [OF inv] L(2) by (simp add: spliced_all)
  next
    case False
    then have k: "?k < length ?es" using agree_le [of L ?b ?i ?es] by simp
    have "cm_commit_index cm \<le> ?i + ?k"
    proof (rule ccontr)
      assume "\<not> cm_commit_index cm \<le> ?i + ?k"
      then have c: "Suc (?i + ?k) \<le> cm_commit_index cm" by simp
      then have "Suc (?i + ?k) \<le> length L" using cm_invD(5) [OF inv] L(2) by simp
      moreover have "term_at (cm_log cm) (Suc (?i + ?k)) = Some (le_term (?es ! ?k))"
        using safe k c agree_stop(1) [OF k] by (simp add: Let_def)
      ultimately show False
        using agree_stop [OF k] L(1) by (auto simp: rlog.termAt split: if_splits)
    qed
    with k b i show ?thesis
      using agree_bound [OF b i, of ?es] by (simp add: spliced_def Let_def)
  qed
  then have "cm_commit_index cm \<le> last_index ?l" using rlog.lastIndex [OF rep] by simp
  moreover have "log_wf ?l" using rep by (auto simp: log_wf_iff_represents)
  moreover have "lg_snapshot_index ?l = ?b" by (rule splice_base [OF L(1) i])
  ultimately show ?thesis using inv by (auto simp: cm_inv_def)
qed

lemma compact_wf: "log_wf l \<Longrightarrow> log_wf (compact l i t)"
  by (simp add: log_wf_def compact_def)

lemma compact_last_index: "i \<le> last_index (compact l i t)"
  by (simp add: compact_def last_index_def Let_def)

lemma compact_last_index_keep:
  assumes "represents L l" "i \<le> length L"
  shows "last_index (compact l i (term_of L i)) = last_index l"
  using rlog.compact_keep [OF assms refl] assms by (simp add: rlog.lastIndex)

lemma install_image_inv:
  assumes "cm_inv cm" "cm_commit_index cm < is_last_included_index args"
  shows "cm_inv (install_image args cm)"
  using assms
  by (auto simp: cm_inv_def compact_wf compact_snapshot_index compact_last_index)

lemma take_snapshot_keeps_inv:
  assumes "cm_inv cm" "cm_take_snapshot i data cm = Some cm'"
  shows "cm_inv cm'"
proof -
  obtain L where L: "represents L (cm_log cm)" "length L = last_index (cm_log cm)"
    using cm_inv_represents [OF assms(1)] by blast
  show ?thesis
  proof (cases "lg_snapshot_index (cm_log cm) < i \<and> i \<le> cm_last_applied cm")
    case True
    with assms L(1) have cm': "cm' =
      persist (cm\<lparr>cm_log := compact (cm_log cm) i (term_of L i), cm_snapshot := Some data\<rparr>)"
      by (simp add: take_snapshot_inv)
    have "i \<le> length L" using True cm_invD(4,5) [OF assms(1)] L(2) by simp
    with True assms(1) L(1) show ?thesis
      by (auto simp: cm' cm_inv_def compact_wf compact_snapshot_index compact_last_index_keep)
  next
    case False
    with assms L(1) show ?thesis by (auto simp: take_snapshot_inv)
  qed
qed

lemma submit_inv:
  assumes inv: "cm_inv cm"
  shows "cm_inv (fst (submit_command c cm))"
proof -
  let ?cm = "cm\<lparr>cm_log := fst (log_append (cm_log cm) (log_entry_new (cm_current_term cm) c))\<rparr>"
  have "cm_inv ?cm"
    using inv by (auto simp: cm_inv_def log_wf_def last_index_def log_append_def Let_def)
  then have "cm_inv (maybe_advance_commit (persist ?cm))"
    by (intro advance_inv) simp
  with inv show ?thesis
    by (simp add: submit_command_def case_prod_beta)
qed

lemma record_vote_inv: "cm_inv cm \<Longrightarrow> cm_inv (record_vote_reply from reply cm)"
  unfolding record_vote_reply_def
  by (auto intro!: step_down_inv maybe_become_leader_inv) (simp add: cm_inv_def)

lemma record_pre_vote_inv: "cm_inv cm \<Longrightarrow> cm_inv (record_pre_vote_reply from reply cm)"
  unfolding record_pre_vote_reply_def
  by (auto intro!: step_down_inv) (simp add: cm_inv_def)

lemma request_vote_inv:
  assumes "cm_inv cm"
  shows "cm_inv (fst (handle_request_vote rng now args cm))"
proof (rule request_vote_cases [of args rng now cm])
  assume g: "cm_voted_for (adopt_newer_term (rv_term args) cm) \<in> {None, Some (rv_candidate_id args)}"
    "handle_request_vote rng now args cm =
      (grant_vote rng now (rv_candidate_id args) (adopt_newer_term (rv_term args) cm),
       \<lparr>rvr_term = rv_term args, rvr_vote_granted = True\<rparr>)"
  note a = adopt_inv [OF assms, of "rv_term args"]
  have "cm_inv (grant_vote rng now (rv_candidate_id args) (adopt_newer_term (rv_term args) cm))"
    by (rule cm_inv_update [OF a])
      (use cm_invD(6,7,9,10) [OF a] g(1) in \<open>auto split: if_splits\<close>)
  with g(2) show ?thesis by simp
qed (use assms adopt_inv [OF assms, of "rv_term args"] in auto)

lemma append_reply_inv:
  assumes inv: "cm_inv cm"
  shows "cm_inv (handle_append_reply peer reply hint cm)"
proof -
  have "cm_inv (cm\<lparr>cm_next_index := (cm_next_index cm)(peer \<mapsto> max n 1)\<rparr>)" for n
    by (rule cm_inv_update [OF inv])
      (use cm_invD(6,7,9,10) [OF inv] in \<open>auto split: if_splits\<close>)
  with inv show ?thesis
    by (simp add: handle_append_reply_def step_down_inv advance_peer_inv)
qed

lemma install_reply_inv: "cm_inv cm \<Longrightarrow> cm_inv (handle_install_snapshot_reply peer reply li cm)"
  unfolding handle_install_snapshot_reply_def by (auto intro!: step_down_inv advance_peer_inv)

lemma append_entries_inv:
  assumes "cm_inv cm" "op_safe (HandleAppendEntries rng now args) cm"
  shows "cm_inv (fst (handle_append_entries rng now args cm))"
  by (rule append_entries_cases [of args cm rng now])
    (use assms yield_inv [OF assms(1)] in \<open>auto intro!: accept_entries_inv\<close>)

lemma install_snapshot_inv: "cm_inv cm \<Longrightarrow> cm_inv (fst (handle_install_snapshot rng now args cm))"
  by (rule install_snapshot_cases [of args cm rng now])
    (auto intro!: install_image_inv intro: yield_inv)

lemma exec_inv:
  assumes "cm_inv cm" "op_safe op cm" "cm_exec op cm = Some cm'"
  shows "cm_inv cm'"
proof (cases op)
  case TakeApplies
  obtain L where "represents L (cm_log cm)" using cm_inv_represents [OF assms(1)] by blast
  with TakeApplies assms have "cm' = cm\<lparr>cm_pending_snapshot := None, cm_last_applied := cm_commit_index cm\<rparr>"
    by (simp add: take_applies_inv)
  with assms(1) show ?thesis by (simp add: cm_inv_def)
next
  case (StartPreElection rng now)
  with assms show ?thesis
    by (auto simp: start_pre_election_def Let_def intro!: cm_inv_update [OF assms(1)] dest: cm_invD)
qed (use assms in \<open>auto intro: start_election_inv record_vote_inv record_pre_vote_inv request_vote_inv
    append_entries_inv submit_inv append_reply_inv install_reply_inv install_snapshot_inv
    take_snapshot_keeps_inv\<close>)

section \<open>Properties\<close>


lemma fresh_module_inv: "cm_inv fresh_module"
proof -
  have "cm_new (\<lambda>lo hi. lo) 1 [2, 3] in_memory_new quick 0 = Inr fresh_module"
    by (simp add: fresh_module_def cm_new_def storage_load_def in_memory_new_def in_memory_load_def Let_def)
  moreover have "storage_load in_memory_new = Inr persistent_default"
    by (simp add: storage_load_def in_memory_new_def in_memory_load_def)
  ultimately show ?thesis
    by (rule cm_new_inv) (simp_all add: persistent_default_def log_new_def log_wf_def)
qed



text \<open>
  C19. Accepted entries make the logs agree: when a node accepts AppendEntries built from a
  sender's log \<open>T\<close>, and equal terms mean equal prefixes between its log \<open>L\<close> and \<open>T\<close>, its log
  afterwards equals \<open>T\<close> through the last entry sent; and nothing is dropped from \<open>L\<close> unless
  it contradicts \<open>T\<close>, so a delayed message never takes entries away.
\<close>

theorem accepted_entries_match_sender:
  assumes inv: "cm_inv cm" "represents L (cm_log cm)" "cm_current_term cm \<le> ae_term args"
    and con: "consistent_at (ae_prev_log_index args) (ae_prev_log_term args) cm"
    and args: "ae_prev_log_term args = term_of T (ae_prev_log_index args)"
      "ae_entries args = take n (drop (ae_prev_log_index args) T)" "ae_prev_log_index args + n \<le> length T"
    and base: "take (min (snapshot_index cm) (ae_prev_log_index args + n)) L =
        take (min (snapshot_index cm) (ae_prev_log_index args + n)) T"
    and matching: "\<And>j. 0 < j \<Longrightarrow> j \<le> length L \<Longrightarrow> j \<le> length T \<Longrightarrow> term_of L j = term_of T j \<Longrightarrow> take j L = take j T"
  shows "\<exists>L'. aer_success (snd (handle_append_entries rng now args cm)) \<and>
    represents L' (cm_log (fst (handle_append_entries rng now args cm))) \<and>
    take (ae_prev_log_index args + n) L' = take (ae_prev_log_index args + n) T \<and>
    (L' = L \<or> L' = take (ae_prev_log_index args + n) T)"
proof -
  let ?i = "ae_prev_log_index args" and ?b = "lg_snapshot_index (cm_log cm)"
  have b: "?b \<le> length L" by (rule rlog.base_le [OF inv(2)])
  have i: "?i \<le> length L \<and> take ?i L = take ?i T"
  proof (cases "?b < ?i")
    case True
    then have "?i \<le> length L" "term_of L ?i = term_of T ?i"
      using con args(1) by (auto simp: consistent_at_def rlog.termAt [OF inv(2)] split: if_splits option.splits)
    with matching [of ?i] True args(3) show ?thesis by simp
  next
    case False
    with base b show ?thesis
      by (metis snapshot_index_def le_add1 min.bounded_iff not_le_imp_less order_trans take_eq_trans)
  qed
  have run: "handle_append_entries rng now args cm =
      (accept_entries args (yield_to_leader rng now (ae_term args) (ae_leader_id args) cm),
       append_reply_success (ae_term args))"
    by (rule append_entries_cases [of args cm rng now]) (use inv(3) con in auto)
  let ?L = "spliced L ?b ?i (ae_entries args)"
  have "represents ?L (cm_log (fst (handle_append_entries rng now args cm)))"
    using splice_repr [OF inv(2), of ?i "ae_entries args"] i run by simp
  moreover have "aer_success (snd (handle_append_entries rng now args cm))"
    by (simp add: run append_reply_success_def)
  ultimately show ?thesis
    using spliced_matches [OF conjunct2 [OF i] conjunct1 [OF i] args(2,3) b base [unfolded snapshot_index_def] matching]
    by blast
qed

text \<open>A first entry from a leader of term 1.\<close>

definition first_append :: append_entries_args where
  "first_append =
     \<lparr>ae_term = 1, ae_leader_id = 2, ae_prev_log_index = 0, ae_prev_log_term = 0,
      ae_entries = [log_entry_new 1 [7]], ae_leader_commit = 0\<rparr>"

theorem accepted_entries_match_sender_witness:
  "\<exists>L'. represents L' (cm_log (fst (handle_append_entries (\<lambda>lo hi. lo) 1 first_append fresh_module))) \<and>
     take 1 L' = [log_entry_new 1 [7]]"
  using accepted_entries_match_sender [OF fresh_module_inv, of "[]" first_append "[log_entry_new 1 [7]]" 1
      "\<lambda>lo hi. lo" 1] represents_new fresh_module_ok(5,6)
  by (auto simp: first_append_def consistent_at_def log_new_def snapshot_index_def)

end
