(* ===== verification/Raft_Node.thy ===== *)
theory Raft_Node
  imports Raft_Transport Raft_Replication
begin

text \<open>
  The driver of \<^verbatim>\<open>src/raft/node.rs\<close>: starting a node, the work it decides on each tick, the
  calls that work fans out, the fold of each reply back into the core, and the handles
  (\<open>NodeHandle\<close>, \<open>RaftControl\<close>) through which the application reaches the core. Every
  access takes the core's mutex and never awaits while holding it, so each definition
  below is one atomic access.
\<close>

section \<open>Starting a node\<close>

text \<open>
  What a running node holds: the shared core and the driver's own variables. The channel
  of the apply stream is its list of items sent so far.
\<close>

record 's node =
  nd_core :: "'s consensus_module"
  nd_peer_ids :: "nat list"
  nd_timing :: timing
  nd_running :: bool
  nd_last_heartbeat :: nat
  nd_applied :: "apply_item list"

text \<open>
  \<open>connect\<close> is the attempt to build the peers' clients (\<open>peer_clients_connect\<close>). The first
  heartbeat is armed by setting the last one a heartbeat interval back; instants count
  from an origin at least that far in the past.
\<close>

datatype start_error = StorageFailed storage_error | ConnectFailed transport_error

definition start_node ::
  "draw \<Rightarrow> ((nat \<times> string) list \<Rightarrow> transport_error + 'e peer_clients) \<Rightarrow> cluster_config \<Rightarrow>
   's dyn_storage \<Rightarrow> timing \<Rightarrow> nat \<Rightarrow> start_error + 's node \<times> 'e peer_clients" where
  "start_node rng connect config storage tim now =
     (let peer_ids = map peer_id (cc_peers config) in
      case cm_new rng (cc_id config) peer_ids storage tim now of
        Inl e \<Rightarrow> Inl (StorageFailed e)
      | Inr core \<Rightarrow>
          (let peer_addrs = map (\<lambda>p. (peer_id p, peer_addr p)) (cc_peers config) in
           case connect peer_addrs of
             Inl e \<Rightarrow> Inl (ConnectFailed e)
           | Inr clients \<Rightarrow>
               Inr (\<lparr>nd_core = core, nd_peer_ids = peer_ids, nd_timing = tim, nd_running = True,
                     nd_last_heartbeat = now - heartbeat tim, nd_applied = []\<rparr>, clients)))"

section \<open>Handles\<close>

definition node_propose :: "bytes \<Rightarrow> 's node \<Rightarrow> 's node \<times> nat option" where
  "node_propose command n =
     (case submit_command command (nd_core n) of (core, idx) \<Rightarrow> (n\<lparr>nd_core := core\<rparr>, idx))"

definition node_kill :: "'s node \<Rightarrow> 's node" where
  "node_kill n = n\<lparr>nd_running := False\<rparr>"

text \<open>\<open>Drop for NodeHandle\<close> stops a node as \<open>kill\<close> does.\<close>

definition node_drop :: "'s node \<Rightarrow> 's node" where
  "node_drop n = n\<lparr>nd_running := False\<rparr>"

lemma node_drop_kill: "node_drop = node_kill"
  by (simp add: fun_eq_iff node_drop_def node_kill_def)

definition control_snapshot :: "nat \<Rightarrow> bytes \<Rightarrow> 's node \<Rightarrow> 's node option" where
  "control_snapshot index data n =
     map_option (\<lambda>core. n\<lparr>nd_core := core\<rparr>) (cm_take_snapshot index data (nd_core n))"

section \<open>One tick\<close>

datatype outgoing = OutAppend append_entries_args | OutSnapshot install_snapshot_args

datatype step =
    StepStartPreElection request_vote_args
  | StepStartElection request_vote_args
  | StepReplicate "(nat \<times> outgoing) list"
  | StepIdle

definition message_for :: "bool \<Rightarrow> 's consensus_module \<Rightarrow> nat \<Rightarrow> (nat \<times> outgoing) option" where
  "message_for heartbeat_due core peer =
     (if needs_snapshot core peer
      then (if heartbeat_due then Some (peer, OutSnapshot (install_snapshot_args core peer)) else None)
      else (let args = append_args_for core peer
            in if heartbeat_due \<or> ae_entries args \<noteq> [] then Some (peer, OutAppend args) else None))"

definition decide_step :: "draw \<Rightarrow> nat \<Rightarrow> 's node \<Rightarrow> 's node \<times> step" where
  "decide_step rng now n =
     (let core = nd_core n in
      if is_leader core then
        (let heartbeat_due = (now - nd_last_heartbeat n \<ge> heartbeat (nd_timing n));
             messages = List.map_filter (message_for heartbeat_due core) (nd_peer_ids n)
         in if messages = [] then (n, StepIdle)
            else ((if heartbeat_due then n\<lparr>nd_last_heartbeat := now\<rparr> else n), StepReplicate messages))
      else if pre_vote_succeeded core then
        (case start_election rng now core of (core, args) \<Rightarrow> (n\<lparr>nd_core := core\<rparr>, StepStartElection args))
      else if election_timed_out now core then
        (case start_pre_election rng now core of (core, args) \<Rightarrow>
           (n\<lparr>nd_core := core\<rparr>, StepStartPreElection args))
      else (n, StepIdle))"

text \<open>The calls a step spawns, one task each; a task that fails is dropped.\<close>

datatype call =
    CallPreVote nat request_vote_args
  | CallVote nat request_vote_args
  | CallAppend nat append_entries_args
  | CallInstall nat install_snapshot_args

fun call_of :: "nat \<times> outgoing \<Rightarrow> call" where
  "call_of (peer, OutAppend args) = CallAppend peer args"
| "call_of (peer, OutSnapshot args) = CallInstall peer args"

fun spawn_calls :: "nat list \<Rightarrow> step \<Rightarrow> call list" where
  "spawn_calls peer_ids (StepStartPreElection args) = map (\<lambda>p. CallPreVote p args) peer_ids"
| "spawn_calls peer_ids (StepStartElection args) = map (\<lambda>p. CallVote p args) peer_ids"
| "spawn_calls peer_ids (StepReplicate messages) = map call_of messages"
| "spawn_calls peer_ids StepIdle = []"

text \<open>Draining the apply stream; \<open>None\<close> is the panic of \<open>take_applies\<close>.\<close>

definition drain_tick :: "'s node \<Rightarrow> 's node option" where
  "drain_tick n =
     map_option (\<lambda>(core, items). n\<lparr>nd_core := core, nd_applied := nd_applied n @ items\<rparr>)
       (take_applies (nd_core n))"

section \<open>Calls and replies\<close>

datatype reply =
    VoteReply request_vote_reply
  | AppendReply append_entries_reply
  | InstallReply install_snapshot_reply

text \<open>What the called peer's service does, and what the caller's client makes of the response.\<close>

fun serve_call :: "draw \<Rightarrow> nat \<Rightarrow> call \<Rightarrow> 's consensus_module \<Rightarrow> 's consensus_module \<times> reply" where
  "serve_call rng now (CallPreVote p args) core =
     (case service_request_vote rng now (vote_req_to_pb args) core of
        (core, resp) \<Rightarrow> (core, VoteReply (vote_reply_from_pb resp)))"
| "serve_call rng now (CallVote p args) core =
     (case service_request_vote rng now (vote_req_to_pb args) core of
        (core, resp) \<Rightarrow> (core, VoteReply (vote_reply_from_pb resp)))"
| "serve_call rng now (CallAppend p args) core =
     (case service_append_entries rng now (append_req_to_pb args) core of
        (core, resp) \<Rightarrow> (core, AppendReply (append_reply_from_pb resp)))"
| "serve_call rng now (CallInstall p args) core =
     (case service_install_snapshot rng now (install_req_to_pb args) core of
        (core, resp) \<Rightarrow> (core, InstallReply (install_reply_from_pb resp)))"

fun fold_reply :: "call \<Rightarrow> reply \<Rightarrow> 's consensus_module \<Rightarrow> 's consensus_module" where
  "fold_reply (CallPreVote p args) (VoteReply r) core = record_pre_vote_reply p r core"
| "fold_reply (CallVote p args) (VoteReply r) core = record_vote_reply p r core"
| "fold_reply (CallAppend p args) (AppendReply r) core =
     (let match_hint = ae_prev_log_index args + length (ae_entries args)
      in handle_append_reply p r match_hint core)"
| "fold_reply (CallInstall p args) (InstallReply r) core =
     (let last = is_last_included_index args in handle_install_snapshot_reply p r last core)"
| "fold_reply _ _ core = core"

fun call_dst :: "call \<Rightarrow> nat" where
  "call_dst (CallPreVote p args) = p"
| "call_dst (CallVote p args) = p"
| "call_dst (CallAppend p args) = p"
| "call_dst (CallInstall p args) = p"

end
