(* ===== verification/Raft_Protocol.thy ===== *)
theory Raft_Protocol
  imports Raft_Types
begin

text \<open>
  The abstract specification of the consensus protocol: what a cluster promises, stated
  over whole logs and the history of votes, elections and acknowledgements, with no
  messages, no compaction and no timers. \<open>Raft_Safety\<close> shows that every step of the
  modelled code is a sequence of these steps; the safety argument is made here once.
\<close>

section \<open>State\<close>

text \<open>
  Per node \<open>v\<close>: its term \<open>pt\<close>, whole log \<open>pl\<close> and commit index \<open>pc\<close>. The rest is history:
  \<open>ballot v t\<close> the vote \<open>v\<close> cast in term \<open>t\<close> and its log at that moment; \<open>clog t c\<close> the log
  with which \<open>c\<close> campaigned in term \<open>t\<close>; \<open>elected t\<close> the leader of term \<open>t\<close> and the voters
  that elected it; \<open>tlog t\<close> the log of that leader; \<open>acks\<close> the triples \<open>(v, t, i)\<close> such that
  \<open>v\<close> told the leader of term \<open>t\<close> that it holds the leader's first \<open>i\<close> entries.
\<close>

record proto =
  pt :: "nat \<Rightarrow> nat"
  pl :: "nat \<Rightarrow> log_entry list"
  pc :: "nat \<Rightarrow> nat"
  ballot :: "nat \<Rightarrow> nat \<Rightarrow> (nat \<times> log_entry list) option"
  clog :: "nat \<Rightarrow> nat \<Rightarrow> log_entry list option"
  elected :: "nat \<Rightarrow> (nat \<times> nat set) option"
  tlog :: "nat \<Rightarrow> log_entry list"
  acks :: "(nat \<times> nat \<times> nat) set"

definition up_to_date :: "log_entry list \<Rightarrow> log_entry list \<Rightarrow> bool" where
  "up_to_date L V \<longleftrightarrow>
     term_of V (length V) < term_of L (length L) \<or>
     term_of V (length V) = term_of L (length L) \<and> length V \<le> length L"

text \<open>What a follower's log becomes when it takes over the leader's first \<open>m\<close> entries.\<close>

definition synced :: "log_entry list \<Rightarrow> nat \<Rightarrow> log_entry list \<Rightarrow> log_entry list" where
  "synced L m T = (if take m L = take m T then L else take m T)"

text \<open>Entry \<open>i\<close> of leader \<open>t\<close>'s log is of its own term and a quorum holds it.\<close>

definition committed :: "(nat set \<Rightarrow> bool) \<Rightarrow> proto \<Rightarrow> nat \<Rightarrow> nat \<Rightarrow> bool" where
  "committed quorum g t i \<longleftrightarrow>
     elected g t \<noteq> None \<and> 0 < i \<and> i \<le> length (tlog g t) \<and> term_of (tlog g t) i = t \<and>
     (\<exists>Q. quorum Q \<and> (\<forall>v \<in> Q. \<exists>m \<ge> i. (v, t, m) \<in> acks g))"

definition proto_init :: proto where
  "proto_init =
     \<lparr>pt = \<lambda>_. 0, pl = \<lambda>_. [], pc = \<lambda>_. 0, ballot = \<lambda>_ _. None, clog = \<lambda>_ _. None,
      elected = \<lambda>_. None, tlog = \<lambda>_. [], acks = {}\<rparr>"

section \<open>Steps\<close>

text \<open>Each step is taken by one node, the second argument.\<close>

inductive proto_step :: "(nat set \<Rightarrow> bool) \<Rightarrow> nat \<Rightarrow> proto \<Rightarrow> proto \<Rightarrow> bool" for quorum where
  adopt: "pt g v \<le> t \<Longrightarrow> proto_step quorum v g (g\<lparr>pt := (pt g)(v := t)\<rparr>)"
| campaign: "t = Suc (pt g c) \<Longrightarrow>
    proto_step quorum c g
      (g\<lparr>pt := (pt g)(c := t), ballot := (ballot g)(c := (ballot g c)(t \<mapsto> (c, pl g c))),
         clog := (clog g)(t := (clog g t)(c \<mapsto> pl g c))\<rparr>)"
| vote: "t = pt g v \<Longrightarrow> ballot g v t = None \<Longrightarrow> clog g t c = Some L \<Longrightarrow> up_to_date L (pl g v) \<Longrightarrow>
    proto_step quorum v g (g\<lparr>ballot := (ballot g)(v := (ballot g v)(t \<mapsto> (c, pl g v)))\<rparr>)"
| elect: "t = pt g c \<Longrightarrow> elected g t = None \<Longrightarrow> clog g t c = Some (pl g c) \<Longrightarrow> quorum Q \<Longrightarrow>
    (\<And>v. v \<in> Q \<Longrightarrow> \<exists>vl. ballot g v t = Some (c, vl)) \<Longrightarrow>
    proto_step quorum c g
      (g\<lparr>elected := (elected g)(t \<mapsto> (c, Q)), tlog := (tlog g)(t := pl g c)\<rparr>)"
| extend: "t = pt g c \<Longrightarrow> elected g t = Some (c, Q) \<Longrightarrow> pl g c = tlog g t \<Longrightarrow> le_term e = t \<Longrightarrow>
    L = tlog g t @ [e] \<Longrightarrow>
    proto_step quorum c g
      (g\<lparr>pl := (pl g)(c := L), tlog := (tlog g)(t := L), acks := insert (c, t, length L) (acks g)\<rparr>)"
| sync: "t = pt g v \<Longrightarrow> elected g t = Some (c, Q) \<Longrightarrow> c \<noteq> v \<Longrightarrow> m \<le> length (tlog g t) \<Longrightarrow>
    proto_step quorum v g
      (g\<lparr>pl := (pl g)(v := synced (pl g v) m (tlog g t)), acks := insert (v, t, m) (acks g)\<rparr>)"
| commit: "k \<le> length (pl g v) \<Longrightarrow> t \<le> pt g v \<Longrightarrow> committed quorum g t i \<Longrightarrow> k \<le> i \<Longrightarrow>
    take k (pl g v) = take k (tlog g t) \<Longrightarrow> proto_step quorum v g (g\<lparr>pc := (pc g)(v := k)\<rparr>)"
| forget: "k \<le> pc g v \<Longrightarrow> proto_step quorum v g (g\<lparr>pc := (pc g)(v := k)\<rparr>)"

inductive proto_reach :: "(nat set \<Rightarrow> bool) \<Rightarrow> proto \<Rightarrow> bool" for quorum where
  init: "proto_reach quorum proto_init"
| step: "proto_reach quorum g \<Longrightarrow> proto_step quorum v g h \<Longrightarrow> proto_reach quorum h"

lemma proto_reach_steps:
  "(proto_step quorum v)\<^sup>*\<^sup>* g h \<Longrightarrow> proto_reach quorum g \<Longrightarrow> proto_reach quorum h"
  by (induction rule: rtranclp_induct) (auto intro: proto_reach.step)

section \<open>Invariant\<close>

text \<open>
  A log is \<open>log_ok\<close> when its terms do not decrease and every prefix of it is a prefix of
  the log of the leader that wrote the prefix's last entry.
\<close>

definition log_ok :: "proto \<Rightarrow> log_entry list \<Rightarrow> bool" where
  "log_ok g X \<longleftrightarrow>
     (\<forall>i j. i \<le> j \<and> j \<le> length X \<longrightarrow> term_of X i \<le> term_of X j) \<and>
     (\<forall>i. 0 < i \<and> i \<le> length X \<longrightarrow>
        elected g (term_of X i) \<noteq> None \<and> take i X = take i (tlog g (term_of X i)))"

text \<open>A leader after term \<open>t\<close> and up to term \<open>T\<close> lacks the first \<open>i\<close> entries of leader \<open>t\<close>.\<close>

definition lacking :: "proto \<Rightarrow> nat \<Rightarrow> nat \<Rightarrow> nat \<Rightarrow> bool" where
  "lacking g t i T \<longleftrightarrow>
     (\<exists>u. t < u \<and> u \<le> T \<and> elected g u \<noteq> None \<and> take i (tlog g u) \<noteq> take i (tlog g t))"

definition inv_clog :: "proto \<Rightarrow> bool" where
  "inv_clog g \<longleftrightarrow>
     (\<forall>t c L. clog g t c = Some L \<longrightarrow>
        0 < t \<and> t \<le> pt g c \<and> log_ok g L \<and> (\<forall>i \<le> length L. term_of L i < t))"

definition inv_ballot :: "proto \<Rightarrow> bool" where
  "inv_ballot g \<longleftrightarrow>
     (\<forall>v t c V. ballot g v t = Some (c, V) \<longrightarrow>
        t \<le> pt g v \<and> log_ok g V \<and> (\<exists>L. clog g t c = Some L \<and> up_to_date L V))"

definition inv_elect :: "(nat set \<Rightarrow> bool) \<Rightarrow> proto \<Rightarrow> bool" where
  "inv_elect quorum g \<longleftrightarrow>
     (\<forall>t c Q. elected g t = Some (c, Q) \<longrightarrow>
        quorum Q \<and> (\<forall>v \<in> Q. \<exists>V. ballot g v t = Some (c, V)) \<and> log_ok g (tlog g t) \<and>
        (\<exists>L. clog g t c = Some L \<and> take (length L) (tlog g t) = L \<and>
           (\<forall>i. length L < i \<and> i \<le> length (tlog g t) \<longrightarrow> term_of (tlog g t) i = t)))"

definition inv_logs :: "proto \<Rightarrow> bool" where
  "inv_logs g \<longleftrightarrow>
     (\<forall>v. log_ok g (pl g v) \<and> (\<forall>i \<le> length (pl g v). term_of (pl g v) i \<le> pt g v))"

definition inv_acks :: "proto \<Rightarrow> bool" where
  "inv_acks g \<longleftrightarrow>
     (\<forall>v t m i. (v, t, m) \<in> acks g \<and> i \<le> m \<longrightarrow>
        t \<le> pt g v \<and> elected g t \<noteq> None \<and> i \<le> length (tlog g t) \<and>
        (take i (pl g v) = take i (tlog g t) \<or> lacking g t i (pt g v)) \<and>
        (\<forall>t' c V. t < t' \<and> ballot g v t' = Some (c, V) \<longrightarrow>
           take i V = take i (tlog g t) \<or> lacking g t i (t' - 1) \<or>
           (\<exists>c' Q. elected g t' = Some (c', Q) \<and> v \<notin> Q)))"

text \<open>The first \<open>k\<close> entries of \<open>v\<close>'s log are part of a committed prefix.\<close>

definition settled :: "(nat set \<Rightarrow> bool) \<Rightarrow> proto \<Rightarrow> nat \<Rightarrow> nat \<Rightarrow> bool" where
  "settled quorum g v k \<longleftrightarrow>
     k \<le> length (pl g v) \<and>
     (k = 0 \<or> (\<exists>t i. t \<le> pt g v \<and> committed quorum g t i \<and> k \<le> i \<and>
        take k (pl g v) = take k (tlog g t)))"

definition inv_commit :: "(nat set \<Rightarrow> bool) \<Rightarrow> proto \<Rightarrow> bool" where
  "inv_commit quorum g \<longleftrightarrow> (\<forall>v. settled quorum g v (pc g v))"

definition proto_inv :: "(nat set \<Rightarrow> bool) \<Rightarrow> proto \<Rightarrow> bool" where
  "proto_inv quorum g \<longleftrightarrow>
     inv_clog g \<and> inv_ballot g \<and> inv_elect quorum g \<and> inv_logs g \<and> inv_acks g \<and>
     inv_commit quorum g"

lemma proto_init_inv: "proto_inv quorum proto_init"
  by (auto simp: proto_inv_def proto_init_def inv_clog_def inv_ballot_def inv_elect_def inv_logs_def
      inv_acks_def inv_commit_def settled_def log_ok_def)

lemma proto_invD:
  assumes "proto_inv quorum g"
  shows "inv_clog g" "inv_ballot g" "inv_elect quorum g" "inv_logs g" "inv_acks g"
    "inv_commit quorum g"
  using assms by (simp_all add: proto_inv_def)

subsection \<open>Facts about logs\<close>

lemma log_okD:
  assumes "log_ok g X"
  shows "i \<le> j \<Longrightarrow> j \<le> length X \<Longrightarrow> term_of X i \<le> term_of X j"
    and "0 < i \<Longrightarrow> i \<le> length X \<Longrightarrow> elected g (term_of X i) \<noteq> None"
    and "0 < i \<Longrightarrow> i \<le> length X \<Longrightarrow> take i X = take i (tlog g (term_of X i))"
  using assms by (auto simp: log_ok_def)

lemma log_ok_take: "log_ok g X \<Longrightarrow> log_ok g (take m X)"
  by (simp add: log_ok_def term_of_take min_le_iff_disj)

lemma log_matching:
  assumes "log_ok g X" "log_ok g Y" "i \<le> length X" "i \<le> length Y" "term_of X i = term_of Y i"
  shows "take i X = take i Y"
  using assms log_okD(3) [of g X i] log_okD(3) [of g Y i] by (cases "i = 0") simp_all

lemma log_ok_length: "log_ok g X \<Longrightarrow> 0 < i \<Longrightarrow> i \<le> length X \<Longrightarrow> i \<le> length (tlog g (term_of X i))"
  using take_eq_length log_okD(3) by blast

lemma up_to_date_refl: "up_to_date L L"
  by (simp add: up_to_date_def)

lemma take_synced: "m \<le> length T \<Longrightarrow> take m (synced L m T) = take m T"
  by (simp add: synced_def)

text \<open>A log that agreed with \<open>T\<close> up to \<open>k\<close> still does after the sync.\<close>

lemma synced_keeps:
  assumes "take k L = take k T"
  shows "take k (synced L m T) = take k L"
proof (cases "take m L = take m T")
  case False
  then have "\<not> m \<le> k" using assms take_eq_trans by blast
  with False assms show ?thesis by (simp add: synced_def)
qed (simp add: synced_def)

lemma lacking_mono: "lacking g t i T \<Longrightarrow> T \<le> T' \<Longrightarrow> lacking g t i T'"
  by (meson lacking_def le_trans)

lemma not_lackingD:
  assumes "\<not> lacking g t i T" "t \<le> u" "u \<le> T" "elected g u \<noteq> None"
  shows "take i (tlog g u) = take i (tlog g t)"
  using assms by (cases "t = u") (auto simp: lacking_def)

lemma tlog_ok: "inv_elect quorum g \<Longrightarrow> elected g t \<noteq> None \<Longrightarrow> log_ok g (tlog g t)"
  by (auto simp: inv_elect_def)

lemma tlog_terms:
  assumes "inv_clog g" "inv_elect quorum g" "elected g t \<noteq> None" "i \<le> length (tlog g t)"
  shows "term_of (tlog g t) i \<le> t"
proof -
  from assms(3) obtain c Q where "elected g t = Some (c, Q)" by auto
  with assms(2) obtain L where L: "clog g t c = Some L" "take (length L) (tlog g t) = L"
    "\<forall>i. length L < i \<and> i \<le> length (tlog g t) \<longrightarrow> term_of (tlog g t) i = t"
    unfolding inv_elect_def by blast
  show ?thesis
  proof (cases "i \<le> length L")
    case True
    then have "term_of (tlog g t) i = term_of L i" using L(2) by (metis term_of_take)
    with assms(1) L(1) True show ?thesis by (metis inv_clog_def less_imp_le)
  next
    case False
    with L(3) assms(4) show ?thesis by simp
  qed
qed

lemma settled_le: "settled quorum g v k \<Longrightarrow> j \<le> k \<Longrightarrow> settled quorum g v j"
  unfolding settled_def by (metis le_trans le_zero_eq take_eq_trans)

section \<open>Leader completeness\<close>

locale protocol = quorum_system quorum for quorum :: "nat set \<Rightarrow> bool"
begin

text \<open>
  The heart of the argument, for one later term \<open>t'\<close>: if every leader strictly between
  holds the committed prefix, then so does the log with which the leader of \<open>t'\<close> was
  elected, because some voter of \<open>t'\<close> held that prefix when it voted.
\<close>

lemma voter_holds:
  assumes inv: "proto_inv quorum g" and com: "committed quorum g t i"
    and el: "elected g t' = Some (c, R)" and t: "t < t'"
    and between: "\<not> lacking g t i (t' - 1)"
  obtains v L V where "ballot g v t' = Some (c, V)" "clog g t' c = Some L" "up_to_date L V"
    "log_ok g V" "take i V = take i (tlog g t)"
proof -
  note I = proto_invD [OF inv]
  from com obtain Q where Q: "quorum Q" "\<forall>v \<in> Q. \<exists>m \<ge> i. (v, t, m) \<in> acks g"
    by (auto simp: committed_def)
  from I(3) el have R: "quorum R" "\<forall>v \<in> R. \<exists>V. ballot g v t' = Some (c, V)"
    unfolding inv_elect_def by blast+
  obtain v where v: "v \<in> Q" "v \<in> R" by (rule quorum_witness [OF Q(1) R(1)])
  from Q(2) v obtain m where m: "(v, t, m) \<in> acks g" "i \<le> m" by blast
  from R(2) v obtain V where V: "ballot g v t' = Some (c, V)" by blast
  from I(2) V obtain L where L: "clog g t' c = Some L" "up_to_date L V" "log_ok g V"
    unfolding inv_ballot_def by blast
  from I(5) m V t have "take i V = take i (tlog g t) \<or> lacking g t i (t' - 1) \<or>
      (\<exists>c' Q. elected g t' = Some (c', Q) \<and> v \<notin> Q)"
    unfolding inv_acks_def by blast
  with between el v(2) have "take i V = take i (tlog g t)" by auto
  with that V L show thesis by blast
qed

lemma candidate_complete:
  assumes inv: "proto_inv quorum g" and com: "committed quorum g t i"
    and el: "elected g t' = Some (c, R)" and t: "t < t'"
    and between: "\<not> lacking g t i (t' - 1)"
  shows "\<exists>L. clog g t' c = Some L \<and> i \<le> length L \<and> take i L = take i (tlog g t)"
proof -
  note I = proto_invD [OF inv]
  from com have i: "elected g t \<noteq> None" "0 < i" "i \<le> length (tlog g t)" "term_of (tlog g t) i = t"
    by (auto simp: committed_def)
  obtain v L V where V: "ballot g v t' = Some (c, V)" "clog g t' c = Some L" "up_to_date L V"
    "log_ok g V" "take i V = take i (tlog g t)"
    by (rule voter_holds [OF assms])
  from I(1) V(2) have okL: "log_ok g L" and Lt: "\<And>i. i \<le> length L \<Longrightarrow> term_of L i < t'"
    unfolding inv_clog_def by blast+
  have iV: "i \<le> length V" using take_eq_length V(5) i(3) by metis
  have tV: "t \<le> term_of V (length V)"
    using log_okD(1) [OF V(4) iV] term_of_take_eq [OF V(5), of i] i(4) by simp
  have "i \<le> length L \<and> take i L = take i V"
  proof (cases "term_of V (length V) = term_of L (length L)")
    case True
    then have VL: "length V \<le> length L" using V(3) by (simp add: up_to_date_def)
    let ?u = "term_of V (length V)"
    have "0 < length V" "0 < length L" using i(2) iV VL by linarith+
    then have "V = take (length V) (tlog g ?u)" "L = take (length L) (tlog g ?u)"
      using log_okD(3) [OF V(4), of "length V"] log_okD(3) [OF okL, of "length L"] VL True by auto
    then have "take i L = take i V" using iV VL by (metis min.absorb1 order_trans take_take)
    with iV VL show ?thesis by simp
  next
    case False
    let ?u = "term_of L (length L)"
    have u: "t < ?u" using V(3) False tV by (simp add: up_to_date_def)
    then have pos: "0 < length L" by (metis gr0I not_less0 term_of_0)
    have "?u \<le> t' - 1" using Lt [of "length L"] by simp
    moreover have el_u: "elected g ?u \<noteq> None" using log_okD(2) [OF okL pos] by simp
    ultimately have T: "take i (tlog g ?u) = take i (tlog g t)"
      using not_lackingD [OF between] u by simp
    have L: "L = take (length L) (tlog g ?u)" using log_okD(3) [OF okL pos] by simp
    have len: "length L \<le> length (tlog g ?u)" using log_ok_length [OF okL pos] by simp
    have "i \<le> length L"
    proof (rule ccontr)
      assume "\<not> i \<le> length L"
      moreover have "term_of (tlog g ?u) (length L) = ?u" using L by (metis le_refl term_of_take)
      moreover have "log_ok g (tlog g ?u)" by (rule tlog_ok [OF I(3) el_u])
      moreover have "i \<le> length (tlog g ?u)" using T take_eq_length i(3) by metis
      ultimately have "?u \<le> term_of (tlog g ?u) i" using log_okD(1) [of g "tlog g ?u" "length L" i] by simp
      then show False using term_of_take_eq [OF T, of i] i(4) u by simp
    qed
    moreover from this have "take i L = take i (tlog g ?u)"
      using L by (metis min.absorb1 take_take)
    ultimately show ?thesis using T V(5) by simp
  qed
  with V(2,5) show ?thesis by auto
qed

lemma leader_completeness:
  assumes inv: "proto_inv quorum g" and com: "committed quorum g t i"
  shows "t \<le> t' \<Longrightarrow> elected g t' \<noteq> None \<Longrightarrow> take i (tlog g t') = take i (tlog g t)"
proof (induction t' rule: less_induct)
  case (less t')
  show ?case
  proof (cases "t = t'")
    case False
    with less.prems have t: "t < t'" by simp
    have "\<not> lacking g t i (t' - 1)"
    proof
      assume "lacking g t i (t' - 1)"
      then obtain u where u: "t < u" "u \<le> t' - 1" "elected g u \<noteq> None"
        "take i (tlog g u) \<noteq> take i (tlog g t)"
        by (auto simp: lacking_def)
      then have "u < t'" using t by simp
      from less.IH [OF this] u show False by simp
    qed
    moreover from less.prems obtain c R where el: "elected g t' = Some (c, R)" by auto
    ultimately obtain L where L: "clog g t' c = Some L" "i \<le> length L" "take i L = take i (tlog g t)"
      using candidate_complete [OF inv com el t] by blast
    from proto_invD(3) [OF inv] el L(1) have "take (length L) (tlog g t') = L"
      unfolding inv_elect_def by (metis option.inject)
    with L(2,3) show ?thesis by (metis min.absorb1 take_take)
  qed simp
qed

text \<open>Two committed prefixes never disagree.\<close>

lemma committed_agree:
  assumes inv: "proto_inv quorum g" and "committed quorum g t i" "committed quorum g u j"
    and "k \<le> i" "k \<le> j"
  shows "take k (tlog g t) = take k (tlog g u)"
proof -
  have el: "elected g t \<noteq> None" "elected g u \<noteq> None" using assms by (auto simp: committed_def)
  consider "t \<le> u" | "u \<le> t" by linarith
  then show ?thesis
  proof cases
    case 1
    from leader_completeness [OF inv assms(2) 1 el(2)] assms(4) show ?thesis
      by (metis take_eq_trans)
  next
    case 2
    from leader_completeness [OF inv assms(3) 2 el(1)] assms(5) show ?thesis
      by (metis take_eq_trans)
  qed
qed

lemma settled_agree:
  assumes inv: "proto_inv quorum g" and "settled quorum g v k" "settled quorum g w k"
  shows "take k (pl g v) = take k (pl g w)"
proof (cases "k = 0")
  case False
  with assms(2,3) obtain t i u j where
    "committed quorum g t i" "k \<le> i" "take k (pl g v) = take k (tlog g t)"
    "committed quorum g u j" "k \<le> j" "take k (pl g w) = take k (tlog g u)"
    unfolding settled_def by blast
  with committed_agree [OF inv, of t i u j k] show ?thesis by simp
qed simp

text \<open>A leader of a term at least the node's holds what the node has settled.\<close>

lemma settled_prefix:
  assumes inv: "proto_inv quorum g" and "settled quorum g v k" "elected g T \<noteq> None" "pt g v \<le> T"
  shows "take k (pl g v) = take k (tlog g T)"
proof (cases "k = 0")
  case False
  with assms(2) obtain t i where t: "t \<le> pt g v" "committed quorum g t i" "k \<le> i"
    "take k (pl g v) = take k (tlog g t)" unfolding settled_def by blast
  from leader_completeness [OF inv t(2) _ assms(3)] t(1,3) assms(4)
  have "take k (tlog g T) = take k (tlog g t)" by (meson le_trans take_eq_trans)
  with t(4) show ?thesis by simp
qed simp

section \<open>Every step keeps the invariant\<close>

text \<open>
  How the ingredients of the invariant move along a step that only ever adds history:
  \<open>grows g h\<close> says terms do not go back, votes, campaigns and elections stay, and the log
  of an elected leader is only extended, by entries of its own term.
\<close>

definition grows :: "proto \<Rightarrow> proto \<Rightarrow> bool" where
  "grows g h \<longleftrightarrow>
     (\<forall>v. pt g v \<le> pt h v) \<and> (\<forall>v t. ballot g v t \<noteq> None \<longrightarrow> ballot h v t = ballot g v t) \<and>
     (\<forall>t c. clog g t c \<noteq> None \<longrightarrow> clog h t c = clog g t c) \<and>
     (\<forall>t. elected g t \<noteq> None \<longrightarrow> elected h t = elected g t \<and>
        take (length (tlog g t)) (tlog h t) = tlog g t \<and>
        (\<forall>i. length (tlog g t) < i \<and> i \<le> length (tlog h t) \<longrightarrow> term_of (tlog h t) i = t)) \<and>
     acks g \<subseteq> acks h"

lemma growsD:
  assumes "grows g h"
  shows "pt g v \<le> pt h v" "ballot g v t = Some b \<Longrightarrow> ballot h v t = Some b"
    and "clog g t c = Some L \<Longrightarrow> clog h t c = Some L"
    and "elected g t = Some e \<Longrightarrow> elected h t = Some e"
    and "elected g t \<noteq> None \<Longrightarrow> i \<le> length (tlog g t) \<Longrightarrow> take i (tlog h t) = take i (tlog g t)"
    and "elected g t \<noteq> None \<Longrightarrow> length (tlog g t) \<le> length (tlog h t)"
    and "elected g t \<noteq> None \<Longrightarrow> length (tlog g t) < i \<Longrightarrow> i \<le> length (tlog h t) \<Longrightarrow>
      term_of (tlog h t) i = t"
    and "a \<in> acks g \<Longrightarrow> a \<in> acks h"
proof -
  show "elected g t \<noteq> None \<Longrightarrow> i \<le> length (tlog g t) \<Longrightarrow> take i (tlog h t) = take i (tlog g t)"
    using assms unfolding grows_def by (metis min.absorb1 take_take)
  show "elected g t \<noteq> None \<Longrightarrow> length (tlog g t) \<le> length (tlog h t)"
    using assms unfolding grows_def by (metis length_take min.cobounded1)
qed (use assms in \<open>unfold grows_def, fastforce+\<close>)

lemma grows_log_ok:
  assumes "grows g h" "log_ok g X"
  shows "log_ok h X"
  unfolding log_ok_def
proof (intro conjI allI impI)
  fix i j assume "i \<le> j \<and> j \<le> length X"
  then show "term_of X i \<le> term_of X j" using log_okD(1) [OF assms(2)] by simp
next
  fix i assume i: "0 < i \<and> i \<le> length X"
  then have el: "elected g (term_of X i) \<noteq> None" using log_okD(2) [OF assms(2)] by blast
  then show "elected h (term_of X i) \<noteq> None" using growsD(4) [OF assms(1)] by auto
  show "take i X = take i (tlog h (term_of X i))"
    using growsD(5) [OF assms(1) el] log_okD(3) [OF assms(2)] log_ok_length [OF assms(2)] i by auto
qed

lemma grows_lacking:
  assumes "grows g h" "inv_clog g" "inv_elect quorum g"
    and "elected g t \<noteq> None" "i \<le> length (tlog g t)" "lacking g t i T"
  shows "lacking h t i T"
proof -
  from assms(6) obtain u where u: "t < u" "u \<le> T" "elected g u \<noteq> None"
    "take i (tlog g u) \<noteq> take i (tlog g t)" by (auto simp: lacking_def)
  have "take i (tlog h u) \<noteq> take i (tlog g t)"
  proof (cases "i \<le> length (tlog g u)")
    case True
    with u growsD(5) [OF assms(1) u(3)] show ?thesis by simp
  next
    case False
    show ?thesis
    proof
      assume eq: "take i (tlog h u) = take i (tlog g t)"
      let ?j = "Suc (length (tlog g u))"
      have "?j \<le> length (tlog h u)" using False eq assms(5) by (metis Suc_leI le_trans linorder_not_le take_eq_length)
      then have "term_of (tlog h u) ?j = u" using growsD(7) [OF assms(1) u(3), of ?j] by simp
      moreover have "term_of (tlog h u) ?j = term_of (tlog g t) ?j"
        using term_of_take_eq [OF eq, of ?j] False by simp
      moreover have "term_of (tlog g t) ?j \<le> t"
        using tlog_terms [OF assms(2,3,4), of ?j] False assms(5) by simp
      ultimately show False using u(1) by simp
    qed
  qed
  moreover have "take i (tlog h t) = take i (tlog g t)" using growsD(5) [OF assms(1,4,5)] .
  moreover have "elected h u \<noteq> None" using growsD(4) [OF assms(1)] u(3) by auto
  ultimately show ?thesis using u(1,2) by (auto simp: lacking_def)
qed

lemma grows_committed:
  assumes "grows g h" "committed quorum g t i"
  shows "committed quorum h t i"
proof -
  from assms(2) have el: "elected g t \<noteq> None" "i \<le> length (tlog g t)" by (auto simp: committed_def)
  then have "term_of (tlog h t) i = term_of (tlog g t) i"
    using growsD(5) [OF assms(1)] term_of_take_eq by blast
  with assms(2) el growsD(4,6,8) [OF assms(1)] show ?thesis
    unfolding committed_def by (metis le_trans not_Some_eq)
qed

lemma step_grows:
  assumes inv: "proto_inv quorum g" and step: "proto_step quorum a g h"
  shows "grows g h"
proof -
  have clog: "clog g t c = None" if "pt g c < t" for t c
    using proto_invD(1) [OF inv] that unfolding inv_clog_def
    by (metis linorder_not_le not_Some_eq)
  have ballot: "ballot g v t = None" if "pt g v < t" for t v
    using proto_invD(2) [OF inv] that unfolding inv_ballot_def
    by (metis linorder_not_le not_Some_eq surj_pair)
  from step show ?thesis
    by cases (auto simp: grows_def clog ballot term_of_def nth_append)
qed

lemma step_clog:
  assumes "proto_step quorum a g h" "clog h t c = Some L"
  shows "clog g t c = Some L \<or> t = Suc (pt g c) \<and> pt h c = t \<and> L = pl g c"
  using assms by cases (auto split: if_splits)

lemma step_ballot:
  assumes "proto_step quorum a g h" "ballot h v t = Some (c, V)"
  shows "ballot g v t = Some (c, V) \<or>
    V = pl g v \<and> t = pt h v \<and>
    (t = Suc (pt g v) \<and> clog h t c = Some V \<or>
     t = pt g v \<and> ballot g v t = None \<and> (\<exists>L. clog h t c = Some L \<and> up_to_date L V))"
  using assms by cases (auto split: if_splits)

lemma step_elected:
  assumes "proto_step quorum a g h" "elected h t = Some (c, Q)"
  shows "elected g t = Some (c, Q) \<or>
    elected g t = None \<and> t = pt g c \<and> tlog h t = pl g c \<and> clog h t c = Some (pl g c) \<and>
    quorum Q \<and> (\<forall>v \<in> Q. \<exists>V. ballot h v t = Some (c, V))"
  using assms by cases (auto split: if_splits)

lemma step_acks:
  assumes "proto_step quorum a g h" "(v, t, m) \<in> acks h"
  shows "(v, t, m) \<in> acks g \<or>
    t = pt g v \<and> pt h v = t \<and> elected g t \<noteq> None \<and> m \<le> length (tlog h t) \<and>
    ballot h v = ballot g v \<and> take m (pl h v) = take m (tlog h t)"
  using assms by cases (auto simp: take_synced split: if_splits)

lemma step_pl:
  assumes "proto_step quorum a g h"
  shows "pl h v = pl g v \<or>
    (\<exists>Q e. elected g (pt g v) = Some (v, Q) \<and> pl g v = tlog g (pt g v) \<and> le_term e = pt g v \<and>
       pl h v = pl g v @ [e] \<and> tlog h (pt g v) = pl h v \<and> pt h v = pt g v) \<or>
    (\<exists>m. elected g (pt g v) \<noteq> None \<and> m \<le> length (tlog g (pt g v)) \<and>
       pl h v = synced (pl g v) m (tlog g (pt g v)) \<and> pt h v = pt g v \<and> ballot h v = ballot g v)"
  using assms by cases auto

lemma step_clog_inv:
  assumes inv: "proto_inv quorum g" and step: "proto_step quorum a g h"
  shows "inv_clog h"
  unfolding inv_clog_def
proof (intro allI impI)
  fix t c L assume "clog h t c = Some L"
  from step_clog [OF step this]
  show "0 < t \<and> t \<le> pt h c \<and> log_ok h L \<and> (\<forall>i \<le> length L. term_of L i < t)"
  proof
    assume "clog g t c = Some L"
    with proto_invD(1) [OF inv] show ?thesis
      using grows_log_ok [OF step_grows [OF inv step]] growsD(1) [OF step_grows [OF inv step]]
      unfolding inv_clog_def by (meson le_trans)
  next
    assume new: "t = Suc (pt g c) \<and> pt h c = t \<and> L = pl g c"
    moreover have "log_ok g (pl g c)" "\<forall>i \<le> length (pl g c). term_of (pl g c) i \<le> pt g c"
      using proto_invD(4) [OF inv] by (simp_all add: inv_logs_def)
    ultimately show ?thesis
      using grows_log_ok [OF step_grows [OF inv step]] by (auto simp: less_Suc_eq_le)
  qed
qed

lemma step_ballot_inv:
  assumes inv: "proto_inv quorum g" and step: "proto_step quorum a g h"
  shows "inv_ballot h"
  unfolding inv_ballot_def
proof (intro allI impI)
  note gr = step_grows [OF inv step]
  fix v t c V assume "ballot h v t = Some (c, V)"
  from step_ballot [OF step this]
  show "t \<le> pt h v \<and> log_ok h V \<and> (\<exists>L. clog h t c = Some L \<and> up_to_date L V)"
  proof
    assume "ballot g v t = Some (c, V)"
    with proto_invD(2) [OF inv] show ?thesis
      using grows_log_ok [OF gr] growsD(1) [OF gr] growsD(3) [OF gr]
      unfolding inv_ballot_def by (meson le_trans)
  next
    have "log_ok h (pl g v)"
      using proto_invD(4) [OF inv] grows_log_ok [OF gr] by (simp add: inv_logs_def)
    then show ?thesis
      if "V = pl g v \<and> t = pt h v \<and> (t = Suc (pt g v) \<and> clog h t c = Some V \<or>
        t = pt g v \<and> ballot g v t = None \<and> (\<exists>L. clog h t c = Some L \<and> up_to_date L V))"
      using that up_to_date_refl by auto
  qed
qed

lemma grows_tlog_ok:
  assumes inv: "proto_inv quorum g" and gr: "grows g h" and el: "elected g t \<noteq> None"
  shows "log_ok h (tlog h t)"
proof -
  let ?n = "length (tlog g t)"
  have old: "log_ok h (tlog g t)" by (rule grows_log_ok [OF gr tlog_ok [OF proto_invD(3) [OF inv] el]])
  have same: "term_of (tlog h t) i = term_of (tlog g t) i" if "i \<le> ?n" for i
    using term_of_take_eq [OF growsD(5) [OF gr el that]] by simp
  have new: "term_of (tlog h t) i = t" if "?n < i" "i \<le> length (tlog h t)" for i
    using growsD(7) [OF gr el that] .
  have le: "term_of (tlog h t) i \<le> t" if "i \<le> length (tlog h t)" for i
    using tlog_terms [OF proto_invD(1,3) [OF inv] el, of i] same [of i] new [OF _ that]
    by (cases "i \<le> ?n") auto
  show ?thesis
    unfolding log_ok_def
  proof (intro conjI allI impI)
    fix i j assume ij: "i \<le> j \<and> j \<le> length (tlog h t)"
    show "term_of (tlog h t) i \<le> term_of (tlog h t) j"
    proof (cases "j \<le> ?n")
      case True
      with ij same [of i] same [of j] log_okD(1) [OF old, of i j] show ?thesis by simp
    next
      case False
      with ij new [of j] le [of i] show ?thesis by simp
    qed
  next
    fix i assume i: "0 < i \<and> i \<le> length (tlog h t)"
    have elh: "elected h t \<noteq> None" using growsD(4) [OF gr] el by auto
    show "elected h (term_of (tlog h t) i) \<noteq> None"
    proof (cases "i \<le> ?n")
      case True
      with i same [of i] log_okD(2) [OF old, of i] show ?thesis by simp
    next
      case False
      with i new [of i] elh show ?thesis by simp
    qed
    show "take i (tlog h t) = take i (tlog h (term_of (tlog h t) i))"
    proof (cases "i \<le> ?n")
      case True
      with i same [of i] log_okD(3) [OF old, of i] growsD(5) [OF gr el True] show ?thesis by simp
    next
      case False
      with i new [of i] show ?thesis by simp
    qed
  qed
qed

lemma node_log_ok: "proto_inv quorum g \<Longrightarrow> log_ok g (pl g v)"
  and node_log_terms: "proto_inv quorum g \<Longrightarrow> i \<le> length (pl g v) \<Longrightarrow> term_of (pl g v) i \<le> pt g v"
  by (simp_all add: proto_inv_def inv_logs_def)

lemma step_elect_inv:
  assumes inv: "proto_inv quorum g" and step: "proto_step quorum a g h"
  shows "inv_elect quorum h"
  unfolding inv_elect_def
proof (intro allI impI)
  note gr = step_grows [OF inv step]
  fix t c Q assume "elected h t = Some (c, Q)"
  from step_elected [OF step this]
  show "quorum Q \<and> (\<forall>v \<in> Q. \<exists>V. ballot h v t = Some (c, V)) \<and> log_ok h (tlog h t) \<and>
    (\<exists>L. clog h t c = Some L \<and> take (length L) (tlog h t) = L \<and>
       (\<forall>i. length L < i \<and> i \<le> length (tlog h t) \<longrightarrow> term_of (tlog h t) i = t))"
  proof
    assume el: "elected g t = Some (c, Q)"
    with proto_invD(3) [OF inv] obtain L where Q: "quorum Q" "\<forall>v \<in> Q. \<exists>V. ballot g v t = Some (c, V)"
      and L: "clog g t c = Some L" "take (length L) (tlog g t) = L"
        "\<forall>i. length L < i \<and> i \<le> length (tlog g t) \<longrightarrow> term_of (tlog g t) i = t"
      unfolding inv_elect_def by blast
    have len: "length L \<le> length (tlog g t)" using L(2) by (metis length_take min.cobounded1)
    have "take (length L) (tlog h t) = L"
      using growsD(5) [OF gr _ len] el L(2) by simp
    moreover have "term_of (tlog h t) i = t" if "length L < i" "i \<le> length (tlog h t)" for i
    proof (cases "i \<le> length (tlog g t)")
      case True
      with that L(3) term_of_take_eq [OF growsD(5) [OF gr _ True]] el show ?thesis by simp
    next
      case False
      with that growsD(7) [OF gr] el show ?thesis by simp
    qed
    ultimately show ?thesis
      using Q L(1) growsD(2,3) [OF gr] grows_tlog_ok [OF inv gr, of t] el by blast
  next
    assume "elected g t = None \<and> t = pt g c \<and> tlog h t = pl g c \<and> clog h t c = Some (pl g c) \<and>
      quorum Q \<and> (\<forall>v \<in> Q. \<exists>V. ballot h v t = Some (c, V))"
    then show ?thesis using grows_log_ok [OF gr node_log_ok [OF inv]] by auto
  qed
qed

lemma step_logs_inv:
  assumes inv: "proto_inv quorum g" and step: "proto_step quorum a g h"
  shows "inv_logs h"
  unfolding inv_logs_def
proof (intro allI)
  note gr = step_grows [OF inv step]
  fix v
  let ?T = "pt g v"
  have mono: "?T \<le> pt h v" by (rule growsD(1) [OF gr])
  from step_pl [OF step, of v] consider
      (same) "pl h v = pl g v"
    | (extend) Q e where "elected g ?T = Some (v, Q)" "le_term e = ?T" "pl h v = pl g v @ [e]"
        "tlog h ?T = pl h v"
    | (sync) m where "elected g ?T \<noteq> None" "m \<le> length (tlog g ?T)"
        "pl h v = synced (pl g v) m (tlog g ?T)"
    by blast
  then show "log_ok h (pl h v) \<and> (\<forall>i \<le> length (pl h v). term_of (pl h v) i \<le> pt h v)"
  proof cases
    case same
    with mono grows_log_ok [OF gr node_log_ok [OF inv]] node_log_terms [OF inv] show ?thesis
      by (metis le_trans)
  next
    case extend
    have "term_of (pl g v @ [e]) i \<le> ?T" if "i \<le> Suc (length (pl g v))" for i
      using that node_log_terms [OF inv, of i v] extend(2)
      by (cases "i \<le> length (pl g v)") (auto simp: term_of_append1 le_Suc_eq)
    with mono extend grows_tlog_ok [OF inv gr, of ?T] show ?thesis by fastforce
  next
    case sync
    have "log_ok g (pl h v) \<and> (\<forall>i \<le> length (pl h v). term_of (pl h v) i \<le> ?T)"
      using sync(1,3) node_log_ok [OF inv] node_log_terms [OF inv]
        log_ok_take [OF tlog_ok [OF proto_invD(3) [OF inv] sync(1)]]
        tlog_terms [OF proto_invD(1,3) [OF inv] sync(1)]
      by (auto simp: synced_def term_of_take)
    with mono grows_log_ok [OF gr] show ?thesis by (meson le_trans)
  qed
qed

lemma step_retains:
  assumes inv: "proto_inv quorum g" and step: "proto_step quorum a g h"
    and el: "elected g t \<noteq> None" "t \<le> pt g v" and i: "i \<le> length (tlog g t)"
    and keep: "take i (pl g v) = take i (tlog g t)" "\<not> lacking g t i (pt g v)"
  shows "take i (pl h v) = take i (pl g v)"
proof -
  have len: "i \<le> length (pl g v)" using keep(1) i by (metis take_eq_length)
  from step_pl [OF step, of v] consider
      (same) "pl h v = pl g v"
    | (extend) e where "pl h v = pl g v @ [e]"
    | (sync) m where "elected g (pt g v) \<noteq> None" "pl h v = synced (pl g v) m (tlog g (pt g v))"
    by blast
  then show ?thesis
  proof cases
    case sync
    have "take i (pl g v) = take i (tlog g (pt g v))"
      using not_lackingD [OF keep(2) el(2) order_refl sync(1)] keep(1) by simp
    with sync(2) synced_keeps show ?thesis by metis
  qed (use len in simp_all)
qed

text \<open>A vote cast in this step still satisfies what acknowledgements promise of voters.\<close>

lemma step_vote_retains:
  assumes inv: "proto_inv quorum g" and step: "proto_step quorum a g h"
    and new: "ballot h v t' = Some (c, V)" "ballot g v t' \<noteq> Some (c, V)" and t: "t < t'"
    and kept: "take i (pl g v) = take i (tlog g t) \<or> lacking g t i (pt g v)"
  shows "take i V = take i (tlog g t) \<or> lacking g t i (t' - 1) \<or>
    (\<exists>c' Q. elected g t' = Some (c', Q) \<and> v \<notin> Q)"
proof (rule ccontr)
  assume neg: "\<not> ?thesis"
  from step_ballot [OF step new(1)] new(2) have V: "V = pl g v"
    and cases: "t' = Suc (pt g v) \<or> t' = pt g v \<and> ballot g v t' = None" by auto
  from neg kept V have "lacking g t i (pt g v)" by auto
  with neg cases have t': "t' = pt g v" "ballot g v t' = None" by auto
  from \<open>lacking g t i (pt g v)\<close> obtain u where u: "t < u" "u \<le> t'" "elected g u \<noteq> None"
    "take i (tlog g u) \<noteq> take i (tlog g t)" by (auto simp: lacking_def t')
  show False
  proof (cases "u = t'")
    case True
    with u(3) obtain c' Q where "elected g t' = Some (c', Q)" by auto
    with neg proto_invD(3) [OF inv] t'(2) show False unfolding inv_elect_def by fastforce
  next
    case False
    with u have "lacking g t i (t' - 1)" by (auto simp: lacking_def)
    with neg show False by blast
  qed
qed

lemma step_acks_inv:
  assumes inv: "proto_inv quorum g" and step: "proto_step quorum a g h"
  shows "inv_acks h"
  unfolding inv_acks_def
proof (intro allI impI)
  note gr = step_grows [OF inv step] and I = proto_invD [OF inv]
  fix v t m i assume a: "(v, t, m) \<in> acks h \<and> i \<le> m"
  from step_acks [OF step conjunct1 [OF a]]
  show "t \<le> pt h v \<and> elected h t \<noteq> None \<and> i \<le> length (tlog h t) \<and>
    (take i (pl h v) = take i (tlog h t) \<or> lacking h t i (pt h v)) \<and>
    (\<forall>t' c V. t < t' \<and> ballot h v t' = Some (c, V) \<longrightarrow>
       take i V = take i (tlog h t) \<or> lacking h t i (t' - 1) \<or>
       (\<exists>c' Q. elected h t' = Some (c', Q) \<and> v \<notin> Q))" (is "?base \<and> ?el \<and> ?len \<and> ?kept \<and> ?voted")
  proof
    assume new: "t = pt g v \<and> pt h v = t \<and> elected g t \<noteq> None \<and> m \<le> length (tlog h t) \<and>
      ballot h v = ballot g v \<and> take m (pl h v) = take m (tlog h t)"
    have ?el using new growsD(4) [OF gr] by auto
    moreover have "take i (pl h v) = take i (tlog h t)" using new a take_eq_trans by blast
    moreover have ?voted using new I(2) unfolding inv_ballot_def by (metis linorder_not_le)
    ultimately show ?thesis using new a by auto
  next
    assume "(v, t, m) \<in> acks g"
    with I(5) a have old: "t \<le> pt g v" "elected g t \<noteq> None" "i \<le> length (tlog g t)"
      and kept: "take i (pl g v) = take i (tlog g t) \<or> lacking g t i (pt g v)"
      and voted: "\<And>t' c V. t < t' \<Longrightarrow> ballot g v t' = Some (c, V) \<Longrightarrow>
        take i V = take i (tlog g t) \<or> lacking g t i (t' - 1) \<or>
        (\<exists>c' Q. elected g t' = Some (c', Q) \<and> v \<notin> Q)"
      unfolding inv_acks_def by blast+
    have lack: "lacking g t i T \<Longrightarrow> T \<le> T' \<Longrightarrow> lacking h t i T'" for T T'
      using grows_lacking [OF gr I(1,3) old(2,3)] lacking_mono by blast
    have tl: "take i (tlog h t) = take i (tlog g t)" by (rule growsD(5) [OF gr old(2,3)])
    have ?base using old(1) growsD(1) [OF gr] by (meson le_trans)
    moreover have ?el using old(2) growsD(4) [OF gr] by auto
    moreover have ?len using old(3) growsD(6) [OF gr old(2)] by simp
    moreover have ?kept
      using kept step_retains [OF inv step old(2,1,3)] tl lack growsD(1) [OF gr] by metis
    moreover have ?voted
      using voted step_vote_retains [OF inv step _ _ _ kept] tl lack growsD(4) [OF gr]
      by (metis order_refl)
    ultimately show ?thesis by blast
  qed
qed

text \<open>What is settled is never lost, and stays settled.\<close>

lemma step_settled:
  assumes inv: "proto_inv quorum g" and step: "proto_step quorum a g h" and ok: "settled quorum g v k"
  shows "take k (pl h v) = take k (pl g v) \<and> settled quorum h v k"
proof (cases "k = 0")
  case False
  note gr = step_grows [OF inv step]
  from False ok obtain t i where t: "t \<le> pt g v" "committed quorum g t i" "k \<le> i"
    "take k (pl g v) = take k (tlog g t)" "k \<le> length (pl g v)" unfolding settled_def by blast
  then have el: "elected g t \<noteq> None" "k \<le> length (tlog g t)" by (auto simp: committed_def)
  have "\<not> lacking g t k (pt g v)"
    unfolding lacking_def using leader_completeness [OF inv t(2)] t(3) take_eq_trans
    by (metis less_imp_le)
  with step_retains [OF inv step el(1) t(1) el(2) t(4)]
  have same: "take k (pl h v) = take k (pl g v)" .
  moreover have "take k (tlog h t) = take k (tlog g t)" by (rule growsD(5) [OF gr el])
  moreover have "k \<le> length (pl h v)" by (rule take_eq_length [OF same [symmetric] t(5)])
  moreover have "t \<le> pt h v" using t(1) growsD(1) [OF gr, of v] by simp
  ultimately show ?thesis
    unfolding settled_def using t(3,4) grows_committed [OF gr t(2)] by metis
qed (simp add: settled_def)

lemma step_commit_inv:
  assumes inv: "proto_inv quorum g" and step: "proto_step quorum a g h"
  shows "inv_commit quorum h"
proof -
  have old: "settled quorum g v (pc g v)" for v
    using proto_invD(6) [OF inv] by (simp add: inv_commit_def)
  have "settled quorum g v (pc h v)" for v
    using step
  proof cases
    case (commit k t i)
    then have "settled quorum g a k" unfolding settled_def by blast
    with commit(1) old [of v] show ?thesis by (cases "v = a") auto
  next
    case (forget k)
    then have "pc h v \<le> pc g v" by simp
    then show ?thesis by (rule settled_le [OF old])
  qed (use old [of v] in simp_all)
  then show ?thesis unfolding inv_commit_def using step_settled [OF inv step] by blast
qed

lemma step_inv: "proto_inv quorum g \<Longrightarrow> proto_step quorum a g h \<Longrightarrow> proto_inv quorum h"
  by (simp add: proto_inv_def [of quorum h] step_clog_inv step_ballot_inv step_elect_inv step_logs_inv
      step_acks_inv step_commit_inv)

lemma steps_inv: "(proto_step quorum a)\<^sup>*\<^sup>* g h \<Longrightarrow> proto_inv quorum g \<Longrightarrow> proto_inv quorum h"
  by (induction rule: rtranclp_induct) (auto intro: step_inv)

lemma steps_settled:
  "(proto_step quorum a)\<^sup>*\<^sup>* g h \<Longrightarrow> proto_inv quorum g \<Longrightarrow> settled quorum g v k \<Longrightarrow>
     take k (pl h v) = take k (pl g v) \<and> settled quorum h v k"
proof (induction rule: rtranclp_induct)
  case (step h k)
  with steps_inv [OF step.hyps(1) step.prems(1)] step_settled [OF _ step.hyps(2)] show ?case by auto
qed simp

lemma grows_refl: "grows g g"
  by (simp add: grows_def)

lemma grows_trans:
  assumes "grows a b" "grows b c"
  shows "grows a c"
proof -
  have "take (length (tlog a t)) (tlog c t) = tlog a t \<and>
      (\<forall>i. length (tlog a t) < i \<and> i \<le> length (tlog c t) \<longrightarrow> term_of (tlog c t) i = t)"
    if el: "elected a t \<noteq> None" for t
  proof -
    have el': "elected b t \<noteq> None" using growsD(4) [OF assms(1)] el by auto
    have "take (length (tlog a t)) (tlog c t) = tlog a t"
      using growsD(5,6) [OF assms(1) el] growsD(5) [OF assms(2) el'] by simp
    moreover have "term_of (tlog c t) i = t" if "length (tlog a t) < i" "i \<le> length (tlog c t)" for i
    proof (cases "i \<le> length (tlog b t)")
      case True
      with that growsD(7) [OF assms(1) el, of i] term_of_take_eq [OF growsD(5) [OF assms(2) el' True]]
      show ?thesis by simp
    qed (use that growsD(7) [OF assms(2) el'] in simp)
    ultimately show ?thesis by blast
  qed
  moreover have "pt a v \<le> pt c v" for v
    using growsD(1) [OF assms(1), of v] growsD(1) [OF assms(2), of v] by simp
  moreover have "ballot a v t \<noteq> None \<Longrightarrow> ballot c v t = ballot a v t" for v t
    using growsD(2) [OF assms(1), of v t] growsD(2) [OF assms(2), of v t] by fastforce
  moreover have "clog a t x \<noteq> None \<Longrightarrow> clog c t x = clog a t x" for t x
    using growsD(3) [OF assms(1), of t x] growsD(3) [OF assms(2), of t x] by fastforce
  moreover have "elected a t \<noteq> None \<Longrightarrow> elected c t = elected a t" for t
    using growsD(4) [OF assms(1), of t] growsD(4) [OF assms(2), of t] by fastforce
  moreover have "acks a \<subseteq> acks c"
    using growsD(8) [OF assms(1)] growsD(8) [OF assms(2)] by auto
  ultimately show ?thesis unfolding grows_def by blast
qed

lemma steps_grows: "(proto_step quorum a)\<^sup>*\<^sup>* g h \<Longrightarrow> proto_inv quorum g \<Longrightarrow> grows g h"
proof (induction rule: rtranclp_induct)
  case base
  show ?case by (rule grows_refl)
next
  case (step h k)
  with steps_inv [OF step.hyps(1) step.prems] step_grows grows_trans show ?case by blast
qed

text \<open>A node's steps change nothing that is another node's.\<close>

lemma step_local:
  assumes "proto_step quorum a g h" "v \<noteq> a"
  shows "pt h v = pt g v" "pl h v = pl g v" "pc h v = pc g v" "ballot h v = ballot g v"
    and "clog h t v = clog g t v" "elected h t = Some (v, Q) \<longleftrightarrow> elected g t = Some (v, Q)"
    and "elected g t = Some (v, Q) \<Longrightarrow> tlog h t = tlog g t"
  using assms by (cases; auto)+

lemma steps_local:
  assumes "(proto_step quorum a)\<^sup>*\<^sup>* g h" "v \<noteq> a"
  shows "pt h v = pt g v \<and> pl h v = pl g v \<and> pc h v = pc g v \<and> ballot h v = ballot g v \<and>
    (\<forall>t. clog h t v = clog g t v) \<and>
    (\<forall>t Q. elected h t = Some (v, Q) \<longleftrightarrow> elected g t = Some (v, Q)) \<and>
    (\<forall>t Q. elected g t = Some (v, Q) \<longrightarrow> tlog h t = tlog g t)"
  using assms(1)
proof (induction rule: rtranclp_induct)
  case (step h k)
  with step_local [OF step.hyps(2) assms(2)] show ?case by auto
qed simp

end

end
