(* ===== verification/Raft_Cluster.thy ===== *)
theory Raft_Cluster
  imports Raft_Node Raft_Protocol
begin

text \<open>
  A cluster of running nodes and a network that may lose, delay, reorder and duplicate
  calls and replies: the nodes are those of \<open>Raft_Node\<close>, each step is one atomic access to
  one node's core. Nodes may be killed and started again from their storage at any time.
\<close>

section \<open>Membership\<close>

definition ids :: "peer list \<Rightarrow> nat set" where
  "ids ms = set (map peer_id ms)"

text \<open>Each node is configured with everyone but itself.\<close>

definition config_for :: "peer list \<Rightarrow> nat \<Rightarrow> cluster_config" where
  "config_for ms n = \<lparr>cc_id = n, cc_peers = filter (\<lambda>p. peer_id p \<noteq> n) ms\<rparr>"

definition peers_of :: "peer list \<Rightarrow> nat \<Rightarrow> nat list" where
  "peers_of ms n = map peer_id (cc_peers (config_for ms n))"

definition members_ok :: "peer list \<Rightarrow> bool" where
  "members_ok ms \<longleftrightarrow> distinct (map peer_id ms)"

definition majority :: "peer list \<Rightarrow> nat set \<Rightarrow> bool" where
  "majority ms Q \<longleftrightarrow> members_ok ms \<and> Q \<subseteq> ids ms \<and> length ms div 2 + 1 \<le> card Q"

lemma finite_ids [simp]: "finite (ids ms)"
  by (simp add: ids_def)

lemma peers_of_conv: "peers_of ms n = filter (\<lambda>i. i \<noteq> n) (map peer_id ms)"
  by (simp add: peers_of_def config_for_def filter_map comp_def)

lemma set_peers_of: "set (peers_of ms n) = ids ms - {n}"
  by (auto simp: peers_of_conv ids_def)

lemma distinct_peers_of: "members_ok ms \<Longrightarrow> distinct (peers_of ms n)"
  by (simp add: peers_of_conv members_ok_def)

lemma card_ids: "members_ok ms \<Longrightarrow> card (ids ms) = length ms"
  using distinct_card [of "map peer_id ms"] by (simp add: ids_def members_ok_def)

lemma length_peers_of:
  assumes "members_ok ms" "n \<in> ids ms"
  shows "length (peers_of ms n) + 1 = length ms"
proof -
  have "length (peers_of ms n) = card (ids ms - {n})"
    using distinct_card [OF distinct_peers_of [OF assms(1), of n]] by (simp add: set_peers_of)
  moreover have "0 < card (ids ms)" using assms(2) by (auto simp: card_gt_0_iff)
  ultimately show ?thesis using assms by (simp add: card_ids)
qed

text \<open>The quorum a node counts to is a majority of the membership, so two of them meet.\<close>

lemma quorum_of_peers:
  "members_ok ms \<Longrightarrow> n \<in> ids ms \<Longrightarrow> quorum_of (peers_of ms n) = length ms div 2 + 1"
  using length_peers_of [of ms n] by (simp add: quorum_of_def)

lemma majority_meet:
  assumes "majority ms Q" "majority ms R"
  shows "Q \<inter> R \<noteq> {}"
proof (rule majorities_meet [of "ids ms"])
  have "length ms < (length ms div 2 + 1) + (length ms div 2 + 1)" by presburger
  also have "\<dots> \<le> card Q + card R" using assms by (auto simp: majority_def intro: add_mono)
  finally show "card (ids ms) < card Q + card R" using assms by (simp add: card_ids majority_def)
qed (use assms in \<open>auto simp: majority_def\<close>)

interpretation members: protocol "majority ms" for ms
  by unfold_locales (rule majority_meet)

section \<open>Cluster state and steps\<close>

record 's cluster =
  cl_node :: "nat \<Rightarrow> 's node"
  cl_calls :: "(nat \<times> call) set"
  cl_replies :: "(nat \<times> call \<times> reply) set"

definition set_node :: "nat \<Rightarrow> 's node \<Rightarrow> 's cluster \<Rightarrow> 's cluster" where
  "set_node n nd c = c\<lparr>cl_node := (cl_node c)(n := nd)\<rparr>"

definition core_of :: "'s cluster \<Rightarrow> nat \<Rightarrow> 's consensus_module" where
  "core_of c n = nd_core (cl_node c n)"

text \<open>
  \<open>fits\<close> is what the nodes' storage can hold: a step that would leave a node with a state
  beyond that (a term past 64 bits, say) is not taken. A call or a reply, once made, stays
  available: delivering it never, late or twice is a matter of which steps are taken.

  \<open>driver_step\<close> is what the drivers, the Raft services and the network do on their own, and
  a crash; a cluster also takes proposals, snapshots and restarts from outside.
\<close>

inductive driver_step ::
  "(persistent_state \<Rightarrow> bool) \<Rightarrow> peer list \<Rightarrow> 's cluster \<Rightarrow> 's cluster \<Rightarrow> bool"
  for fits ms where
  tick: "n \<in> ids ms \<Longrightarrow> nd_running (cl_node c n) \<Longrightarrow>
    decide_step rng now (cl_node c n) = (nd, st) \<Longrightarrow> fits (persistent_of (nd_core nd)) \<Longrightarrow>
    driver_step fits ms c
      ((set_node n nd c)\<lparr>cl_calls := cl_calls c \<union> Pair n ` set (spawn_calls (nd_peer_ids nd) st)\<rparr>)"
| drain: "n \<in> ids ms \<Longrightarrow> nd_running (cl_node c n) \<Longrightarrow>
    drain_tick (cl_node c n) = Some nd \<Longrightarrow>
    driver_step fits ms c (set_node n nd c)"
| serve: "(src, cl) \<in> cl_calls c \<Longrightarrow> n = call_dst cl \<Longrightarrow> n \<in> ids ms \<Longrightarrow> nd_running (cl_node c n) \<Longrightarrow>
    serve_call rng now cl (core_of c n) = (core, r) \<Longrightarrow> fits (persistent_of core) \<Longrightarrow>
    driver_step fits ms c
      ((set_node n ((cl_node c n)\<lparr>nd_core := core\<rparr>) c)\<lparr>cl_replies := insert (src, cl, r) (cl_replies c)\<rparr>)"
| fold: "(n, cl, r) \<in> cl_replies c \<Longrightarrow> n \<in> ids ms \<Longrightarrow> nd_running (cl_node c n) \<Longrightarrow>
    core = fold_reply cl r (core_of c n) \<Longrightarrow> fits (persistent_of core) \<Longrightarrow>
    driver_step fits ms c (set_node n ((cl_node c n)\<lparr>nd_core := core\<rparr>) c)"
| kill: "n \<in> ids ms \<Longrightarrow> driver_step fits ms c (set_node n (node_kill (cl_node c n)) c)"

inductive cluster_step ::
  "(persistent_state \<Rightarrow> bool) \<Rightarrow> peer list \<Rightarrow> timing \<Rightarrow> 's cluster \<Rightarrow> 's cluster \<Rightarrow> bool"
  for fits ms tim where
  driver: "driver_step fits ms c c' \<Longrightarrow> cluster_step fits ms tim c c'"
| propose: "n \<in> ids ms \<Longrightarrow> nd_running (cl_node c n) \<Longrightarrow>
    node_propose command (cl_node c n) = (nd, res) \<Longrightarrow> fits (persistent_of (nd_core nd)) \<Longrightarrow>
    cluster_step fits ms tim c (set_node n nd c)"
| snapshot: "n \<in> ids ms \<Longrightarrow> nd_running (cl_node c n) \<Longrightarrow>
    control_snapshot index data (cl_node c n) = Some nd \<Longrightarrow> fits (persistent_of (nd_core nd)) \<Longrightarrow>
    cluster_step fits ms tim c (set_node n nd c)"
| restart: "n \<in> ids ms \<Longrightarrow> \<not> nd_running (cl_node c n) \<Longrightarrow>
    start_node rng connect (config_for ms n) (cm_storage (core_of c n)) tim now =
      Inr (nd, clients :: string peer_clients) \<Longrightarrow>
    cluster_step fits ms tim c (set_node n nd c)"

text \<open>A step by what it does, drivers' steps included.\<close>

lemma cluster_step_cases [consumes 1, case_names tick drain propose snapshot serve fold kill restart]:
  assumes "cluster_step fits ms tim c c'"
  obtains n rng now nd st where
      "c' = (set_node n nd c)\<lparr>cl_calls := cl_calls c \<union> Pair n ` set (spawn_calls (nd_peer_ids nd) st)\<rparr>"
      "n \<in> ids ms" "nd_running (cl_node c n)" "decide_step rng now (cl_node c n) = (nd, st)"
      "fits (persistent_of (nd_core nd))"
  | n nd where "c' = set_node n nd c" "n \<in> ids ms" "nd_running (cl_node c n)" "drain_tick (cl_node c n) = Some nd"
  | n command nd res where "c' = set_node n nd c" "n \<in> ids ms" "nd_running (cl_node c n)"
      "node_propose command (cl_node c n) = (nd, res)" "fits (persistent_of (nd_core nd))"
  | n index data nd where "c' = set_node n nd c" "n \<in> ids ms" "nd_running (cl_node c n)"
      "control_snapshot index data (cl_node c n) = Some nd" "fits (persistent_of (nd_core nd))"
  | src cl n rng now core r where
      "c' = (set_node n ((cl_node c n)\<lparr>nd_core := core\<rparr>) c)\<lparr>cl_replies := insert (src, cl, r) (cl_replies c)\<rparr>"
      "(src, cl) \<in> cl_calls c" "n = call_dst cl" "n \<in> ids ms" "nd_running (cl_node c n)"
      "serve_call rng now cl (core_of c n) = (core, r)" "fits (persistent_of core)"
  | n cl r core where "c' = set_node n ((cl_node c n)\<lparr>nd_core := core\<rparr>) c" "(n, cl, r) \<in> cl_replies c"
      "n \<in> ids ms" "nd_running (cl_node c n)" "core = fold_reply cl r (core_of c n)" "fits (persistent_of core)"
  | n where "c' = set_node n (node_kill (cl_node c n)) c" "n \<in> ids ms"
  | n rng connect now nd clients where "c' = set_node n nd c" "n \<in> ids ms" "\<not> nd_running (cl_node c n)"
      "start_node rng connect (config_for ms n) (cm_storage (core_of c n)) tim now =
        Inr (nd, clients :: string peer_clients)"
  using assms
proof cases
  case driver
  then show ?thesis
  proof cases
    case (tick n rng now nd st)
    then show ?thesis by (rule that(1))
  next
    case (drain n nd)
    then show ?thesis by (rule that(2))
  next
    case (serve src cl n rng now core r)
    then show ?thesis by (rule that(5))
  next
    case (fold n cl r core)
    then show ?thesis by (rule that(6))
  next
    case (kill n)
    then show ?thesis by (rule that(7))
  qed
next
  case (propose n command nd res)
  then show ?thesis by (rule that(3))
next
  case (snapshot n index data nd)
  then show ?thesis by (rule that(4))
next
  case (restart n rng connect now nd clients)
  then show ?thesis by (rule that(8))
qed

lemma start_node_config:
  assumes "start_node rng connect (config_for ms n) st tim now = Inr (nd, clients)"
  shows "cm_new rng n (peers_of ms n) st tim now = Inr (nd_core nd)" "nd_peer_ids nd = peers_of ms n"
    and "nd_applied nd = []" "nd_running nd"
  using assms
  by (auto simp: start_node_def Let_def config_for_def peers_of_def split: sum.splits)

text \<open>Every node starts from empty storage; the storage objects are given by \<open>disk\<close>.\<close>

definition cluster_start ::
  "(nat \<Rightarrow> 's dyn_storage) \<Rightarrow> peer list \<Rightarrow> timing \<Rightarrow> 's cluster \<Rightarrow> bool" where
  "cluster_start disk ms tim c \<longleftrightarrow>
     cl_calls c = {} \<and> cl_replies c = {} \<and>
     (\<forall>n \<in> ids ms. storage_load (disk n) = Inr persistent_default \<and>
        (\<exists>rng connect now clients.
           start_node rng connect (config_for ms n) (disk n) tim now =
             Inr (cl_node c n, clients :: string peer_clients)))"

inductive cluster_reach ::
  "(persistent_state \<Rightarrow> bool) \<Rightarrow> (nat \<Rightarrow> 's dyn_storage) \<Rightarrow> peer list \<Rightarrow> timing \<Rightarrow> 's cluster \<Rightarrow> bool"
  for fits disk ms tim where
  start: "cluster_start disk ms tim c \<Longrightarrow> cluster_reach fits disk ms tim c"
| step: "cluster_reach fits disk ms tim c \<Longrightarrow> cluster_step fits ms tim c c' \<Longrightarrow>
    cluster_reach fits disk ms tim c'"

end
