(* ===== verification/Raft_Simulation.thy ===== *)
theory Raft_Simulation
  imports Raft_Cluster
begin

text \<open>
  The methods of the consensus module implement the abstract protocol: \<open>node_rel\<close> relates a
  node's fields to the protocol state, and each method, run on a related node, corresponds
  to a sequence of protocol steps of that node.
\<close>

section \<open>The refinement relation\<close>

abbreviation psteps :: "peer list \<Rightarrow> nat \<Rightarrow> proto \<Rightarrow> proto \<Rightarrow> bool" where
  "psteps ms n \<equiv> (proto_step (majority ms) n)\<^sup>*\<^sup>*"

definition cand_rel :: "peer list \<Rightarrow> proto \<Rightarrow> nat \<Rightarrow> 's consensus_module \<Rightarrow> bool" where
  "cand_rel ms g n cm \<longleftrightarrow>
     clog g (pt g n) n = Some (pl g n) \<and> (\<forall>Q. elected g (pt g n) \<noteq> Some (n, Q)) \<and>
     (\<forall>v \<in> cm_votes cm. v \<in> ids ms \<and> (\<exists>V. ballot g v (pt g n) = Some (n, V)))"

text \<open>
  What a leader's \<open>match_index\<close> for \<open>p\<close> stands for: an acknowledgement of this term, or an
  index up to the base \<open>b\<close> of the leader's own log (a reply to InstallSnapshot reports no more).
\<close>

definition acked :: "proto \<Rightarrow> nat \<Rightarrow> nat \<Rightarrow> nat \<Rightarrow> nat \<Rightarrow> bool" where
  "acked g n b p m \<longleftrightarrow> m \<le> b \<or> (\<exists>m' \<ge> m. (p, pt g n, m') \<in> acks g)"

lemma acked_mono:
  assumes "acked g n b p m" "pt h n = pt g n" "b \<le> b'" "acks g \<subseteq> acks h"
  shows "acked h n b' p m"
  using assms unfolding acked_def by (metis le_trans subsetD)

definition lead_rel :: "proto \<Rightarrow> nat \<Rightarrow> 's consensus_module \<Rightarrow> bool" where
  "lead_rel g n cm \<longleftrightarrow>
     (\<exists>Q. elected g (pt g n) = Some (n, Q)) \<and> pl g n = tlog g (pt g n) \<and>
     (\<forall>p k. cm_next_index cm p = Some k \<longrightarrow> k \<le> Suc (length (pl g n))) \<and>
     (\<forall>p m. cm_match_index cm p = Some m \<longrightarrow> acked g n (lg_snapshot_index (cm_log cm)) p m) \<and>
     (\<forall>i. 0 < i \<and> i \<le> length (pl g n) \<and> term_of (pl g n) i = pt g n \<longrightarrow>
        (n, pt g n, length (pl g n)) \<in> acks g)"

definition node_rel :: "peer list \<Rightarrow> proto \<Rightarrow> nat \<Rightarrow> 's consensus_module \<Rightarrow> bool" where
  "node_rel ms g n cm \<longleftrightarrow>
     members_ok ms \<and> n \<in> ids ms \<and> cm_id cm = n \<and> cm_peers cm = peers_of ms n \<and> cm_inv cm \<and>
     cm_current_term cm = pt g n \<and> cm_voted_for cm = map_option fst (ballot g n (pt g n)) \<and>
     represents (pl g n) (cm_log cm) \<and> cm_commit_index cm = pc g n \<and>
     (cm_role cm = Candidate \<longrightarrow> cand_rel ms g n cm) \<and> (cm_role cm = Leader \<longrightarrow> lead_rel g n cm)"

lemma node_relD:
  assumes "node_rel ms g n cm"
  shows "members_ok ms" "n \<in> ids ms" "cm_id cm = n" "cm_peers cm = peers_of ms n" "cm_inv cm"
    and "cm_current_term cm = pt g n" "cm_voted_for cm = map_option fst (ballot g n (pt g n))"
    and "represents (pl g n) (cm_log cm)" "cm_commit_index cm = pc g n"
    and "cm_role cm = Candidate \<Longrightarrow> cand_rel ms g n cm" "cm_role cm = Leader \<Longrightarrow> lead_rel g n cm"
  using assms by (simp_all add: node_rel_def)

text \<open>Another node's steps do not disturb the relation.\<close>

lemma lead_rel_mono:
  assumes "lead_rel g n cm" "pt h n = pt g n" "lg_snapshot_index (cm_log cm) \<le> lg_snapshot_index (cm_log cm')" "acks g \<subseteq> acks h"
    and "pl h n = pl g n" "elected h (pt g n) = elected g (pt g n)" "tlog h (pt g n) = tlog g (pt g n)"
    and "cm_next_index cm' = cm_next_index cm" "cm_match_index cm' = cm_match_index cm"
  shows "lead_rel h n cm'"
  using assms acked_mono [OF _ assms(2-4)] unfolding lead_rel_def by auto

lemma node_rel_other:
  assumes inv: "proto_inv (majority ms) g" and rel: "node_rel ms g v cm" and steps: "psteps ms a g h"
    and "v \<noteq> a"
  shows "node_rel ms h v cm"
proof -
  note gr = members.steps_grows [OF steps inv]
  have same: "pt h v = pt g v" "pl h v = pl g v" "pc h v = pc g v" "ballot h v = ballot g v"
    "\<And>t. clog h t v = clog g t v" "\<And>t Q. elected h t = Some (v, Q) \<longleftrightarrow> elected g t = Some (v, Q)"
    "\<And>t Q. elected g t = Some (v, Q) \<Longrightarrow> tlog h t = tlog g t"
    using members.steps_local [OF steps \<open>v \<noteq> a\<close>] by auto
  have "cand_rel ms g v cm \<Longrightarrow> cand_rel ms h v cm"
    unfolding cand_rel_def same by (metis members.growsD(2) [OF gr])
  moreover have "lead_rel h v cm" if "lead_rel g v cm"
  proof (rule lead_rel_mono [OF that])
    from that obtain Q where "elected g (pt g v) = Some (v, Q)" by (auto simp: lead_rel_def)
    then show "elected h (pt g v) = elected g (pt g v)" "tlog h (pt g v) = tlog g (pt g v)"
      using same(6,7) by auto
  qed (use same members.growsD(8) [OF gr] in auto)
  ultimately show ?thesis using rel by (auto simp: node_rel_def same)
qed

text \<open>
  \<open>simulated ms g n cm P\<close>: from \<open>g\<close>, steps of node \<open>n\<close> lead to a protocol state that is
  related to \<open>cm\<close> and satisfies \<open>P\<close>.
\<close>

definition simulated :: "peer list \<Rightarrow> proto \<Rightarrow> nat \<Rightarrow> 's consensus_module \<Rightarrow> (proto \<Rightarrow> bool) \<Rightarrow> bool" where
  "simulated ms g n cm P \<longleftrightarrow> (\<exists>h. psteps ms n g h \<and> node_rel ms h n cm \<and> P h)"

lemma simulatedI: "psteps ms n g h \<Longrightarrow> node_rel ms h n cm \<Longrightarrow> P h \<Longrightarrow> simulated ms g n cm P"
  by (auto simp: simulated_def)

lemma simulated_refl: "node_rel ms g n cm \<Longrightarrow> P g \<Longrightarrow> simulated ms g n cm P"
  by (rule simulatedI) auto

lemma simulated_trans:
  assumes inv: "proto_inv (majority ms) g" and first: "simulated ms g n cm P"
    and then_ok: "\<And>h. psteps ms n g h \<Longrightarrow> proto_inv (majority ms) h \<Longrightarrow> node_rel ms h n cm \<Longrightarrow> P h \<Longrightarrow>
      simulated ms h n cm' R"
  shows "simulated ms g n cm' R"
proof -
  from first obtain h where h: "psteps ms n g h" "node_rel ms h n cm" "P h"
    by (auto simp: simulated_def)
  from then_ok [OF h(1) members.steps_inv [OF h(1) inv] h(2,3)] h(1) show ?thesis
    unfolding simulated_def by (meson rtranclp_trans)
qed

lemma simulated_weaken: "simulated ms g n cm P \<Longrightarrow> (\<And>h. psteps ms n g h \<Longrightarrow> P h \<Longrightarrow> R h) \<Longrightarrow> simulated ms g n cm R"
  by (auto simp: simulated_def)

text \<open>Fields the relation does not mention may change freely.\<close>

lemma cand_rel_votes: "cm_votes cm' = cm_votes cm \<Longrightarrow> cand_rel ms g n cm' = cand_rel ms g n cm"
  by (simp add: cand_rel_def)

lemma lead_rel_cursors:
  "lead_rel g n cm \<Longrightarrow> cm_next_index cm' = cm_next_index cm \<Longrightarrow> cm_match_index cm' = cm_match_index cm \<Longrightarrow>
     lg_snapshot_index (cm_log cm) \<le> lg_snapshot_index (cm_log cm') \<Longrightarrow> lead_rel g n cm'"
  by (rule lead_rel_mono) simp_all

lemma node_rel_same:
  assumes "node_rel ms g n cm" "cm_inv cm'" "cm_id cm' = cm_id cm" "cm_peers cm' = cm_peers cm"
    and "cm_current_term cm' = cm_current_term cm" "cm_voted_for cm' = cm_voted_for cm"
    and "cm_log cm' = cm_log cm" "cm_commit_index cm' = cm_commit_index cm"
    and "cm_role cm' = Follower \<or> cm_role cm' = cm_role cm \<and> cm_votes cm' = cm_votes cm \<and>
      cm_next_index cm' = cm_next_index cm \<and> cm_match_index cm' = cm_match_index cm"
  shows "node_rel ms g n cm'"
  using assms cand_rel_votes [of cm' cm] lead_rel_cursors [of g n cm cm']
  by (auto simp: node_rel_def)

lemma future_ballot: "proto_inv q g \<Longrightarrow> pt g n < t \<Longrightarrow> ballot g n t = None"
  unfolding proto_inv_def inv_ballot_def by (metis linorder_not_le not_Some_eq surj_pair)

section \<open>Terms and votes\<close>

lemma sim_step_down:
  assumes inv: "proto_inv (majority ms) g" and rel: "node_rel ms g n cm"
  shows "simulated ms g n (step_down t cm) (\<lambda>h. pt h n = max t (pt g n) \<and> pl h n = pl g n)"
proof (cases "pt g n < t")
  case True
  let ?h = "g\<lparr>pt := (pt g)(n := t)\<rparr>"
  have "proto_step (majority ms) n g ?h" using True by (intro adopt) simp
  then have "psteps ms n g ?h" ..
  moreover have "node_rel ms ?h n (step_down t cm)"
    using rel True future_ballot [OF inv True] step_down_inv [of cm t]
    by (simp add: node_rel_def max_absorb1)
  ultimately show ?thesis using True by (intro simulatedI) auto
next
  case False
  moreover have "node_rel ms g n (step_down t cm)"
    using rel False step_down_inv [of cm t] by (simp add: node_rel_def max_absorb2)
  ultimately show ?thesis by (intro simulated_refl) auto
qed

lemma sim_adopt:
  assumes inv: "proto_inv (majority ms) g" and rel: "node_rel ms g n cm"
  shows "simulated ms g n (adopt_newer_term t cm) (\<lambda>h. pt h n = max t (pt g n) \<and> pl h n = pl g n)"
  using sim_step_down [OF assms, of t] node_relD(6) [OF rel] rel
  by (auto simp: adopt_newer_term_def intro: simulated_refl)

lemma sim_yield:
  assumes inv: "proto_inv (majority ms) g" and rel: "node_rel ms g n cm" and t: "pt g n \<le> t"
  shows "simulated ms g n (yield_to_leader rng now t l cm)
    (\<lambda>h. pt h n = t \<and> pl h n = pl g n \<and> pc h n = pc g n)"
proof (rule simulated_trans [OF inv sim_step_down [OF inv rel, of t]])
  fix h assume h: "psteps ms n g h" "proto_inv (majority ms) h" "node_rel ms h n (step_down t cm)"
    "pt h n = max t (pt g n) \<and> pl h n = pl g n"
  have "node_rel ms h n (yield_to_leader rng now t l cm)"
    by (rule node_rel_same [OF h(3)])
      (use node_relD(5) [OF rel] yield_inv [of cm] node_relD(6) [OF h(3)] in auto)
  moreover have "pc h n = pc g n"
    using node_relD(9) [OF rel] node_relD(9) [OF h(3)] by simp
  ultimately show "simulated ms h n (yield_to_leader rng now t l cm)
    (\<lambda>h. pt h n = t \<and> pl h n = pl g n \<and> pc h n = pc g n)"
    using h(4) t by (intro simulated_refl) auto
qed

lemma up_to_date_repr:
  "represents L (cm_log cm) \<Longrightarrow>
     log_is_up_to_date (length C) (term_of C (length C)) cm \<longleftrightarrow> up_to_date C L"
  by (auto simp: log_is_up_to_date_def up_to_date_def rlog.lastIndex rlog.lastTerm)

lemma sim_grant:
  assumes inv: "proto_inv (majority ms) g" and rel: "node_rel ms g n cm" and role: "cm_role cm = Follower"
    and free: "cm_voted_for cm \<in> {None, Some c}"
    and C: "clog g (pt g n) c = Some C" "up_to_date C (pl g n)"
  shows "simulated ms g n (grant_vote rng now c cm) (\<lambda>h. \<exists>V. ballot h n (pt g n) = Some (c, V))"
proof (cases "ballot g n (pt g n)")
  case None
  let ?h = "g\<lparr>ballot := (ballot g)(n := (ballot g n)(pt g n \<mapsto> (c, pl g n)))\<rparr>"
  have "proto_step (majority ms) n g ?h" using vote [OF refl None C] .
  then have "psteps ms n g ?h" ..
  moreover have "cm_inv (grant_vote rng now c cm)"
    using node_relD(5) [OF rel] role by (auto simp: cm_inv_def)
  then have "node_rel ms ?h n (grant_vote rng now c cm)"
    using rel role by (simp add: node_rel_def)
  ultimately show ?thesis by (intro simulatedI) auto
next
  case (Some b)
  then have b: "fst b = c" "cm_voted_for cm = Some c" using free node_relD(7) [OF rel] by auto
  have "cm_inv (grant_vote rng now c cm)"
    using node_relD(5) [OF rel] role by (auto simp: cm_inv_def)
  then have "node_rel ms g n (grant_vote rng now c cm)"
    using rel role b by (simp add: node_rel_def)
  with Some b show ?thesis by (intro simulated_refl) (auto simp: prod_eq_iff)
qed

section \<open>Elections\<close>

lemma become_leader_cursors:
  "cm_next_index (become_leader cm) p = Some k \<Longrightarrow> k = Suc (last_index (cm_log cm))"
  "cm_match_index (become_leader cm) p = Some m \<Longrightarrow> m = 0"
  by (auto simp: split: if_splits)

lemma sim_maybe_become_leader:
  assumes inv: "proto_inv (majority ms) g" and rel: "node_rel ms g n cm"
  shows "simulated ms g n (maybe_become_leader cm) (\<lambda>h. pt h n = pt g n \<and> clog h = clog g)"
proof (cases "cm_role cm = Candidate \<and> card (cm_votes cm) \<ge> cm_quorum cm")
  case True
  let ?t = "pt g n" and ?Q = "cm_votes cm"
  have cand: "cand_rel ms g n cm" using node_relD(10) [OF rel] True by blast
  have q: "majority ms ?Q"
    using True cand node_relD(1,2,4) [OF rel] cm_invD(8) [OF node_relD(5) [OF rel]]
    by (auto simp: majority_def cand_rel_def quorum_of_peers)
  have "elected g ?t = None"
  proof (rule ccontr)
    assume "elected g ?t \<noteq> None"
    then obtain c R where R: "elected g ?t = Some (c, R)" by auto
    then have "majority ms R" "\<And>v. v \<in> R \<Longrightarrow> \<exists>V. ballot g v ?t = Some (c, V)"
      using proto_invD(3) [OF inv] unfolding inv_elect_def by blast+
    with members.quorum_witness [OF q this(1)] cand have "c = n"
      unfolding cand_rel_def by (metis option.inject prod.inject)
    with R cand show False by (simp add: cand_rel_def)
  qed
  let ?h = "g\<lparr>elected := (elected g)(?t \<mapsto> (n, ?Q)), tlog := (tlog g)(?t := pl g n)\<rparr>"
  have clog: "clog g ?t n = Some (pl g n)" using cand by (simp add: cand_rel_def)
  have "proto_step (majority ms) n g ?h"
    by (rule elect [OF refl \<open>elected g ?t = None\<close> clog, of "majority ms" ?Q])
      (use q cand in \<open>simp_all add: cand_rel_def\<close>)
  then have "psteps ms n g ?h" ..
  moreover have "lead_rel ?h n (become_leader cm)"
  proof -
    have "term_of (pl g n) i \<noteq> ?t" if "i \<le> length (pl g n)" for i
      using proto_invD(1) [OF inv] clog that unfolding inv_clog_def by (metis nat_less_le)
    then show ?thesis
      using rlog.lastIndex [OF node_relD(8) [OF rel]] become_leader_cursors [of cm]
      by (auto simp: lead_rel_def acked_def)
  qed
  moreover have "cm_inv (become_leader cm)"
    using maybe_become_leader_inv [OF node_relD(5) [OF rel]] True by (simp add: maybe_become_leader_def)
  ultimately show ?thesis
    using rel True by (intro simulatedI [of _ _ _ ?h]) (auto simp: node_rel_def maybe_become_leader_def)
next
  case False
  with rel show ?thesis
    unfolding maybe_become_leader_def by (subst if_not_P) (auto intro: simulated_refl)
qed

lemma sim_start_election:
  assumes inv: "proto_inv (majority ms) g" and rel: "node_rel ms g n cm"
  shows "simulated ms g n (fst (start_election rng now cm))
    (\<lambda>h. pt h n = Suc (pt g n) \<and> clog h (pt h n) n = Some (pl g n))"
proof -
  let ?t = "Suc (pt g n)"
  let ?h = "g\<lparr>pt := (pt g)(n := ?t), ballot := (ballot g)(n := (ballot g n)(?t \<mapsto> (n, pl g n))),
     clog := (clog g)(?t := (clog g ?t)(n \<mapsto> pl g n))\<rparr>"
  let ?c = "persist (reset_election_deadline rng now
    ((abandon_pre_election cm)\<lparr>cm_role := Candidate, cm_current_term := cm_current_term cm + 1,
      cm_voted_for := Some (cm_id cm), cm_leader_id := None, cm_votes := {cm_id cm}\<rparr>))"
  have "proto_step (majority ms) n g ?h" by (rule campaign) simp
  then have steps: "psteps ms n g ?h" ..
  have "elected g ?t \<noteq> Some (n, Q)" for Q
    using proto_invD(1,3) [OF inv] unfolding inv_elect_def inv_clog_def
    by (metis Suc_n_not_le_n)
  then have "cand_rel ms ?h n ?c"
    using node_relD(2,3) [OF rel] by (auto simp: cand_rel_def)
  moreover have "cm_inv ?c" using node_relD(5) [OF rel] by (auto simp: cm_inv_def)
  ultimately have "node_rel ms ?h n ?c" using rel by (simp add: node_rel_def)
  with steps have first: "simulated ms g n ?c (\<lambda>h. pt h n = ?t \<and> clog h ?t n = Some (pl g n))"
    by (intro simulatedI) auto
  have "simulated ms g n (maybe_become_leader ?c)
    (\<lambda>h. pt h n = ?t \<and> clog h (pt h n) n = Some (pl g n))"
    by (rule simulated_trans [OF inv first], rule simulated_weaken [OF sim_maybe_become_leader]) auto
  then show ?thesis by (simp add: start_election_def Let_def)
qed

lemma sim_depose:
  assumes inv: "proto_inv (majority ms) g" and rel: "node_rel ms g n cm"
  shows "simulated ms g n ((step_down t cm)\<lparr>cm_leader_id := None\<rparr>) (\<lambda>h. True)"
proof (rule simulated_trans [OF inv sim_step_down [OF inv rel, of t]])
  fix h assume "node_rel ms h n (step_down t cm)"
  then have "node_rel ms h n ((step_down t cm)\<lparr>cm_leader_id := None\<rparr>)"
    by (rule node_rel_same) (use node_relD(5) [OF rel] step_down_inv in auto)
  then show "simulated ms h n ((step_down t cm)\<lparr>cm_leader_id := None\<rparr>) (\<lambda>h. True)"
    by (rule simulated_refl) simp
qed

lemma sim_record_vote:
  assumes inv: "proto_inv (majority ms) g" and rel: "node_rel ms g n cm"
    and granted: "rvr_vote_granted r \<Longrightarrow> v \<in> ids ms \<and> (\<exists>V. ballot g v (rvr_term r) = Some (n, V))"
  shows "simulated ms g n (record_vote_reply v r cm) (\<lambda>h. True)"
proof -
  let ?c = "cm\<lparr>cm_votes := insert v (cm_votes cm)\<rparr>"
  have count: "simulated ms g n (maybe_become_leader ?c) (\<lambda>h. True)"
    if "cm_role cm = Candidate" "rvr_term r = cm_current_term cm" "rvr_vote_granted r"
  proof -
    have "cand_rel ms g n ?c"
      using node_relD(6) [OF rel] node_relD(10) [OF rel that(1)] granted [OF that(3)] that(2)
      by (auto simp: cand_rel_def)
    moreover have "cm_inv ?c" using node_relD(5) [OF rel] by (simp add: cm_inv_def)
    ultimately have "node_rel ms g n ?c" using rel that(1) by (simp add: node_rel_def)
    from sim_maybe_become_leader [OF inv this] show ?thesis by (rule simulated_weaken) simp
  qed
  have "simulated ms g n cm (\<lambda>h. True)" using rel by (rule simulated_refl) simp
  with sim_depose [OF inv rel] count show ?thesis unfolding record_vote_reply_def by auto
qed

section \<open>The leader\<close>

lemma pc_settled: "proto_inv q g \<Longrightarrow> k \<le> pc g n \<Longrightarrow> settled q g n k"
  by (rule settled_le) (auto simp: proto_inv_def inv_commit_def)

lemma pc_length: "proto_inv q g \<Longrightarrow> pc g n \<le> length (pl g n)"
  using pc_settled [of q g "pc g n" n] by (simp add: settled_def)

lemma sim_advance_commit:
  assumes inv: "proto_inv (majority ms) g" and rel: "node_rel ms g n cm" and role: "cm_role cm = Leader"
  shows "simulated ms g n (maybe_advance_commit cm) (\<lambda>h. True)"
proof (rule advance_commit_cases [of cm])
  assume "maybe_advance_commit cm = cm"
  with rel show ?thesis by (simp add: simulated_refl)
next
  fix k assume adv: "maybe_advance_commit cm = cm\<lparr>cm_commit_index := k\<rparr>" "cm_commit_index cm < k"
    "k \<le> last_index (cm_log cm)" "committable cm k"
  let ?t = "pt g n" and ?L = "pl g n"
  have lead: "lead_rel g n cm" by (rule node_relD(11) [OF rel role])
  note rep = node_relD(8) [OF rel]
  have k: "k \<le> length ?L" using adv(3) rlog.lastIndex [OF rep] by simp
  have kt: "term_of ?L k = ?t"
    using adv(4) node_relD(6) [OF rel] by (auto simp: committable_def rlog.termAt [OF rep] split: if_splits)
  let ?Q = "insert n {p \<in> set (peers_of ms n). k \<le> lookup_or (cm_match_index cm) p 0}"
  have "card ?Q = 1 + length (filter (\<lambda>p. k \<le> lookup_or (cm_match_index cm) p 0) (peers_of ms n))"
    using distinct_card [OF distinct_filter [OF distinct_peers_of [OF node_relD(1) [OF rel]]]]
    by (subst card_insert_disjoint) (auto simp: set_peers_of)
  then have q: "majority ms ?Q"
    using adv(4) node_relD(1,2,4) [OF rel] cm_invD(8) [OF node_relD(5) [OF rel]]
    by (auto simp: majority_def committable_def is_replicated_on_majority_def quorum_of_peers set_peers_of)
  have ack: "\<exists>m \<ge> k. (v, ?t, m) \<in> acks g" if "v \<in> ?Q" for v
  proof (cases "v = n")
    case True
    moreover have "0 < k" using adv(2) by simp
    ultimately show ?thesis using lead k kt unfolding lead_rel_def by blast
  next
    case False
    with that adv(2) obtain m where "cm_match_index cm v = Some m" "k \<le> m"
      by (auto simp: lookup_or_def split: option.splits)
    then have "acked g n (lg_snapshot_index (cm_log cm)) v m" using lead by (simp add: lead_rel_def)
    with \<open>k \<le> m\<close> adv(2) cm_invD(3,4) [OF node_relD(5) [OF rel]] show ?thesis by (auto simp: acked_def intro: le_trans)
  qed
  have "committed (majority ms) g ?t k"
    unfolding committed_def using lead k kt q ack adv(2) by (auto simp: lead_rel_def)
  then have "proto_step (majority ms) n g (g\<lparr>pc := (pc g)(n := k)\<rparr>)"
    using k lead by (intro commit [of k g n ?t _ k]) (auto simp: lead_rel_def)
  then have "psteps ms n g (g\<lparr>pc := (pc g)(n := k)\<rparr>)" ..
  moreover have "cm_inv (cm\<lparr>cm_commit_index := k\<rparr>)"
    using advance_inv [OF node_relD(5) [OF rel]] adv(1) by simp
  moreover have "lead_rel (g\<lparr>pc := (pc g)(n := k)\<rparr>) n (cm\<lparr>cm_commit_index := k\<rparr>)"
    by (rule lead_rel_mono [OF lead]) simp_all
  ultimately show ?thesis
    using rel role adv(1) by (intro simulatedI) (auto simp: node_rel_def)
qed

lemma sim_submit:
  assumes inv: "proto_inv (majority ms) g" and rel: "node_rel ms g n cm"
  shows "simulated ms g n (fst (submit_command c cm)) (\<lambda>h. True)"
proof (cases "cm_role cm = Leader")
  case True
  let ?e = "log_entry_new (pt g n) c" and ?t = "pt g n"
  let ?cm = "persist (cm\<lparr>cm_log := fst (log_append (cm_log cm) ?e)\<rparr>)"
  let ?L = "tlog g ?t @ [?e]"
  let ?h = "g\<lparr>pl := (pl g)(n := ?L), tlog := (tlog g)(?t := ?L), acks := insert (n, ?t, length ?L) (acks g)\<rparr>"
  have lead: "lead_rel g n cm" by (rule node_relD(11) [OF rel True])
  then obtain Q where Q: "elected g ?t = Some (n, Q)" "pl g n = tlog g ?t" by (auto simp: lead_rel_def)
  have "proto_step (majority ms) n g ?h"
    by (rule extend [OF refl Q]) (simp_all add: log_entry_new_def)
  then have steps: "psteps ms n g ?h" ..
  have "acked ?h n b p m" if "acked g n b p m" for b p m
    by (rule acked_mono [OF that]) auto
  then have "lead_rel ?h n ?cm" using lead Q by (auto simp: lead_rel_def rlog.append_base intro: le_SucI)
  moreover have "cm_inv ?cm"
    using node_relD(5) [OF rel] by (auto simp: cm_inv_def log_wf_def last_index_def log_append_def Let_def)
  moreover have "represents ?L (cm_log ?cm)"
    using rlog.append_repr [OF node_relD(8) [OF rel]] Q(2) by simp
  ultimately have "node_rel ms ?h n ?cm" using rel True by (simp add: node_rel_def)
  with steps have "simulated ms g n ?cm (\<lambda>h. True)" by (intro simulatedI) auto
  then have "simulated ms g n (maybe_advance_commit ?cm) (\<lambda>h. True)"
    by (rule simulated_trans [OF inv]) (rule sim_advance_commit, auto simp: True)
  with True node_relD(6) [OF rel] show ?thesis
    by (simp add: submit_command_def case_prod_beta)
next
  case False
  with rel show ?thesis by (simp add: submit_command_def simulated_refl)
qed

lemma acked_bound:
  assumes inv: "proto_inv q g" and "pl g n = tlog g (pt g n)" "acked g n b p m" "b \<le> length (pl g n)"
  shows "m \<le> length (pl g n)"
proof - have "m' \<le> length (pl g n)" if "(p, pt g n, m') \<in> acks g" for m'
    using proto_invD(5) [OF inv] that assms(2) unfolding inv_acks_def by auto
  then show ?thesis using assms(3,4) unfolding acked_def by (meson le_trans)
qed

lemma sim_advance_peer:
  assumes inv: "proto_inv (majority ms) g" and rel: "node_rel ms g n cm" and role: "cm_role cm = Leader"
    and hint: "acked g n (lg_snapshot_index (cm_log cm)) p hint"
  shows "simulated ms g n (advance_peer p hint cm) (\<lambda>h. True)"
proof -
  let ?m = "max (lookup_or (cm_match_index cm) p 0) hint"
  let ?cm = "cm\<lparr>cm_match_index := (cm_match_index cm)(p \<mapsto> ?m),
    cm_next_index := (cm_next_index cm)(p \<mapsto> ?m + 1)\<rparr>"
  have lead: "lead_rel g n cm" by (rule node_relD(11) [OF rel role])
  have "acked g n (lg_snapshot_index (cm_log cm)) p (lookup_or (cm_match_index cm) p 0)"
    using lead by (auto simp: lead_rel_def lookup_or_def acked_def [of _ _ _ _ 0] split: option.splits)
  then have m: "acked g n (lg_snapshot_index (cm_log cm)) p ?m" using hint by (simp add: max_def)
  have "?m \<le> length (pl g n)"
    by (rule acked_bound [OF inv _ m rlog.base_le [OF node_relD(8) [OF rel]]]) (use lead in \<open>simp add: lead_rel_def\<close>)
  with m have "lead_rel g n ?cm" using lead by (auto simp: lead_rel_def)
  moreover have "cm_inv ?cm" using node_relD(5) [OF rel] by (auto simp: cm_inv_def)
  ultimately have "node_rel ms g n ?cm" using rel role by (simp add: node_rel_def)
  from sim_advance_commit [OF inv this] role show ?thesis
    by (simp add: advance_peer_def Let_def)
qed

lemma sim_append_reply:
  assumes inv: "proto_inv (majority ms) g" and rel: "node_rel ms g n cm"
    and ok: "cm_role cm = Leader \<Longrightarrow> aer_term r = pt g n \<Longrightarrow> aer_success r \<Longrightarrow>
      acked g n (lg_snapshot_index (cm_log cm)) p hint"
    and conflict: "\<And>ci. aer_term r = pt g n \<Longrightarrow> cm_role cm = Leader \<Longrightarrow> aer_conflict_index r = Some ci \<Longrightarrow>
      ci \<le> Suc (length (pl g n))"
  shows "simulated ms g n (handle_append_reply p r hint cm) (\<lambda>h. True)"
proof -
  let ?n = "next_index_after_conflict cm p r"
  let ?cm = "cm\<lparr>cm_next_index := (cm_next_index cm)(p \<mapsto> max ?n 1)\<rparr>"
  have lowered: "simulated ms g n ?cm (\<lambda>h. True)" if lead: "cm_role cm = Leader" "aer_term r = pt g n"
  proof -
    have rel': "lead_rel g n cm" by (rule node_relD(11) [OF rel lead(1)])
    note rep = node_relD(8) [OF rel]
    have "lookup_or (cm_next_index cm) p 1 \<le> Suc (length (pl g n))"
      using rel' by (auto simp: lead_rel_def lookup_or_def split: option.splits)
    moreover have "li \<le> length (pl g n)" if "last_index_of_term (cm_log cm) t = Some li" for t li
      using last_index_of_term_Some(2) [OF rep that] .
    ultimately have "?n \<le> Suc (length (pl g n))"
      using conflict [OF lead(2,1)]
      by (auto simp: next_index_after_conflict_def split: option.splits)
    then have "lead_rel g n ?cm" using rel' by (auto simp: lead_rel_def)
    moreover have "cm_inv ?cm" using node_relD(5) [OF rel] by (auto simp: cm_inv_def)
    ultimately have "node_rel ms g n ?cm" using rel lead by (simp add: node_rel_def)
    then show ?thesis by (rule simulated_refl) simp
  qed
  have down: "simulated ms g n ((step_down (aer_term r) cm)\<lparr>cm_leader_id := None\<rparr>) (\<lambda>h. True)"
    by (rule sim_depose [OF inv rel])
  have same: "simulated ms g n cm (\<lambda>h. True)" using rel by (rule simulated_refl) simp
  show ?thesis
    unfolding handle_append_reply_def Let_def
    using lowered down same sim_advance_peer [OF inv rel _ ok] node_relD(6) [OF rel] by auto
qed

lemma sim_install_reply:
  assumes inv: "proto_inv (majority ms) g" and rel: "node_rel ms g n cm" and li: "li \<le> lg_snapshot_index (cm_log cm)"
  shows "simulated ms g n (handle_install_snapshot_reply p r li cm) (\<lambda>h. True)"
proof -
  have "simulated ms g n cm (\<lambda>h. True)" using rel by (rule simulated_refl) simp
  moreover have "acked g n (lg_snapshot_index (cm_log cm)) p li" using li by (simp add: acked_def)
  ultimately show ?thesis
    unfolding handle_install_snapshot_reply_def
    using sim_depose [OF inv rel, of "isr_term r"] sim_advance_peer [OF inv rel] by auto
qed

section \<open>The follower\<close>

text \<open>The splice is the protocol's sync when the entries are a slice of the leader's log.\<close>

lemma spliced_id:
  assumes "take (i + m) L = take (i + m) T" "i + m \<le> length T" "es = take m (drop i T)"
  shows "spliced L b i es = L"
proof (rule spliced_all, rule ccontr)
  assume "agree L b i es \<noteq> length es"
  then have k: "agree L b i es < length es" using agree_le [of L b i es] by simp
  let ?j = "i + agree L b i es"
  have j: "?j < i + m" using k assms(2,3) by simp
  then have "?j < length L" using assms(1,2) take_eq_length by (metis le_trans less_le_not_le linorder_not_le)
  moreover have "term_of L (Suc ?j) = le_term (es ! agree L b i es)"
    using take_eq_nth [OF assms(1) j] assms(2,3) k j by simp
  ultimately show False using agree_stop(2) [OF k] by simp
qed

lemma spliced_synced:
  assumes prev: "take i L = take i T" and i: "i \<le> length L"
    and es: "es = take m (drop i T)" and m: "i + m \<le> length T"
    and b: "b \<le> length L" "take b L = take b T"
    and matching: "\<And>j. 0 < j \<Longrightarrow> j \<le> length L \<Longrightarrow> j \<le> length T \<Longrightarrow>
      term_of L j = term_of T j \<Longrightarrow> take j L = take j T"
  shows "spliced L b i es = synced L (i + m) T"
proof (cases "take (i + m) L = take (i + m) T")
  case True
  with spliced_id [OF True m es] show ?thesis by (simp add: synced_def)
next
  case False
  have base: "take (min b (i + m)) L = take (min b (i + m)) T"
    using b(2) by (rule take_eq_trans) simp
  have sm: "take (i + m) (spliced L b i es) = take (i + m) T"
    "spliced L b i es = L \<or> spliced L b i es = take (i + m) T"
    by (rule spliced_matches [OF prev i es m b(1) base]; rule matching; assumption)+
  have "spliced L b i es \<noteq> L" using sm(1) False by metis
  then have "spliced L b i es = take (i + m) T" using sm(2) by blast
  with False show ?thesis by (simp only: synced_def if_False)
qed

text \<open>A leader of this or a later term holds everything a node has committed.\<close>

lemma commit_prefix:
  assumes "proto_inv (majority ms) g" "elected g T \<noteq> None" "pt g n \<le> T" "k \<le> pc g n"
  shows "take k (pl g n) = take k (tlog g T)"
  using members.settled_prefix [OF assms(1) pc_settled [OF assms(1,4)] assms(2,3)] .

lemma sim_sync:
  assumes inv: "proto_inv (majority ms) g" and rel: "node_rel ms g n cm" and role: "cm_role cm = Follower"
    and el: "elected g (pt g n) = Some (c, Q)" "c \<noteq> n" and m: "m \<le> length (tlog g (pt g n))"
    and cm': "represents (synced (pl g n) m (tlog g (pt g n))) (cm_log cm')" "cm_inv cm'"
      "cm_id cm' = cm_id cm" "cm_peers cm' = cm_peers cm" "cm_role cm' = Follower"
      "cm_current_term cm' = cm_current_term cm" "cm_voted_for cm' = cm_voted_for cm"
    and k: "cm_commit_index cm' = cm_commit_index cm \<or>
      cm_commit_index cm' \<le> m \<and> (\<exists>t i. t \<le> pt g n \<and> committed (majority ms) g t i \<and> cm_commit_index cm' \<le> i)"
  shows "simulated ms g n cm' (\<lambda>h. (n, pt g n, m) \<in> acks h)"
proof -
  let ?T = "pt g n" and ?k = "cm_commit_index cm'"
  let ?h = "g\<lparr>pl := (pl g)(n := synced (pl g n) m (tlog g ?T)), acks := insert (n, ?T, m) (acks g)\<rparr>"
  have step: "proto_step (majority ms) n g ?h" by (rule sync [OF refl el m])
  show ?thesis
  proof (cases "?k = cm_commit_index cm")
    case True
    with rel cm' have "node_rel ms ?h n cm'" by (simp add: node_rel_def)
    with step show ?thesis by (intro simulatedI [of _ _ _ ?h]) auto
  next
    case False
    with k obtain t i where t: "?k \<le> m" "t \<le> ?T" "committed (majority ms) g t i" "?k \<le> i" by auto
    let ?f = "?h\<lparr>pc := (pc ?h)(n := ?k)\<rparr>"
    have "take ?k (tlog g ?T) = take ?k (tlog g t)"
      using members.leader_completeness [OF inv t(3,2)] el(1) t(4) take_eq_trans by blast
    moreover have "take ?k (pl ?h n) = take ?k (tlog g ?T)"
      using take_eq_trans [OF take_synced [OF m] t(1)] by simp
    ultimately have "take ?k (pl ?h n) = take ?k (tlog ?h t)" by simp
    moreover have "committed (majority ms) ?h t i"
      using members.grows_committed [OF members.step_grows [OF inv step] t(3)] .
    moreover have "?k \<le> length (pl ?h n)"
      using take_synced [OF m, of "pl g n"] m t(1) by (simp, metis le_trans length_take min.absorb2 min.cobounded1)
    ultimately have "proto_step (majority ms) n ?h ?f" using t(2,4) by (intro commit [of ?k ?h n t _ i]) simp_all
    with step have "psteps ms n g ?f" by (meson r_into_rtranclp rtranclp.rtrancl_into_rtrancl)
    moreover have "node_rel ms ?f n cm'" using rel cm' by (simp add: node_rel_def)
    ultimately show ?thesis by (intro simulatedI) auto
  qed
qed

section \<open>Calls and replies\<close>

text \<open>What the calls and replies in flight say of the protocol state.\<close>

definition vote_call_rel :: "proto \<Rightarrow> nat \<Rightarrow> request_vote_args \<Rightarrow> bool" where
  "vote_call_rel g src a \<longleftrightarrow>
     rv_candidate_id a = src \<and> \<not> rv_pre_vote a \<and>
     (\<exists>C. clog g (rv_term a) src = Some C \<and> rv_last_log_index a = length C \<and>
        rv_last_log_term a = term_of C (length C))"

definition append_call_rel :: "peer list \<Rightarrow> proto \<Rightarrow> nat \<Rightarrow> append_entries_args \<Rightarrow> bool" where
  "append_call_rel ms g src a \<longleftrightarrow>
     (let T = tlog g (ae_term a); i = ae_prev_log_index a; m = length (ae_entries a) in
      (\<exists>Q. elected g (ae_term a) = Some (src, Q)) \<and> i + m \<le> length T \<and>
      ae_entries a = take m (drop i T) \<and> ae_prev_log_term a = term_of T i \<and>
      ae_leader_commit a \<le> i + m \<and>
      (ae_leader_commit a = 0 \<or>
       (\<exists>t j. t \<le> ae_term a \<and> committed (majority ms) g t j \<and> ae_leader_commit a \<le> j)))"

definition install_call_rel :: "peer list \<Rightarrow> proto \<Rightarrow> nat \<Rightarrow> install_snapshot_args \<Rightarrow> bool" where
  "install_call_rel ms g src a \<longleftrightarrow>
     (let T = tlog g (is_term a); i = is_last_included_index a in
      (\<exists>Q. elected g (is_term a) = Some (src, Q)) \<and> 0 < i \<and> i \<le> length T \<and>
      is_last_included_term a = term_of T i \<and>
      (\<exists>t j. t \<le> is_term a \<and> committed (majority ms) g t j \<and> i \<le> j))"

definition append_reply_rel :: "proto \<Rightarrow> nat \<Rightarrow> append_entries_args \<Rightarrow> append_entries_reply \<Rightarrow> bool" where
  "append_reply_rel g p a r \<longleftrightarrow>
     (aer_success r \<longrightarrow> aer_term r = ae_term a \<and>
        (p, ae_term a, ae_prev_log_index a + length (ae_entries a)) \<in> acks g) \<and>
     (\<forall>ci. aer_conflict_index r = Some ci \<longrightarrow> aer_term r = ae_term a \<and> ci \<le> ae_prev_log_index a)"

definition vote_reply_rel :: "proto \<Rightarrow> nat \<Rightarrow> nat \<Rightarrow> request_vote_args \<Rightarrow> request_vote_reply \<Rightarrow> bool" where
  "vote_reply_rel g src p a r \<longleftrightarrow>
     (rvr_vote_granted r \<longrightarrow> rvr_term r = rv_term a \<and> (\<exists>V. ballot g p (rv_term a) = Some (src, V)))"

text \<open>These stay true as history grows.\<close>

lemma vote_call_grows: "members.grows g h \<Longrightarrow> vote_call_rel g src a \<Longrightarrow> vote_call_rel h src a"
  unfolding vote_call_rel_def by (metis members.growsD(3))

lemma vote_reply_grows: "members.grows g h \<Longrightarrow> vote_reply_rel g src p a r \<Longrightarrow> vote_reply_rel h src p a r"
  unfolding vote_reply_rel_def by (metis members.growsD(2))

lemma append_reply_grows: "members.grows g h \<Longrightarrow> append_reply_rel g p a r \<Longrightarrow> append_reply_rel h p a r"
  unfolding append_reply_rel_def by (metis members.growsD(8))

lemma append_call_grows:
  assumes gr: "members.grows g h" and call: "append_call_rel ms g src a"
  shows "append_call_rel ms h src a"
proof -
  let ?T = "tlog g (ae_term a)" and ?T' = "tlog h (ae_term a)" and ?i = "ae_prev_log_index a"
  let ?m = "length (ae_entries a)"
  note c = call [unfolded append_call_rel_def Let_def]
  then obtain Q where el: "elected g (ae_term a) = Some (src, Q)" by blast
  have t: "take (?i + ?m) ?T' = take (?i + ?m) ?T"
    by (rule members.growsD(5) [OF gr]) (use el c in auto)
  have "take ?m (drop ?i ?T') = take ?m (drop ?i ?T)"
    using t by (metis add_diff_cancel_left' drop_take)
  moreover have "term_of ?T' ?i = term_of ?T ?i" using term_of_take_eq [OF t] by simp
  moreover have "?i + ?m \<le> length ?T'" using members.growsD(6) [OF gr, of "ae_term a"] el c by auto
  moreover have "elected h (ae_term a) = Some (src, Q)" by (rule members.growsD(4) [OF gr el])
  ultimately show ?thesis
    using c members.grows_committed [OF gr] unfolding append_call_rel_def Let_def by metis
qed

lemma install_call_grows:
  assumes gr: "members.grows g h" and call: "install_call_rel ms g src a"
  shows "install_call_rel ms h src a"
proof -
  let ?T = "tlog g (is_term a)" and ?T' = "tlog h (is_term a)" and ?i = "is_last_included_index a"
  note c = call [unfolded install_call_rel_def Let_def]
  then obtain Q where el: "elected g (is_term a) = Some (src, Q)" by blast
  have "term_of ?T' ?i = term_of ?T ?i"
    by (rule term_of_take_eq [OF members.growsD(5) [OF gr]]) (use el c in auto)
  moreover have "?i \<le> length ?T'" using members.growsD(6) [OF gr, of "is_term a"] el c by auto
  moreover have "elected h (is_term a) = Some (src, Q)" by (rule members.growsD(4) [OF gr el])
  ultimately show ?thesis
    using c members.grows_committed [OF gr] unfolding install_call_rel_def Let_def by metis
qed

lemma append_conflict_rel:
  assumes "represents L (cm_log cm)" "\<not> consistent_at prev pterm cm"
    and "aer_conflict_index (append_conflict prev cm) = Some ci"
  shows "ci \<le> prev"
proof -
  have base: "lg_snapshot_index (cm_log cm) < prev"
    using assms(2) by (simp add: consistent_at_def split: if_splits)
  show ?thesis
  proof (cases "prev \<le> length L")
    case True
    then have t: "term_at (cm_log cm) prev = Some (term_of L prev)"
      using base rlog.termAt [OF assms(1)] by simp
    with assms(3) have "first_index_of_term (cm_log cm) (term_of L prev) = Some ci"
      by (simp add: append_conflict_def)
    with first_index_of_term_spec [OF assms(1)] base show ?thesis by (metis linorder_not_le)
  next
    case False
    then have "term_at (cm_log cm) prev = None" using rlog.termAt [OF assms(1)] by simp
    with assms(3) False rlog.lastIndex [OF assms(1)] show ?thesis by (simp add: append_conflict_def)
  qed
qed

text \<open>The hypothesis of the local invariant holds of every message a leader sends.\<close>

lemma append_call_safe:
  assumes inv: "proto_inv (majority ms) g" and rel: "node_rel ms g n cm"
    and call: "append_call_rel ms g src a" and T: "pt g n \<le> ae_term a"
  shows "op_safe (HandleAppendEntries rng now a) cm"
  unfolding op_safe.simps Let_def
proof (intro allI impI, elim conjE)
  fix j assume j: "j < length (ae_entries a)"
    and i: "lg_snapshot_index (cm_log cm) < ae_prev_log_index a + Suc j"
      "ae_prev_log_index a + Suc j \<le> cm_commit_index cm"
  let ?T = "tlog g (ae_term a)" and ?i = "ae_prev_log_index a + Suc j"
  note c = call [unfolded append_call_rel_def Let_def]
  have pc: "?i \<le> pc g n" "pc g n \<le> length (pl g n)"
    using i(2) node_relD(9) [OF rel] pc_length [OF inv] by auto
  have "take ?i (pl g n) = take ?i ?T"
    by (rule commit_prefix [OF inv _ T pc(1)]) (use c in auto)
  then have "term_of (pl g n) ?i = term_of ?T ?i" by (rule term_of_take_eq) simp
  also have "\<dots> = le_term (take (length (ae_entries a)) (drop (ae_prev_log_index a) ?T) ! j)"
    using conjunct1 [OF conjunct2 [OF c]] j by simp
  also have "\<dots> = le_term (ae_entries a ! j)"
    using conjunct1 [OF conjunct2 [OF conjunct2 [OF c]]] by (rule arg_cong [OF sym])
  finally show "term_at (cm_log cm) ?i = Some (le_term (ae_entries a ! j))"
    using rlog.termAt [OF node_relD(8) [OF rel]] i(1) pc by simp
qed

lemma sim_accept_entries:
  assumes inv: "proto_inv (majority ms) g" and rel: "node_rel ms g n cm" and role: "cm_role cm = Follower"
    and call: "append_call_rel ms g src a" and src: "src \<noteq> n" and T: "pt g n = ae_term a"
    and con: "consistent_at (ae_prev_log_index a) (ae_prev_log_term a) cm"
  shows "simulated ms g n (accept_entries a cm)
    (\<lambda>h. (n, ae_term a, ae_prev_log_index a + length (ae_entries a)) \<in> acks h)"
proof -
  let ?L = "pl g n" and ?T = "tlog g (ae_term a)" and ?i = "ae_prev_log_index a"
  let ?m = "length (ae_entries a)" and ?b = "lg_snapshot_index (cm_log cm)"
  note c = call [unfolded append_call_rel_def Let_def]
  from c obtain Q where el: "elected g (ae_term a) = Some (src, Q)" by blast
  note rep = node_relD(8) [OF rel]
  have b: "?b \<le> length ?L" "?b \<le> pc g n"
    using rlog.base_le [OF rep] cm_invD(3,4) [OF node_relD(5) [OF rel]] node_relD(9) [OF rel] by auto
  have base: "take ?b ?L = take ?b ?T"
    by (rule commit_prefix [OF inv _ _ b(2)]) (use el T in auto)
  have ok: "log_ok g ?L" "log_ok g ?T"
    using members.node_log_ok [OF inv] tlog_ok [OF proto_invD(3) [OF inv]] el by auto
  have prev: "?i \<le> length ?L \<and> take ?i ?L = take ?i ?T"
  proof (cases "?i \<le> ?b")
    case True
    with base b show ?thesis using take_eq_trans by (metis le_trans)
  next
    case False
    with con have "?i \<le> length ?L" "term_of ?L ?i = term_of ?T ?i"
      using c by (auto simp: consistent_at_def rlog.termAt [OF rep] split: if_splits)
    with log_matching [OF ok] c show ?thesis by simp
  qed
  have sp: "spliced ?L ?b ?i (ae_entries a) = synced ?L (?i + ?m) ?T"
    by (rule spliced_synced) (use prev c b base log_matching [OF ok] in auto)
  have r: "represents (synced ?L (?i + ?m) ?T) (cm_log (accept_entries a cm))"
    using splice_repr [OF rep, of ?i "ae_entries a"] prev sp by simp
  have len: "?i + ?m \<le> last_index (cm_log (accept_entries a cm))"
    using rlog.lastIndex [OF r] take_synced [of "?i + ?m" ?T ?L] c
    by (metis length_take min.absorb2 min.cobounded1)
  have safe: "op_safe (HandleAppendEntries rng now a) cm" for rng now
    using append_call_safe [OF inv rel call] T by simp
  have "simulated ms g n (accept_entries a cm) (\<lambda>h. (n, pt g n, ?i + ?m) \<in> acks h)"
  proof (rule sim_sync [OF inv rel role, of src Q])
    show "cm_inv (accept_entries a cm)"
      by (rule accept_entries_inv [OF node_relD(5) [OF rel] con safe])
    show "cm_commit_index (accept_entries a cm) = cm_commit_index cm \<or>
      cm_commit_index (accept_entries a cm) \<le> ?i + ?m \<and>
      (\<exists>t j. t \<le> pt g n \<and> committed (majority ms) g t j \<and> cm_commit_index (accept_entries a cm) \<le> j)"
      using c T len by (auto simp: min_def)
  qed (use el src c T r role in auto)
  with T show ?thesis by simp
qed

lemma sim_append_entries:
  assumes inv: "proto_inv (majority ms) g" and rel: "node_rel ms g n cm"
    and call: "append_call_rel ms g src a" and src: "src \<noteq> n"
  shows "simulated ms g n (fst (handle_append_entries rng now a cm))
    (\<lambda>h. append_reply_rel h n a (snd (handle_append_entries rng now a cm)))"
proof (rule append_entries_cases [of a cm rng now])
  assume "handle_append_entries rng now a cm = (cm, append_reply_rejected (cm_current_term cm))"
  with rel show ?thesis by (auto simp: append_reply_rel_def intro: simulated_refl)
next
  let ?y = "yield_to_leader rng now (ae_term a) (ae_leader_id a) cm"
  assume t: "cm_current_term cm \<le> ae_term a"
    and con: "\<not> consistent_at (ae_prev_log_index a) (ae_prev_log_term a) cm"
    and res: "handle_append_entries rng now a cm = (?y, append_conflict (ae_prev_log_index a) ?y)"
  have "append_reply_rel h n a (append_conflict (ae_prev_log_index a) ?y)" for h
    using append_conflict_rel [of "pl g n" ?y] node_relD(8) [OF rel] con t
    by (auto simp: append_reply_rel_def) (auto simp: append_conflict_def max_absorb1 split: option.splits)
  moreover have "simulated ms g n ?y (\<lambda>h. pt h n = ae_term a \<and> pl h n = pl g n \<and> pc h n = pc g n)"
    using sim_yield [OF inv rel] t node_relD(6) [OF rel] by simp
  ultimately show ?thesis
    unfolding res fst_conv snd_conv by (rule simulated_weaken [rotated])
next
  let ?y = "yield_to_leader rng now (ae_term a) (ae_leader_id a) cm"
  assume t: "cm_current_term cm \<le> ae_term a"
    and con: "consistent_at (ae_prev_log_index a) (ae_prev_log_term a) cm"
    and res: "handle_append_entries rng now a cm = (accept_entries a ?y, append_reply_success (ae_term a))"
  have y: "simulated ms g n ?y (\<lambda>h. pt h n = ae_term a \<and> pl h n = pl g n \<and> pc h n = pc g n)"
    using sim_yield [OF inv rel] t node_relD(6) [OF rel] by simp
  have "simulated ms g n (accept_entries a ?y)
    (\<lambda>h. (n, ae_term a, ae_prev_log_index a + length (ae_entries a)) \<in> acks h)"
  proof (rule simulated_trans [OF inv y])
    fix h assume h: "psteps ms n g h" "proto_inv (majority ms) h" "node_rel ms h n ?y"
      "pt h n = ae_term a \<and> pl h n = pl g n \<and> pc h n = pc g n"
    have "append_call_rel ms h src a"
      using append_call_grows [OF members.steps_grows [OF h(1) inv] call] .
    then show "simulated ms h n (accept_entries a ?y)
      (\<lambda>h. (n, ae_term a, ae_prev_log_index a + length (ae_entries a)) \<in> acks h)"
      using sim_accept_entries [OF h(2,3) _ _ src] h(4) con by simp
  qed
  then show ?thesis
    unfolding res fst_conv snd_conv
    by (rule simulated_weaken) (simp add: append_reply_rel_def append_reply_success_def)
qed

lemma sim_install_image:
  assumes inv: "proto_inv (majority ms) g" and rel: "node_rel ms g n cm" and role: "cm_role cm = Follower"
    and call: "install_call_rel ms g src a" and src: "src \<noteq> n" and T: "pt g n = is_term a"
    and new: "cm_commit_index cm < is_last_included_index a"
  shows "simulated ms g n (install_image a cm) (\<lambda>h. True)"
proof -
  let ?L = "pl g n" and ?T = "tlog g (is_term a)" and ?i = "is_last_included_index a"
  note c = call [unfolded install_call_rel_def Let_def]
  from c obtain Q where el: "elected g (is_term a) = Some (src, Q)" by blast
  note rep = node_relD(8) [OF rel]
  have ok: "log_ok g ?L" "log_ok g ?T"
    using members.node_log_ok [OF inv] tlog_ok [OF proto_invD(3) [OF inv]] el by auto
  have i: "?i \<le> length ?T" "is_last_included_term a = term_of ?T ?i" using c by auto
  have r: "represents (synced ?L ?i ?T) (cm_log (install_image a cm))"
  proof (cases "take ?i ?L = take ?i ?T")
    case True
    have "?i \<le> length ?L" by (rule take_eq_length [OF True [symmetric] i(1)])
    moreover have "term_of ?L ?i = term_of ?T ?i" by (rule term_of_take_eq [OF True order_refl])
    ultimately have "represents ?L (cm_log (install_image a cm))"
      using rlog.compact_keep [OF rep, of ?i "is_last_included_term a"] i(2) by simp
    with True show ?thesis by (simp only: synced_def refl if_True)
  next
    case False
    then have "length ?L < ?i \<or> term_of ?L ?i \<noteq> term_of ?T ?i"
      using log_matching [OF ok _ i(1)] by (meson linorder_not_le)
    moreover have "lg_snapshot_index (cm_log cm) < ?i"
      using cm_invD(3,4) [OF node_relD(5) [OF rel]] new by simp
    ultimately have "represents (take ?i ?T) (cm_log (install_image a cm))"
      using rlog.compact_replace [OF rep, of "take ?i ?T"] i by (simp add: term_of_take min_absorb2)
    with False show ?thesis by (simp only: synced_def if_False)
  qed
  have "simulated ms g n (install_image a cm) (\<lambda>h. (n, pt g n, ?i) \<in> acks h)"
    by (rule sim_sync [OF inv rel role, of src Q])
      (use el src c T r role install_image_inv [OF node_relD(5) [OF rel] new] in auto)
  then show ?thesis by (rule simulated_weaken) simp
qed

lemma sim_install_snapshot:
  assumes inv: "proto_inv (majority ms) g" and rel: "node_rel ms g n cm"
    and call: "install_call_rel ms g src a" and src: "src \<noteq> n"
  shows "simulated ms g n (fst (handle_install_snapshot rng now a cm)) (\<lambda>h. True)"
proof (rule install_snapshot_cases [of a cm rng now])
  assume "handle_install_snapshot rng now a cm = (cm, \<lparr>isr_term = cm_current_term cm\<rparr>)"
  with rel show ?thesis by (auto intro: simulated_refl)
next
  let ?y = "yield_to_leader rng now (is_term a) (is_leader_id a) cm"
  assume "cm_current_term cm \<le> is_term a"
    and res: "handle_install_snapshot rng now a cm = (?y, \<lparr>isr_term = is_term a\<rparr>)"
  then have "simulated ms g n ?y (\<lambda>h. pt h n = is_term a \<and> pl h n = pl g n \<and> pc h n = pc g n)"
    using sim_yield [OF inv rel] node_relD(6) [OF rel] by simp
  then show ?thesis unfolding res fst_conv by (rule simulated_weaken) simp
next
  let ?y = "yield_to_leader rng now (is_term a) (is_leader_id a) cm"
  assume t: "cm_current_term cm \<le> is_term a" and new: "cm_commit_index cm < is_last_included_index a"
    and res: "handle_install_snapshot rng now a cm = (install_image a ?y, \<lparr>isr_term = is_term a\<rparr>)"
  have y: "simulated ms g n ?y (\<lambda>h. pt h n = is_term a \<and> pl h n = pl g n \<and> pc h n = pc g n)"
    using sim_yield [OF inv rel] t node_relD(6) [OF rel] by simp
  have "simulated ms g n (install_image a ?y) (\<lambda>h. True)"
  proof (rule simulated_trans [OF inv y])
    fix h assume h: "psteps ms n g h" "proto_inv (majority ms) h" "node_rel ms h n ?y"
      "pt h n = is_term a \<and> pl h n = pl g n \<and> pc h n = pc g n"
    have "install_call_rel ms h src a"
      using install_call_grows [OF members.steps_grows [OF h(1) inv] call] .
    then show "simulated ms h n (install_image a ?y) (\<lambda>h. True)"
      using sim_install_image [OF h(2,3) _ _ src] h(4) new by simp
  qed
  then show ?thesis by (simp add: res)
qed

lemma sim_request_vote:
  assumes inv: "proto_inv (majority ms) g" and rel: "node_rel ms g n cm"
    and call: "vote_call_rel g src a" and src: "src \<noteq> n"
  shows "simulated ms g n (fst (handle_request_vote rng now a cm))
    (\<lambda>h. vote_reply_rel h src n a (snd (handle_request_vote rng now a cm)))"
proof -
  let ?y = "adopt_newer_term (rv_term a) cm"
  from call obtain C where C: "clog g (rv_term a) src = Some C" "rv_last_log_index a = length C"
    "rv_last_log_term a = term_of C (length C)" and a: "rv_candidate_id a = src" "\<not> rv_pre_vote a"
    by (auto simp: vote_call_rel_def)
  have y: "simulated ms g n ?y (\<lambda>h. pt h n = max (rv_term a) (pt g n) \<and> pl h n = pl g n)"
    by (rule sim_adopt [OF inv rel])
  show ?thesis
  proof (rule request_vote_cases [of a rng now cm])
    assume t: "cm_current_term cm \<le> rv_term a"
      and free: "cm_voted_for ?y \<in> {None, Some (rv_candidate_id a)}"
      and up: "log_is_up_to_date (rv_last_log_index a) (rv_last_log_term a) cm"
      and res: "handle_request_vote rng now a cm =
        (grant_vote rng now (rv_candidate_id a) ?y, \<lparr>rvr_term = rv_term a, rvr_vote_granted = True\<rparr>)"
    have "simulated ms g n (grant_vote rng now src ?y) (\<lambda>h. \<exists>V. ballot h n (rv_term a) = Some (src, V))"
    proof (rule simulated_trans [OF inv y])
      fix h assume h: "psteps ms n g h" "proto_inv (majority ms) h" "node_rel ms h n ?y"
        "pt h n = max (rv_term a) (pt g n) \<and> pl h n = pl g n"
      have pt: "pt h n = rv_term a" using h(4) t node_relD(6) [OF rel] by simp
      have role: "cm_role ?y = Follower"
      proof (rule ccontr)
        assume "cm_role ?y \<noteq> Follower"
        from cm_invD(7) [OF node_relD(5) [OF h(3)] this] node_relD(3) [OF h(3)] free a(1) src
        show False by auto
      qed
      have clog: "clog h (pt h n) src = Some C"
        using members.growsD(3) [OF members.steps_grows [OF h(1) inv] C(1)] pt by simp
      have "up_to_date C (pl h n)"
        using up C(2,3) up_to_date_repr [OF node_relD(8) [OF rel]] h(4) by simp
      with sim_grant [OF h(2,3) role _ clog] free a(1) pt
      show "simulated ms h n (grant_vote rng now src ?y) (\<lambda>h. \<exists>V. ballot h n (rv_term a) = Some (src, V))"
        by simp
    qed
    then show ?thesis unfolding res fst_conv snd_conv a(1)
      by (rule simulated_weaken) (simp add: vote_reply_rel_def)
  next
    assume res: "handle_request_vote rng now a cm =
      (?y, \<lparr>rvr_term = rv_term a, rvr_vote_granted = False\<rparr>)"
    from y show ?thesis unfolding res fst_conv snd_conv
      by (rule simulated_weaken) (simp add: vote_reply_rel_def)
  qed (use a rel in \<open>auto simp: vote_reply_rel_def intro: simulated_refl\<close>)
qed

section \<open>The remaining methods\<close>

lemma sim_pre_vote_call: "rv_pre_vote a \<Longrightarrow> fst (handle_request_vote rng now a cm) = cm"
  by (simp add: handle_request_vote_def Let_def)

lemma sim_start_pre_election:
  assumes "node_rel ms g n cm"
  shows "node_rel ms g n (fst (start_pre_election rng now cm))"
proof -
  have "cm_inv (fst (start_pre_election rng now cm))"
    using exec_inv [of cm "StartPreElection rng now"] node_relD(5) [OF assms] by simp
  then show ?thesis
    by (rule node_rel_same [OF assms]) (simp_all add: start_pre_election_def Let_def)
qed

lemma sim_record_pre_vote:
  assumes inv: "proto_inv (majority ms) g" and rel: "node_rel ms g n cm"
  shows "simulated ms g n (record_pre_vote_reply p r cm) (\<lambda>h. True)"
proof -
  have "node_rel ms g n (cm\<lparr>cm_pre_votes := insert p (cm_pre_votes cm)\<rparr>)"
    by (rule node_rel_same [OF rel]) (use node_relD(5) [OF rel] in \<open>auto simp: cm_inv_def\<close>)
  then show ?thesis
    using rel sim_depose [OF inv rel] unfolding record_pre_vote_reply_def
    by (auto intro: simulated_refl)
qed

lemma sim_take_applies:
  assumes "node_rel ms g n cm" "take_applies cm = Some (cm', items)"
  shows "node_rel ms g n cm'"
proof -
  have "cm_inv cm'"
    using exec_inv [of cm TakeApplies cm'] node_relD(5) [OF assms(1)] assms(2) by simp
  moreover have "cm' = cm\<lparr>cm_pending_snapshot := None, cm_last_applied := cm_commit_index cm\<rparr>"
    using take_applies_inv [OF node_relD(5,8) [OF assms(1)]] assms(2) by simp
  ultimately show ?thesis by (intro node_rel_same [OF assms(1)]) simp_all
qed

lemma sim_take_snapshot:
  assumes rel: "node_rel ms g n cm" and "cm_take_snapshot i data cm = Some cm'"
  shows "node_rel ms g n cm'"
proof -
  note inv = node_relD(5) [OF rel] and rep = node_relD(8) [OF rel]
  have inv': "cm_inv cm'" by (rule take_snapshot_keeps_inv [OF inv assms(2)])
  have cm': "cm' = (if lg_snapshot_index (cm_log cm) < i \<and> i \<le> cm_last_applied cm
      then persist (cm\<lparr>cm_log := compact (cm_log cm) i (term_of (pl g n) i), cm_snapshot := Some data\<rparr>)
      else cm)"
    using take_snapshot_inv [OF inv rep] assms(2) by simp
  show ?thesis
  proof (cases "lg_snapshot_index (cm_log cm) < i \<and> i \<le> cm_last_applied cm")
    case True
    then have "i \<le> length (pl g n)" using cm_invD(4,5) [OF inv] rlog.lastIndex [OF rep] by simp
    then have "represents (pl g n) (compact (cm_log cm) i (term_of (pl g n) i))"
      using rlog.compact_keep [OF rep] by simp
    moreover have "lg_snapshot_index (cm_log cm) \<le> lg_snapshot_index (cm_log cm')"
      using True cm' by (simp add: compact_snapshot_index)
    ultimately show ?thesis
      using True rel inv' cm' cand_rel_votes [of cm' cm] lead_rel_cursors [of g n cm cm'] by (simp add: node_rel_def)
  next
    case False
    then have "cm' = cm" using cm' by (simp only: if_False)
    with rel show ?thesis by simp
  qed
qed

lemma sim_restart:
  assumes inv: "proto_inv (majority ms) g" and rel: "node_rel ms g n cm"
    and start: "cm_new rng n (peers_of ms n) (cm_storage cm) tim now = Inr cm'" and disk: "mirrored cm"
  shows "simulated ms g n cm' (\<lambda>h. True)"
proof -
  let ?b = "lg_snapshot_index (cm_log cm)"
  let ?h = "g\<lparr>pc := (pc g)(n := ?b)\<rparr>"
  have load: "storage_load (cm_storage cm) = Inr (persistent_of cm)" using disk by (simp add: mirrored_def)
  have "?b \<le> pc g n"
    using cm_invD(3,4) [OF node_relD(5) [OF rel]] node_relD(9) [OF rel] by simp
  then have "psteps ms n g ?h" using forget by blast
  moreover have "cm_inv cm'"
    by (rule cm_new_inv [OF start load])
      (use cm_invD(1,2) [OF node_relD(5) [OF rel]] in \<open>auto simp: persistent_of_def\<close>)
  then have "node_rel ms ?h n cm'"
    using start rel load by (auto simp: node_rel_def cm_new_def Let_def persistent_of_def)
  ultimately show ?thesis by (intro simulatedI) auto
qed

end
