(* ===== verification/Raft_Safety.thy ===== *)
theory Raft_Safety
  imports Raft_Simulation
begin

text \<open>
  Every reachable state of the cluster is related to a state of the abstract protocol, so
  the protocol's guarantees hold of the nodes the code runs: one leader per term, matching
  logs, complete leaders, and state machines that never apply different commands at the
  same index. Along the way: no node ever panics.
\<close>

section \<open>The cluster invariant\<close>

definition snap_of :: "'s cluster \<Rightarrow> nat \<Rightarrow> nat" where
  "snap_of c n = lg_snapshot_index (cm_log (core_of c n))"

fun call_rel :: "peer list \<Rightarrow> proto \<Rightarrow> (nat \<Rightarrow> nat) \<Rightarrow> nat \<Rightarrow> call \<Rightarrow> bool" where
  "call_rel ms g snap src (CallPreVote p a) \<longleftrightarrow> rv_pre_vote a"
| "call_rel ms g snap src (CallVote p a) \<longleftrightarrow> vote_call_rel g src a"
| "call_rel ms g snap src (CallAppend p a) \<longleftrightarrow> append_call_rel ms g src a"
| "call_rel ms g snap src (CallInstall p a) \<longleftrightarrow>
     install_call_rel ms g src a \<and> is_last_included_index a \<le> snap src"

fun reply_rel :: "proto \<Rightarrow> nat \<Rightarrow> call \<Rightarrow> reply \<Rightarrow> bool" where
  "reply_rel g src (CallVote p a) (VoteReply r) \<longleftrightarrow> vote_reply_rel g src p a r"
| "reply_rel g src (CallAppend p a) (AppendReply r) \<longleftrightarrow> append_reply_rel g p a r"
| "reply_rel g src _ _ \<longleftrightarrow> True"

definition routed :: "peer list \<Rightarrow> nat \<Rightarrow> call \<Rightarrow> bool" where
  "routed ms src cl \<longleftrightarrow> src \<in> ids ms \<and> call_dst cl \<in> ids ms \<and> call_dst cl \<noteq> src"

definition cluster_rel :: "peer list \<Rightarrow> proto \<Rightarrow> 's cluster \<Rightarrow> bool" where
  "cluster_rel ms g c \<longleftrightarrow>
     proto_inv (majority ms) g \<and>
     (\<forall>n \<in> ids ms. node_rel ms g n (core_of c n) \<and> nd_peer_ids (cl_node c n) = peers_of ms n) \<and>
     (\<forall>src cl. (src, cl) \<in> cl_calls c \<longrightarrow> routed ms src cl \<and> call_rel ms g (snap_of c) src cl) \<and>
     (\<forall>src cl r. (src, cl, r) \<in> cl_replies c \<longrightarrow> (src, cl) \<in> cl_calls c \<and> reply_rel g src cl r)"

lemma cluster_relD:
  assumes "cluster_rel ms g c"
  shows "proto_inv (majority ms) g"
    and "n \<in> ids ms \<Longrightarrow> node_rel ms g n (core_of c n)"
    and "n \<in> ids ms \<Longrightarrow> nd_peer_ids (cl_node c n) = peers_of ms n"
    and "(src, cl) \<in> cl_calls c \<Longrightarrow> routed ms src cl"
    and "(src, cl) \<in> cl_calls c \<Longrightarrow> call_rel ms g (snap_of c) src cl"
    and "(src, cl, r) \<in> cl_replies c \<Longrightarrow> (src, cl) \<in> cl_calls c"
    and "(src, cl, r) \<in> cl_replies c \<Longrightarrow> reply_rel g src cl r"
  using assms by (auto simp: cluster_rel_def)

lemma call_rel_mono:
  assumes "call_rel ms g snap src cl" "members.grows g h" "snap src \<le> snap' src"
  shows "call_rel ms h snap' src cl"
  using assms vote_call_grows append_call_grows install_call_grows
  by (cases cl) (auto intro: le_trans)

lemma call_rel_snap: "snap src = snap' src \<Longrightarrow> call_rel ms g snap src cl = call_rel ms g snap' src cl"
  by (cases cl) auto

lemma reply_rel_mono: "reply_rel g src cl r \<Longrightarrow> members.grows g h \<Longrightarrow> reply_rel h src cl r"
  by (cases cl; cases r) (auto intro: vote_reply_grows append_reply_grows)

text \<open>One node moves, some of its calls and some replies appear.\<close>

lemma cluster_rel_update:
  assumes rel: "cluster_rel ms g c" and n: "n \<in> ids ms" and steps: "psteps ms n g h"
    and node: "node_rel ms h n (nd_core nd)" "nd_peer_ids nd = peers_of ms n"
    and snap: "snap_of c n \<le> lg_snapshot_index (cm_log (nd_core nd))"
    and c': "cl_node c' = (cl_node c)(n := nd)"
    and calls: "cl_calls c \<subseteq> cl_calls c'"
      "\<And>src cl. (src, cl) \<in> cl_calls c' - cl_calls c \<Longrightarrow> routed ms src cl \<and> call_rel ms h (snap_of c') src cl"
    and replies: "\<And>src cl r. (src, cl, r) \<in> cl_replies c' - cl_replies c \<Longrightarrow>
      (src, cl) \<in> cl_calls c' \<and> reply_rel h src cl r"
  shows "cluster_rel ms h c'"
proof -
  note R = cluster_relD [OF rel]
  have gr: "members.grows g h" by (rule members.steps_grows [OF steps R(1)])
  have mono: "snap_of c src \<le> snap_of c' src" for src
    using snap by (simp add: snap_of_def core_of_def c')
  show ?thesis
    unfolding cluster_rel_def
  proof (intro conjI allI impI ballI)
    show "proto_inv (majority ms) h" by (rule members.steps_inv [OF steps R(1)])
    fix v assume v: "v \<in> ids ms"
    show "node_rel ms h v (core_of c' v)"
      using node(1) node_rel_other [OF R(1) R(2) [OF v] steps]
      by (cases "v = n") (simp_all add: core_of_def c')
    show "nd_peer_ids (cl_node c' v) = peers_of ms v"
      using node(2) R(3) [OF v] by (cases "v = n") (simp_all add: c')
  next
    fix src cl assume cl: "(src, cl) \<in> cl_calls c'"
    show "routed ms src cl" using cl calls(2) [of src cl] R(4) by blast
    show "call_rel ms h (snap_of c') src cl"
      using cl calls(2) [of src cl] call_rel_mono [where snap' = "snap_of c'", OF R(5) gr] mono by blast
  next
    fix src cl r assume r: "(src, cl, r) \<in> cl_replies c'"
    show "(src, cl) \<in> cl_calls c'" using r replies [of src cl r] R(6) calls(1) by blast
    show "reply_rel h src cl r" using r replies [of src cl r] reply_rel_mono [OF R(7) gr] by blast
  qed
qed

section \<open>What a leader sends\<close>

lemma splice_entries_base [simp]:
  "lg_snapshot_index (splice_entries l i es) = lg_snapshot_index l"
  by (induction l i es rule: splice_entries.induct)
    (auto simp: Let_def rlog.append_base rlog.truncate_base split: option.splits)

lemma exec_snapshot_mono:
  assumes "cm_exec op cm = Some cm'"
  shows "lg_snapshot_index (cm_log cm) \<le> lg_snapshot_index (cm_log cm')"
  using assms
  by (cases op) (auto simp: method_defs Let_def compact_snapshot_index log_append_def
      split: if_splits option.splits prod.splits)

lemma leader_commit_covered:
  assumes inv: "proto_inv (majority ms) g" and k: "k \<le> pc g n" "0 < k"
  shows "\<exists>t i. t \<le> pt g n \<and> committed (majority ms) g t i \<and> k \<le> i"
  using pc_settled [OF inv k(1)] k(2) unfolding settled_def by blast

lemma append_args_rel:
  assumes inv: "proto_inv (majority ms) g" and rel: "node_rel ms g n cm" and role: "cm_role cm = Leader"
    and need: "\<not> needs_snapshot cm p"
  shows "append_call_rel ms g n (append_args_for cm p)"
proof -
  let ?nx = "lookup_or (cm_next_index cm) p (last_index (cm_log cm) + 1)" and ?L = "pl g n"
  note rep = node_relD(8) [OF rel] and li = node_relD(5) [OF rel]
  have lead: "lead_rel g n cm" by (rule node_relD(11) [OF rel role])
  have len: "last_index (cm_log cm) = length ?L" by (rule rlog.lastIndex [OF rep])
  have base: "lg_snapshot_index (cm_log cm) \<le> length ?L" by (rule rlog.base_le [OF rep])
  have nx: "?nx \<le> Suc (length ?L)"
    using lead len by (auto simp: lead_rel_def lookup_or_def split: option.splits)
  have above: "lg_snapshot_index (cm_log cm) \<le> ?nx - 1"
    using need role cm_invD(2) [OF li] base len
    by (auto simp: needs_snapshot_def lookup_or_def split: option.splits)
  have es: "entries_after (cm_log cm) (?nx - 1) = drop (?nx - 1) ?L"
    using rlog.entriesAfter [OF rep] above by (simp add: max_absorb1)
  have pterm: "term_at (cm_log cm) (?nx - 1) = Some (term_of ?L (?nx - 1))"
    using rlog.termAt [OF rep] above nx by simp
  have pc: "pc g n \<le> length ?L" by (rule pc_length [OF inv])
  show ?thesis
    unfolding append_call_rel_def Let_def append_args_for_def
    using lead es pterm nx pc node_relD(6,9) [OF rel] leader_commit_covered [OF inv, of "pc g n" n]
    by (auto simp: lead_rel_def)
qed

lemma install_args_rel:
  assumes inv: "proto_inv (majority ms) g" and rel: "node_rel ms g n cm" and role: "cm_role cm = Leader"
    and need: "needs_snapshot cm p"
  shows "install_call_rel ms g n (install_snapshot_args cm p)"
proof -
  let ?b = "lg_snapshot_index (cm_log cm)"
  note rep = node_relD(8) [OF rel] and li = node_relD(5) [OF rel]
  have lead: "lead_rel g n cm" by (rule node_relD(11) [OF rel role])
  have "1 \<le> lookup_or (cm_next_index cm) p 1"
    using cm_invD(6) [OF li] by (auto simp: lookup_or_def split: option.splits)
  then have pos: "0 < ?b" using need by (auto simp: needs_snapshot_def)
  have pc: "?b \<le> pc g n" using cm_invD(3,4) [OF li] node_relD(9) [OF rel] by simp
  show ?thesis
    unfolding install_call_rel_def Let_def install_snapshot_args_def
    using lead pos rlog.base_le [OF rep] representsD(3) [OF rep] node_relD(6) [OF rel]
      leader_commit_covered [OF inv pc pos]
    by (auto simp: lead_rel_def)
qed

section \<open>Each step refines the protocol\<close>

lemma serve_call_op: "\<exists>op. cm_exec op core = Some (fst (serve_call rng now cl core))"
proof (cases cl)
  case (CallPreVote p a)
  then show ?thesis
    by (intro exI [of _ "HandleRequestVote rng now a"]) (simp add: service_request_vote_def Let_def case_prod_beta)
next
  case (CallVote p a)
  then show ?thesis
    by (intro exI [of _ "HandleRequestVote rng now a"]) (simp add: service_request_vote_def Let_def case_prod_beta)
next
  case (CallAppend p a)
  then show ?thesis
    by (intro exI [of _ "HandleAppendEntries rng now a"]) (simp add: service_append_entries_def Let_def case_prod_beta)
next
  case (CallInstall p a)
  then show ?thesis
    by (intro exI [of _ "HandleInstallSnapshot rng now a"]) (simp add: service_install_snapshot_def Let_def case_prod_beta)
qed

lemma fold_reply_op: "fold_reply cl r core = core \<or> (\<exists>op. cm_exec op core = Some (fold_reply cl r core))"
proof (cases cl; cases r)
  fix p a x assume "cl = CallPreVote p a" "r = VoteReply x"
  then show ?thesis by (intro disjI2 exI [of _ "RecordPreVoteReply p x"]) simp
next
  fix p a x assume "cl = CallVote p a" "r = VoteReply x"
  then show ?thesis by (intro disjI2 exI [of _ "RecordVoteReply p x"]) simp
next
  fix p a x assume "cl = CallAppend p a" "r = AppendReply x"
  then show ?thesis
    by (intro disjI2 exI [of _ "HandleAppendReply p x (ae_prev_log_index a + length (ae_entries a))"]) simp
next
  fix p a x assume "cl = CallInstall p a" "r = InstallReply x"
  then show ?thesis
    by (intro disjI2 exI [of _ "HandleInstallSnapshotReply p x (is_last_included_index a)"]) simp
qed simp_all

lemma serve_sim:
  assumes inv: "proto_inv (majority ms) g" and rel: "node_rel ms g n cm"
    and call: "call_rel ms g snap src cl" "call_dst cl = n" "src \<noteq> n"
  shows "simulated ms g n (fst (serve_call rng now cl cm)) (\<lambda>h. reply_rel h src cl (snd (serve_call rng now cl cm)))"
proof (cases cl)
  case (CallPreVote p a)
  with call rel show ?thesis
    by (auto simp: service_request_vote_def Let_def case_prod_beta sim_pre_vote_call intro: simulated_refl)
next
  case (CallVote p a)
  with call sim_request_vote [OF inv rel _ call(3), of a rng now] show ?thesis
    by (simp add: service_request_vote_def Let_def case_prod_beta)
next
  case (CallAppend p a)
  moreover have "append_reply_rel h p a (over_wire r) = append_reply_rel h p a r" for h p r
    by (simp add: append_reply_rel_def)
  ultimately show ?thesis
    using call sim_append_entries [OF inv rel _ call(3), of a rng now]
    by (simp add: service_append_entries_def Let_def case_prod_beta flip: over_wire_def)
next
  case (CallInstall p a)
  with call sim_install_snapshot [OF inv rel _ call(3), of a rng now] show ?thesis
    by (simp add: service_install_snapshot_def Let_def case_prod_beta)
qed

lemma fold_sim:
  assumes inv: "proto_inv (majority ms) g" and rel: "node_rel ms g n cm"
    and call: "call_rel ms g (\<lambda>_. lg_snapshot_index (cm_log cm)) n cl" "call_dst cl \<in> ids ms"
    and reply: "reply_rel g n cl r"
  shows "simulated ms g n (fold_reply cl r cm) (\<lambda>h. True)"
proof (cases cl; cases r)
  fix p a x assume c: "cl = CallPreVote p a" "r = VoteReply x"
  then show ?thesis using sim_record_pre_vote [OF inv rel] by simp
next
  fix p a x assume c: "cl = CallVote p a" "r = VoteReply x"
  have "simulated ms g n (record_vote_reply p x cm) (\<lambda>h. True)"
    by (rule sim_record_vote [OF inv rel]) (use c call reply in \<open>auto simp: vote_reply_rel_def\<close>)
  with c show ?thesis by simp
next
  fix p a x assume c: "cl = CallAppend p a" "r = AppendReply x"
  let ?hint = "ae_prev_log_index a + length (ae_entries a)"
  have ar: "append_reply_rel g p a x" "append_call_rel ms g n a" using c call reply by auto
  have lead: "pl g n = tlog g (pt g n)" if "cm_role cm = Leader"
    using node_relD(11) [OF rel that] by (simp add: lead_rel_def)
  have "simulated ms g n (handle_append_reply p x ?hint cm) (\<lambda>h. True)"
  proof (rule sim_append_reply [OF inv rel])
    assume "aer_term x = pt g n" "aer_success x"
    with ar(1) have "(p, pt g n, ?hint) \<in> acks g" by (simp add: append_reply_rel_def)
    then show "acked g n (lg_snapshot_index (cm_log cm)) p ?hint" by (auto simp: acked_def)
  next
    fix ci assume "aer_term x = pt g n" "cm_role cm = Leader" "aer_conflict_index x = Some ci"
    then show "ci \<le> Suc (length (pl g n))"
      using ar lead by (auto simp: append_reply_rel_def append_call_rel_def Let_def)
  qed
  with c show ?thesis by simp
next
  fix p a x assume c: "cl = CallInstall p a" "r = InstallReply x"
  have "is_last_included_index a \<le> lg_snapshot_index (cm_log cm)" using c call(1) by simp
  from sim_install_reply [OF inv rel this] c show ?thesis by simp
qed (use rel in \<open>auto intro: simulated_refl\<close>)

lemma routedI: "node_rel ms g n cm \<Longrightarrow> p \<in> set (peers_of ms n) \<Longrightarrow> call_dst cl = p \<Longrightarrow> routed ms n cl"
  by (auto simp: routed_def set_peers_of node_rel_def)

lemma map_filter_mem: "y \<in> set (List.map_filter f xs) \<longleftrightarrow> (\<exists>x \<in> set xs. f x = Some y)"
  by (induction xs) (auto simp: map_filter_simps split: option.splits)

lemma message_rel:
  assumes inv: "proto_inv (majority ms) g" and rel: "node_rel ms g n cm" and role: "cm_role cm = Leader"
    and p: "p \<in> set (peers_of ms n)" and m: "message_for due cm p = Some m"
  shows "routed ms n (call_of m) \<and> call_rel ms g (\<lambda>_. lg_snapshot_index (cm_log cm)) n (call_of m)"
  using m append_args_rel [OF inv rel role, of p] install_args_rel [OF inv rel role, of p]
    routedI [OF rel p]
  by (auto simp: message_for_def Let_def install_snapshot_args_def split: if_splits)

text \<open>
  A tick: the node that decided is related again, and every call it spawned says the truth.
\<close>

lemma decide_sim:
  assumes inv: "proto_inv (majority ms) g" and rel: "node_rel ms g n (nd_core d)"
    and peers: "nd_peer_ids d = peers_of ms n" and dec: "decide_step rng now d = (nd, st)"
  shows "nd_peer_ids nd = peers_of ms n \<and>
    simulated ms g n (nd_core nd) (\<lambda>h. \<forall>cl \<in> set (spawn_calls (nd_peer_ids nd) st).
      routed ms n cl \<and> call_rel ms h (\<lambda>_. lg_snapshot_index (cm_log (nd_core nd))) n cl)"
proof -
  let ?cm = "nd_core d"
  consider (lead) "cm_role ?cm = Leader" | (elect) "cm_role ?cm \<noteq> Leader" "pre_vote_succeeded ?cm"
    | (probe) "cm_role ?cm \<noteq> Leader" "\<not> pre_vote_succeeded ?cm" by blast
  then show ?thesis
  proof cases
    case lead
    let ?ms = "List.map_filter (message_for (heartbeat (nd_timing d) \<le> now - nd_last_heartbeat d) ?cm) (nd_peer_ids d)"
    have st: "nd_core nd = ?cm" "nd_peer_ids nd = nd_peer_ids d" "st = StepIdle \<or> st = StepReplicate ?ms"
      using dec lead by (auto simp: decide_step_def is_leader_def Let_def split: if_splits)
    have "\<forall>cl \<in> call_of ` set ?ms. routed ms n cl \<and> call_rel ms g (\<lambda>_. lg_snapshot_index (cm_log ?cm)) n cl"
      using message_rel [OF inv rel lead] peers by (auto simp: map_filter_mem)
    with st rel peers show ?thesis by (auto intro!: simulated_refl)
  next
    case elect
    let ?res = "start_election rng now ?cm"
    have nd: "nd = d\<lparr>nd_core := fst ?res\<rparr>" "st = StepStartElection (snd ?res)"
      using dec elect by (auto simp: decide_step_def is_leader_def Let_def case_prod_beta)
    have args: "rv_candidate_id (snd ?res) = n" "\<not> rv_pre_vote (snd ?res)" "rv_term (snd ?res) = Suc (pt g n)"
      "rv_last_log_index (snd ?res) = length (pl g n)"
      "rv_last_log_term (snd ?res) = term_of (pl g n) (length (pl g n))"
      using node_relD(3,6) [OF rel] rlog.lastIndex [OF node_relD(8) [OF rel]] rlog.lastTerm [OF node_relD(8) [OF rel]]
      by (simp_all add: start_election_def Let_def)
    have "simulated ms g n (fst ?res) (\<lambda>h. \<forall>p \<in> set (peers_of ms n).
      routed ms n (CallVote p (snd ?res)) \<and> vote_call_rel h n (snd ?res))"
      by (rule simulated_weaken [OF sim_start_election [OF inv rel]])
        (use args routedI [OF rel] in \<open>auto simp: vote_call_rel_def\<close>)
    with nd peers show ?thesis by simp
  next
    case probe
    let ?res = "start_pre_election rng now ?cm"
    show ?thesis
    proof (cases "election_timed_out now ?cm")
      case True
      then have nd: "nd = d\<lparr>nd_core := fst ?res\<rparr>" "st = StepStartPreElection (snd ?res)"
        using dec probe by (auto simp: decide_step_def is_leader_def Let_def case_prod_beta)
      have "rv_pre_vote (snd ?res)" by (simp add: start_pre_election_def Let_def)
      with nd peers sim_start_pre_election [OF rel] routedI [OF rel] show ?thesis
        by (auto intro!: simulated_refl)
    next
      case False
      then have "nd = d" "st = StepIdle"
        using dec probe by (auto simp: decide_step_def is_leader_def Let_def)
      with rel peers show ?thesis by (auto intro!: simulated_refl)
    qed
  qed
qed

text \<open>How a step changes a node's core: by one method call, by a restart, or not at all.\<close>

definition core_moves :: "(persistent_state \<Rightarrow> bool) \<Rightarrow> 's consensus_module \<Rightarrow> 's consensus_module \<Rightarrow> bool" where
  "core_moves fits cm cm' \<longleftrightarrow>
     (cm_storage cm' = cm_storage cm \<and> persistent_of cm' = persistent_of cm) \<or>
     (\<exists>op. cm_exec op cm = Some cm') \<and> fits (persistent_of cm') \<or>
     (\<exists>rng nid peers tim now. cm_new rng nid peers (cm_storage cm) tim now = Inr cm')"

lemma core_moves_refl [simp]: "core_moves fits cm cm"
  by (simp add: core_moves_def)

lemma core_moves_exec: "cm_exec op cm = Some cm' \<Longrightarrow> fits (persistent_of cm') \<Longrightarrow> core_moves fits cm cm'"
  by (auto simp: core_moves_def)

lemma decide_op:
  assumes "decide_step rng now d = (nd, st)"
  shows "nd_core nd = nd_core d \<or> (\<exists>op. cm_exec op (nd_core d) = Some (nd_core nd))"
proof -
  have "nd_core nd = nd_core d \<or> nd_core nd = fst (start_election rng now (nd_core d)) \<or>
      nd_core nd = fst (start_pre_election rng now (nd_core d))"
    using assms by (auto simp: decide_step_def Let_def case_prod_beta split: if_splits)
  then show ?thesis by (metis cm_exec.simps(1,2))
qed

lemma step_core_moves:
  assumes "cluster_step fits ms tim c c'"
  shows "core_moves fits (core_of c v) (core_of c' v)"
  using assms
proof (cases rule: cluster_step_cases)
  case (tick n rng now nd st)
  with decide_op [OF tick(4)] core_moves_exec [of _ "core_of c n" "nd_core nd" fits] show ?thesis
    by (auto simp: core_of_def set_node_def)
next
  case (drain n nd)
  then show ?thesis
    by (auto simp: drain_tick_def take_applies_def Let_def core_of_def set_node_def core_moves_def
        persistent_of_eq_iff split: option.splits)
next
  case (propose n command nd res)
  then have "nd_core nd = fst (submit_command command (core_of c n))"
    by (auto simp: node_propose_def core_of_def split: prod.splits)
  then have "cm_exec (SubmitCommand command) (core_of c n) = Some (nd_core nd)" by simp
  from core_moves_exec [OF this] propose show ?thesis by (simp add: core_of_def set_node_def)
next
  case (snapshot n index data nd)
  then have "cm_exec (TakeSnapshot index data) (core_of c n) = Some (nd_core nd)"
    by (auto simp: control_snapshot_def core_of_def)
  from core_moves_exec [OF this] snapshot show ?thesis by (simp add: core_of_def set_node_def)
next
  case (serve src cl n rng now core r)
  then obtain op where "cm_exec op (core_of c n) = Some core"
    using serve_call_op [of "core_of c n" rng now cl] by auto
  from core_moves_exec [OF this] serve show ?thesis by (simp add: core_of_def set_node_def)
next
  case (fold n cl r core)
  with fold_reply_op [of cl r "core_of c n"] core_moves_exec [of _ "core_of c n" core fits] show ?thesis
    by (auto simp: core_of_def set_node_def)
next
  case (kill n)
  then show ?thesis by (simp add: core_of_def set_node_def node_kill_def)
next
  case (restart n rng connect now nd clients)
  from start_node_config(1) [OF restart(4)] have "core_moves fits (core_of c n) (nd_core nd)" unfolding core_moves_def by blast
  with restart show ?thesis by (simp add: core_of_def set_node_def)
qed

lemma cm_new_log:
  assumes "cm_new rng nid peers st tim now = Inr cm" "storage_load st = Inr ps"
  shows "cm_storage cm = st" "persistent_of cm = ps"
    and "cm_role cm = Follower" "cm_id cm = nid" "cm_peers cm = peers"
    and "cm_current_term cm = ps_current_term ps" "cm_voted_for cm = ps_voted_for ps" "cm_log cm = ps_log ps"
    and "cm_commit_index cm = lg_snapshot_index (ps_log ps)"
  using assms by (auto simp: cm_new_def Let_def persistent_of_def)

lemma core_moves_snapshot:
  assumes "core_moves fits cm cm'" "mirrored cm"
  shows "lg_snapshot_index (cm_log cm) \<le> lg_snapshot_index (cm_log cm')"
  using assms cm_new_log(2) [of _ _ _ "cm_storage cm" _ _ cm' "persistent_of cm"]
  by (auto simp: core_moves_def persistent_of_eq_iff mirrored_def dest: exec_snapshot_mono)

text \<open>
  \<open>news\<close>: the calls and replies that are in \<open>c'\<close> and were not in \<open>c\<close> say the truth about \<open>h\<close>.
\<close>

definition news :: "peer list \<Rightarrow> 's cluster \<Rightarrow> 's cluster \<Rightarrow> proto \<Rightarrow> bool" where
  "news ms c c' h \<longleftrightarrow>
     (\<forall>src cl. (src, cl) \<in> cl_calls c' - cl_calls c \<longrightarrow>
        routed ms src cl \<and> call_rel ms h (snap_of c') src cl) \<and>
     (\<forall>src cl r. (src, cl, r) \<in> cl_replies c' - cl_replies c \<longrightarrow>
        (src, cl) \<in> cl_calls c' \<and> reply_rel h src cl r)"

lemma no_news: "cl_calls c' = cl_calls c \<Longrightarrow> cl_replies c' = cl_replies c \<Longrightarrow> news ms c c' h"
  by (simp add: news_def)

lemma node_sim:
  assumes rel: "cluster_rel ms g c" and n: "n \<in> ids ms" and disk: "mirrored (core_of c n)"
    and step: "cluster_step fits ms tim c c'" and sim: "simulated ms g n (nd_core nd) (news ms c c')"
    and nd: "nd_peer_ids nd = peers_of ms n" "cl_node c' = (cl_node c)(n := nd)" "cl_calls c \<subseteq> cl_calls c'"
  shows "\<exists>h n. psteps ms n g h \<and> cluster_rel ms h c'"
proof -
  from sim obtain h where h: "psteps ms n g h" "node_rel ms h n (nd_core nd)" "news ms c c' h"
    unfolding simulated_def by blast
  have "snap_of c n \<le> snap_of c' n"
    unfolding snap_of_def by (rule core_moves_snapshot [OF step_core_moves [OF step] disk])
  then have "snap_of c n \<le> lg_snapshot_index (cm_log (nd_core nd))"
    using nd(2) by (simp add: core_of_def snap_of_def)
  from cluster_rel_update [OF rel n h(1,2) nd(1) this nd(2,3)] h(1,3) show ?thesis
    unfolding news_def by blast
qed

lemma tick_news:
  assumes rel: "cluster_rel ms g c" and n: "n \<in> ids ms"
    and dec: "decide_step rng now (cl_node c n) = (nd, st)"
    and c': "c' = (set_node n nd c)\<lparr>cl_calls := cl_calls c \<union> Pair n ` set (spawn_calls (nd_peer_ids nd) st)\<rparr>"
  shows "nd_peer_ids nd = peers_of ms n \<and> simulated ms g n (nd_core nd) (news ms c c')"
proof -
  note R = cluster_relD [OF rel]
  note d = decide_sim [OF R(1) R(2) [OF n, unfolded core_of_def] R(3) [OF n] dec]
  have "snap_of c' n = lg_snapshot_index (cm_log (nd_core nd))"
    by (simp add: c' set_node_def snap_of_def core_of_def)
  then have "call_rel ms h (snap_of c') n cl"
    if "call_rel ms h (\<lambda>_. lg_snapshot_index (cm_log (nd_core nd))) n cl" for h cl
    using that call_rel_snap [of "snap_of c'" n "\<lambda>_. lg_snapshot_index (cm_log (nd_core nd))"] by simp
  then have "simulated ms g n (nd_core nd) (news ms c c')"
    by (intro simulated_weaken [OF conjunct2 [OF d]]) (auto simp: news_def c' set_node_def)
  with d show ?thesis by blast
qed

text \<open>The simulation: every step of the cluster is a sequence of protocol steps of one node.\<close>

lemma step_sim:
  assumes rel: "cluster_rel ms g c" and disk: "\<And>n. n \<in> ids ms \<Longrightarrow> mirrored (core_of c n)"
    and step: "cluster_step fits ms tim c c'"
  shows "\<exists>h n. psteps ms n g h \<and> cluster_rel ms h c'"
proof -
  note R = cluster_relD [OF rel] and upd = node_sim [OF rel _ disk step]
  from step show ?thesis
  proof (cases rule: cluster_step_cases)
    case (tick n rng now nd st)
    note t = tick_news [OF rel tick(2,4,1)]
    show ?thesis
      by (rule upd [OF tick(2,2) conjunct2 [OF t] conjunct1 [OF t]]) (use tick(1) in \<open>auto simp: set_node_def\<close>)
  next
    case (drain n nd)
    then obtain items where "take_applies (core_of c n) = Some (nd_core nd, items)"
      "nd_peer_ids nd = nd_peer_ids (cl_node c n)"
      by (auto simp: drain_tick_def core_of_def)
    with sim_take_applies [OF R(2) [OF drain(2)]] R(3) [OF drain(2)] drain show ?thesis
      by (intro upd [of n nd]) (auto simp: set_node_def no_news intro!: simulated_refl)
  next
    case (propose n command nd res)
    then have "nd_core nd = fst (submit_command command (core_of c n))"
      "nd_peer_ids nd = nd_peer_ids (cl_node c n)"
      by (auto simp: node_propose_def core_of_def split: prod.splits)
    with sim_submit [OF R(1) R(2) [OF propose(2)], of command] R(3) [OF propose(2)] propose show ?thesis
      by (intro upd [of n nd]) (auto simp: set_node_def no_news elim: simulated_weaken)
  next
    case (snapshot n index data nd)
    then have "cm_take_snapshot index data (core_of c n) = Some (nd_core nd)"
      "nd_peer_ids nd = nd_peer_ids (cl_node c n)"
      by (auto simp: control_snapshot_def core_of_def)
    with sim_take_snapshot [OF R(2) [OF snapshot(2)]] R(3) [OF snapshot(2)] snapshot show ?thesis
      by (intro upd [of n nd]) (auto simp: set_node_def no_news intro!: simulated_refl)
  next
    case (serve src cl n rng now core r)
    note call = R(4,5) [OF serve(2)]
    have "simulated ms g n (fst (serve_call rng now cl (core_of c n)))
      (\<lambda>h. reply_rel h src cl (snd (serve_call rng now cl (core_of c n))))"
      by (rule serve_sim [OF R(1) R(2) [OF serve(4)] call(2)]) (use call(1) serve(3) in \<open>auto simp: routed_def\<close>)
    with serve R(3) [OF serve(4)] show ?thesis
      by (intro upd [of n "(cl_node c n)\<lparr>nd_core := core\<rparr>"])
        (auto simp: set_node_def news_def elim: simulated_weaken)
  next
    case (fold n cl r core)
    note call = R(4,5) [OF R(6) [OF fold(2)]]
    have "call_rel ms g (\<lambda>_. lg_snapshot_index (cm_log (core_of c n))) n cl"
      using call(2) call_rel_snap [of "snap_of c" n "\<lambda>_. lg_snapshot_index (cm_log (core_of c n))"]
      by (simp add: snap_of_def)
    then have "simulated ms g n core (\<lambda>h. True)"
      unfolding fold(5)
      by (rule fold_sim [OF R(1) R(2) [OF fold(3)] _ _ R(7) [OF fold(2)]]) (use call(1) in \<open>simp add: routed_def\<close>)
    with fold R(3) [OF fold(3)] show ?thesis
      by (intro upd [of n "(cl_node c n)\<lparr>nd_core := core\<rparr>"])
        (auto simp: set_node_def no_news elim: simulated_weaken)
  next
    case (kill n)
    with R(2,3) [OF kill(2)] show ?thesis
      by (intro upd [of n "node_kill (cl_node c n)"])
        (auto simp: set_node_def node_kill_def core_of_def no_news intro!: simulated_refl)
  next
    case (restart n rng connect now nd clients)
    note new = start_node_config(1,2) [OF restart(4)]
    with sim_restart [OF R(1) R(2) [OF restart(2)] new(1) disk [OF restart(2)]] restart show ?thesis
      by (intro upd [of n nd]) (auto simp: set_node_def no_news elim: simulated_weaken)
  qed
qed

section \<open>The apply stream\<close>

text \<open>Every command a node has delivered to its state machine is a settled entry of its log.\<close>

definition stream_rel :: "peer list \<Rightarrow> proto \<Rightarrow> 's cluster \<Rightarrow> bool" where
  "stream_rel ms g c \<longleftrightarrow>
     (\<forall>n \<in> ids ms. \<forall>a. ApplyCommand a \<in> set (nd_applied (cl_node c n)) \<longrightarrow>
        0 < ap_index a \<and> settled (majority ms) g n (ap_index a) \<and>
        ApplyCommand a = apply_of (pl g n) (ap_index a))"

lemma apply_of_take: "0 < i \<Longrightarrow> take i L = take i M \<Longrightarrow> apply_of L i = apply_of M i"
  by (auto simp: apply_of_def term_of_def dest: take_eq_nth [of i L M "i - 1"])

lemma step_applied:
  assumes "cluster_step fits ms tim c c'" "x \<in> set (nd_applied (cl_node c' v))"
  shows "x \<in> set (nd_applied (cl_node c v)) \<or>
    (\<exists>core items. take_applies (core_of c v) = Some (core, items) \<and> x \<in> set items)"
  using assms
proof (cases rule: cluster_step_cases)
  case (tick n rng now nd st)
  then have "nd_applied nd = nd_applied (cl_node c n)"
    by (auto simp: decide_step_def Let_def case_prod_beta split: if_splits)
  with tick assms(2) show ?thesis by (auto simp: set_node_def split: if_splits)
next
  case (restart n rng connect now nd clients)
  with start_node_config(3) [OF restart(4)] assms(2) show ?thesis by (auto simp: set_node_def split: if_splits)
qed (auto simp: set_node_def core_of_def drain_tick_def node_propose_def control_snapshot_def node_kill_def
    split: if_splits prod.splits)

lemma take_applies_command:
  assumes "cm_inv cm" "represents L (cm_log cm)" "take_applies cm = Some (cm', items)"
    and "ApplyCommand a \<in> set items"
  shows "0 < ap_index a \<and> ap_index a \<le> cm_commit_index cm \<and> ApplyCommand a = apply_of L (ap_index a)"
proof -
  have "items = (case cm_pending_snapshot cm of None \<Rightarrow> [] | Some s \<Rightarrow> [ApplySnapshot s]) @
      map (apply_of L) [Suc (cm_last_applied cm) ..< Suc (cm_commit_index cm)]"
    using take_applies_inv [OF assms(1,2)] assms(3) by simp
  with assms(4) obtain i where "ApplyCommand a = apply_of L i" "i \<in> {Suc (cm_last_applied cm) ..< Suc (cm_commit_index cm)}"
    by (auto simp del: upt_Suc split: option.splits)
  moreover from this have "ap_index a = i" by (simp add: apply_of_def)
  ultimately show ?thesis by simp
qed

lemma stream_step:
  assumes inv: "proto_inv (majority ms) g" and rel: "\<And>n. n \<in> ids ms \<Longrightarrow> node_rel ms g n (core_of c n)"
    and str: "stream_rel ms g c" and steps: "psteps ms n g h" and step: "cluster_step fits ms tim c c'"
  shows "stream_rel ms h c'"
  unfolding stream_rel_def
proof (intro ballI allI impI)
  fix v a assume v: "v \<in> ids ms" and a: "ApplyCommand a \<in> set (nd_applied (cl_node c' v))"
  have "0 < ap_index a \<and> settled (majority ms) g v (ap_index a) \<and>
      ApplyCommand a = apply_of (pl g v) (ap_index a)"
    using step_applied [OF step a]
  proof
    assume "ApplyCommand a \<in> set (nd_applied (cl_node c v))"
    with str v show ?thesis by (simp add: stream_rel_def)
  next
    assume "\<exists>core items. take_applies (core_of c v) = Some (core, items) \<and> ApplyCommand a \<in> set items"
    then show ?thesis
      using take_applies_command [OF node_relD(5,8) [OF rel [OF v]]] pc_settled [OF inv]
        node_relD(9) [OF rel [OF v]] by metis
  qed
  then show "0 < ap_index a \<and> settled (majority ms) h v (ap_index a) \<and>
      ApplyCommand a = apply_of (pl h v) (ap_index a)"
    using members.steps_settled [OF steps inv, of v "ap_index a"]
      apply_of_take [of "ap_index a" "pl h v" "pl g v"] by simp
qed

section \<open>Reachable states\<close>

lemma start_rel:
  assumes ms: "members_ok ms" and start: "cluster_start disk ms tim c"
  shows "cluster_rel ms proto_init c \<and> stream_rel ms proto_init c \<and>
    (\<forall>n \<in> ids ms. cm_storage (core_of c n) = disk n \<and> mirrored (core_of c n))"
proof -
  have node: "node_rel ms proto_init n (core_of c n) \<and> nd_peer_ids (cl_node c n) = peers_of ms n \<and>
      nd_applied (cl_node c n) = [] \<and> cm_storage (core_of c n) = disk n \<and> mirrored (core_of c n)"
    if n: "n \<in> ids ms" for n
  proof -
    from start n obtain rng connect now clients where load: "storage_load (disk n) = Inr persistent_default"
      and "start_node rng connect (config_for ms n) (disk n) tim now = Inr (cl_node c n, clients :: string peer_clients)"
      by (auto simp: cluster_start_def)
    then have new: "cm_new rng n (peers_of ms n) (disk n) tim now = Inr (core_of c n)"
      and nd: "nd_peer_ids (cl_node c n) = peers_of ms n" "nd_applied (cl_node c n) = []"
      using start_node_config by (auto simp: core_of_def)
    have "cm_inv (core_of c n)"
      by (rule cm_new_inv [OF new load]) (simp_all add: persistent_default_def log_wf_def log_new_def)
    moreover have "represents [] (cm_log (core_of c n)) \<and> cm_role (core_of c n) = Follower \<and>
        cm_id (core_of c n) = n \<and> cm_peers (core_of c n) = peers_of ms n \<and>
        cm_current_term (core_of c n) = 0 \<and> cm_voted_for (core_of c n) = None \<and> cm_commit_index (core_of c n) = 0"
      using cm_new_log [OF new load] represents_new by (simp add: persistent_default_def log_new_def)
    ultimately have "node_rel ms proto_init n (core_of c n)"
      using ms n by (simp add: node_rel_def proto_init_def)
    with nd cm_new_log [OF new load] load show ?thesis by (simp add: mirrored_def)
  qed
  with start proto_init_inv show ?thesis
    by (auto simp: cluster_rel_def stream_rel_def cluster_start_def)
qed

context reliable_storage
begin

lemma core_moves_disk:
  assumes "core_moves fits cm cm'" "boxed load save sound (cm_storage cm)" "mirrored cm"
  shows "boxed load save sound (cm_storage cm') \<and> mirrored cm'"
proof -
  have load: "storage_load (cm_storage cm) = Inr (persistent_of cm)" using assms(3) by (simp add: mirrored_def)
  from assms(1) consider
      (same) "cm_storage cm' = cm_storage cm" "persistent_of cm' = persistent_of cm"
    | (exec) op where "cm_exec op cm = Some cm'" "fits (persistent_of cm')"
    | (new) rng nid peers tim now where "cm_new rng nid peers (cm_storage cm) tim now = Inr cm'"
    unfolding core_moves_def by blast
  then show ?thesis
  proof cases
    case same
    with assms(2) load show ?thesis by (simp add: mirrored_def)
  next
    case exec
    with exec_mirrored [OF assms(2,3)] show ?thesis by blast
  next
    case new
    with cm_new_log [OF new load] assms(2) load show ?thesis by (simp add: mirrored_def)
  qed
qed

lemma step_keeps:
  assumes step: "cluster_step fits ms tim c c'" and g: "cluster_rel ms g c" "stream_rel ms g c"
    and disk: "\<And>n. n \<in> ids ms \<Longrightarrow> boxed load save sound (cm_storage (core_of c n)) \<and> mirrored (core_of c n)"
  obtains h n where "psteps ms n g h" "cluster_rel ms h c'" "stream_rel ms h c'"
    "\<And>n. n \<in> ids ms \<Longrightarrow> boxed load save sound (cm_storage (core_of c' n)) \<and> mirrored (core_of c' n)"
proof -
  from step_sim [OF g(1) _ step] disk obtain h n where h: "psteps ms n g h" "cluster_rel ms h c'" by blast
  have "stream_rel ms h c'" by (rule stream_step [OF cluster_relD(1,2) [OF g(1)] g(2) h(1) step])
  with h disk core_moves_disk [OF step_core_moves [OF step]] that show thesis by blast
qed

lemma reach_rel:
  assumes ms: "members_ok ms" and disk: "\<And>n. n \<in> ids ms \<Longrightarrow> boxed load save sound (disk n)"
    and reach: "cluster_reach fits disk ms tim c"
  shows "\<exists>g. proto_reach (majority ms) g \<and> cluster_rel ms g c \<and> stream_rel ms g c \<and>
    (\<forall>n \<in> ids ms. boxed load save sound (cm_storage (core_of c n)) \<and> mirrored (core_of c n))"
  using reach
proof induction
  case (start c)
  with start_rel [OF ms start] disk proto_reach.init show ?case by (intro exI [of _ proto_init]) auto
next
  case (step c c')
  then obtain g where g: "proto_reach (majority ms) g" "cluster_rel ms g c" "stream_rel ms g c"
    "\<And>n. n \<in> ids ms \<Longrightarrow> boxed load save sound (cm_storage (core_of c n)) \<and> mirrored (core_of c n)" by blast
  obtain h n where "psteps ms n g h" "cluster_rel ms h c'" "stream_rel ms h c'"
    "\<And>n. n \<in> ids ms \<Longrightarrow> boxed load save sound (cm_storage (core_of c' n)) \<and> mirrored (core_of c' n)"
    by (rule step_keeps [OF step.hyps(2) g(2-4)]) blast+
  with proto_reach_steps [OF _ g(1)] show ?case by blast
qed

text \<open>Along any further run, what a node has settled stays in its log.\<close>

lemma steps_keep_settled:
  assumes run: "(cluster_step fits ms tim)\<^sup>*\<^sup>* c c'" and rel: "cluster_rel ms g c"
    and disk: "\<And>n. n \<in> ids ms \<Longrightarrow> boxed load save sound (cm_storage (core_of c n)) \<and> mirrored (core_of c n)"
  shows "\<exists>h. cluster_rel ms h c' \<and>
    (\<forall>n k. settled (majority ms) g n k \<longrightarrow> take k (pl h n) = take k (pl g n) \<and> settled (majority ms) h n k) \<and>
    (\<forall>n \<in> ids ms. boxed load save sound (cm_storage (core_of c' n)) \<and> mirrored (core_of c' n))"
  using run
proof (induction rule: rtranclp_induct)
  case base
  with rel disk show ?case by blast
next
  case (step a b)
  then obtain h where h: "cluster_rel ms h a"
    "\<And>n k. settled (majority ms) g n k \<Longrightarrow> take k (pl h n) = take k (pl g n) \<and> settled (majority ms) h n k"
    "\<And>n. n \<in> ids ms \<Longrightarrow> boxed load save sound (cm_storage (core_of a n)) \<and> mirrored (core_of a n)" by blast
  from step_sim [OF h(1) conjunct2 [OF h(3)] step.hyps(2)]
  obtain f v where f: "psteps ms v h f" "cluster_rel ms f b" by blast
  have "take k (pl f n) = take k (pl g n) \<and> settled (majority ms) f n k" if "settled (majority ms) g n k" for n k
    using h(2) [OF that] members.steps_settled [OF f(1) cluster_relD(1) [OF h(1)]] by metis
  with f(2) core_moves_disk [OF step_core_moves [OF step.hyps(2)]] h(3) show ?case by blast
qed

end

section \<open>What the protocol guarantees of the nodes\<close>

lemma rel_one_leader:
  assumes rel: "cluster_rel ms g c" and nm: "n \<in> ids ms" "m \<in> ids ms"
    and lead: "cm_role (core_of c n) = Leader" "cm_role (core_of c m) = Leader"
    and same: "cm_current_term (core_of c n) = cm_current_term (core_of c m)"
  shows "n = m"
proof -
  have "lead_rel g n (core_of c n)" "lead_rel g m (core_of c m)" "pt g n = pt g m"
    using node_relD(6,11) [OF cluster_relD(2) [OF rel nm(1)]] node_relD(6,11) [OF cluster_relD(2) [OF rel nm(2)]]
      lead same by auto
  then obtain Q R where "elected g (pt g n) = Some (n, Q)" "elected g (pt g n) = Some (m, R)"
    unfolding lead_rel_def by metis
  then show ?thesis by simp
qed

lemma read_prefix:
  assumes "represents L l" "represents M k" "take i L = take i M" "i \<le> length L" "i \<le> length M" "j \<le> i"
    and "lg_snapshot_index l < j" "lg_snapshot_index k < j"
  shows "log_get l j = log_get k j \<and> log_get l j \<noteq> None"
proof -
  have j: "j - 1 < i" "j \<le> length L" "j \<le> length M" using assms(4-7) by linarith+
  have "log_get l j = Some (L ! (j - 1))" using rlog.getAt [OF assms(1), of j] assms(7) j(2) by simp
  moreover have "log_get k j = Some (M ! (j - 1))" using rlog.getAt [OF assms(2), of j] assms(8) j(3) by simp
  ultimately show ?thesis using take_eq_nth [OF assms(3) j(1)] by simp
qed

lemma rel_log_matching:
  assumes rel: "cluster_rel ms g c" and nm: "n \<in> ids ms" "m \<in> ids ms"
    and t: "term_at (cm_log (core_of c n)) i = Some t" "term_at (cm_log (core_of c m)) i = Some t"
  shows "take i (pl g n) = take i (pl g m) \<and> i \<le> length (pl g n) \<and> i \<le> length (pl g m)"
proof -
  note N = node_relD(8) [OF cluster_relD(2) [OF rel nm(1)]] and M = node_relD(8) [OF cluster_relD(2) [OF rel nm(2)]]
  have "i \<le> length (pl g n)" "i \<le> length (pl g m)" "term_of (pl g n) i = t" "term_of (pl g m) i = t"
    using t by (auto simp: rlog.termAt [OF N] rlog.termAt [OF M] split: if_splits)
  moreover note inv = cluster_relD(1) [OF rel]
  have "take i (pl g n) = take i (pl g m)"
    by (rule log_matching [OF members.node_log_ok [OF inv] members.node_log_ok [OF inv]]) (use calculation in simp_all)
  ultimately show ?thesis by blast
qed

lemma rel_leader_complete:
  assumes rel: "cluster_rel ms g c" and nm: "n \<in> ids ms" "m \<in> ids ms"
    and lead: "cm_role (core_of c n) = Leader"
    and term_le: "cm_current_term (core_of c m) \<le> cm_current_term (core_of c n)"
    and j: "j \<le> cm_commit_index (core_of c m)"
  shows "take j (pl g m) = take j (pl g n) \<and> j \<le> length (pl g m) \<and> j \<le> length (pl g n)"
proof -
  note R = cluster_relD [OF rel]
  note N = R(2) [OF nm(1)] and M = R(2) [OF nm(2)]
  have l: "elected g (pt g n) \<noteq> None" "pl g n = tlog g (pt g n)"
    using node_relD(11) [OF N lead] by (auto simp: lead_rel_def)
  have "take j (pl g m) = take j (pl g n)"
    using commit_prefix [OF R(1) l(1), of m j] l(2) term_le j node_relD(6,9) [OF M] node_relD(6) [OF N] by simp
  moreover have "j \<le> length (pl g m)" using pc_length [OF R(1), of m] j node_relD(9) [OF M] by simp
  ultimately show ?thesis using take_eq_length by metis
qed

lemma rel_commit_agree:
  assumes rel: "cluster_rel ms g c" and nm: "n \<in> ids ms" "m \<in> ids ms"
    and j: "j \<le> cm_commit_index (core_of c n)" "j \<le> cm_commit_index (core_of c m)"
  shows "take j (pl g n) = take j (pl g m) \<and> j \<le> length (pl g n) \<and> j \<le> length (pl g m)"
proof -
  note R = cluster_relD [OF rel]
  have "settled (majority ms) g n j" "settled (majority ms) g m j"
    using pc_settled [OF R(1)] j node_relD(9) [OF R(2) [OF nm(1)]] node_relD(9) [OF R(2) [OF nm(2)]] by simp_all
  with members.settled_agree [OF R(1)] show ?thesis by (simp add: settled_def)
qed

lemma rel_streams_agree:
  assumes rel: "cluster_rel ms g c" "stream_rel ms g c" and nm: "n \<in> ids ms" "m \<in> ids ms"
    and ab: "ApplyCommand a \<in> set (nd_applied (cl_node c n))" "ApplyCommand b \<in> set (nd_applied (cl_node c m))"
      "ap_index a = ap_index b"
  shows "a = b"
proof -
  have "0 < ap_index a" "settled (majority ms) g n (ap_index a)" "settled (majority ms) g m (ap_index a)"
    "ApplyCommand a = apply_of (pl g n) (ap_index a)" "ApplyCommand b = apply_of (pl g m) (ap_index a)"
    using bspec [OF rel(2) [unfolded stream_rel_def] nm(1)] bspec [OF rel(2) [unfolded stream_rel_def] nm(2)] ab
    by (metis ab(3))+
  with members.settled_agree [OF cluster_relD(1) [OF rel(1)]] apply_of_take show ?thesis
    by (metis apply_item.inject(1))
qed

text \<open>
  The standing hypotheses of the cluster theorems: storage that keeps its contract and does
  not fail, a membership without duplicates, and a state reached from empty storage.
\<close>

definition reachable_on ::
  "('s \<Rightarrow> storage_error + persistent_state) \<Rightarrow>
   ('s \<Rightarrow> persistent_state \<Rightarrow> (storage_error + unit) \<times> 's) \<Rightarrow> ('s \<Rightarrow> bool) \<Rightarrow>
   (persistent_state \<Rightarrow> bool) \<Rightarrow> (nat \<Rightarrow> 's dyn_storage) \<Rightarrow> peer list \<Rightarrow> timing \<Rightarrow> 's cluster \<Rightarrow> bool" where
  "reachable_on load save sound fits disk ms tim c \<longleftrightarrow>
     reliable_storage load save sound fits \<and> members_ok ms \<and>
     (\<forall>n \<in> ids ms. boxed load save sound (disk n)) \<and> cluster_reach fits disk ms tim c"

lemma reachable_rel:
  assumes "reachable_on load save sound fits disk ms tim c"
  obtains g where "proto_reach (majority ms) g" "cluster_rel ms g c" "stream_rel ms g c"
    "\<And>n. n \<in> ids ms \<Longrightarrow> mirrored (core_of c n)"
  using assms reliable_storage.reach_rel [of load save sound fits ms disk tim c]
  unfolding reachable_on_def by blast

lemma reachable_keeps:
  assumes reach: "reachable_on load save sound fits disk ms tim c" and run: "(cluster_step fits ms tim)\<^sup>*\<^sup>* c c'"
    and n: "n \<in> ids ms" and j: "j \<le> cm_commit_index (core_of c n)"
  obtains g h where "cluster_rel ms g c" "cluster_rel ms h c'" "take j (pl g n) = take j (pl h n)"
    "j \<le> length (pl g n)" "j \<le> length (pl h n)"
proof -
  from reach have rs: "reliable_storage load save sound fits" and ms: "members_ok ms"
    and disk: "\<And>n. n \<in> ids ms \<Longrightarrow> boxed load save sound (disk n)" and cr: "cluster_reach fits disk ms tim c"
    by (auto simp: reachable_on_def)
  obtain g where g: "cluster_rel ms g c"
    "\<And>n. n \<in> ids ms \<Longrightarrow> boxed load save sound (cm_storage (core_of c n)) \<and> mirrored (core_of c n)"
    using reliable_storage.reach_rel [OF rs ms disk cr] by blast
  obtain h where h: "cluster_rel ms h c'"
    "\<And>n k. settled (majority ms) g n k \<Longrightarrow> take k (pl h n) = take k (pl g n) \<and> settled (majority ms) h n k"
    using reliable_storage.steps_keep_settled [OF rs run g] by blast
  have s: "settled (majority ms) g n j"
    using pc_settled [OF cluster_relD(1) [OF g(1)]] j node_relD(9) [OF cluster_relD(2) [OF g(1) n]] by simp
  from that [OF g(1) h(1)] h(2) [OF s] s show thesis by (simp add: settled_def)
qed

end
