(* ===== verification/Raft_Repair.thy ===== *)
theory Raft_Repair
  imports Raft_Safety
begin

text \<open>
  Log repair converges: whenever a follower rejects what its leader sends, the leader backs
  up, so that after finitely many rejections the two logs meet. It rests on the cluster's
  log matching: a leader that has entries of the conflicting term has them before the
  point of conflict.
\<close>

section \<open>The hint always points back\<close>

lemma terms_positive:
  assumes "proto_inv (majority ms) g" "e \<in> set (pl g n)"
  shows "0 < le_term e"
proof -
  from assms(2) obtain i where i: "i < length (pl g n)" "pl g n ! i = e" by (auto simp: in_set_conv_nth)
  have "elected g (term_of (pl g n) (Suc i)) \<noteq> None"
    using log_okD(2) [OF members.node_log_ok [OF assms(1)], of "Suc i" n] i(1) by simp
  with proto_invD(1,3) [OF assms(1)] have "0 < term_of (pl g n) (Suc i)"
    unfolding inv_elect_def inv_clog_def by fastforce
  with i show ?thesis by simp
qed

text \<open>Two entries of one term sit in one log, so the earlier one is in both.\<close>

lemma same_term_earlier:
  assumes "log_ok g X" "log_ok g Y" "0 < i" "i \<le> j" "i \<le> length X" "j \<le> length Y"
    and "term_of X i = t" "term_of Y j = t"
  shows "term_of Y i = t"
proof -
  have "take i X = take i (tlog g t)" using log_okD(3) [OF assms(1,3,5)] assms(7) by simp
  moreover have "take j Y = take j (tlog g t)"
    using log_okD(3) [OF assms(2) _ assms(6)] assms(3,4,8) by simp
  then have "take i Y = take i (tlog g t)" using assms(4) by (rule take_eq_trans)
  ultimately show ?thesis using term_of_take_eq [of i X Y i] assms(7) by simp
qed

lemma conflict_points_back:
  assumes rel: "cluster_rel ms g c" and nm: "n \<in> ids ms" "m \<in> ids ms"
    and prev: "prev \<le> length (pl g n)"
    and con: "\<not> consistent_at prev (term_of (pl g n) prev) cm" "cm_log cm = cm_log (core_of c m)"
  shows "next_index_after_conflict (core_of c n) p (append_conflict prev cm) \<le> prev" "0 < prev"
proof -
  note inv = cluster_relD(1) [OF rel] and N = node_relD(8) [OF cluster_relD(2) [OF rel nm(1)]]
    and M = node_relD(8) [OF cluster_relD(2) [OF rel nm(2)]]
  let ?b = "lg_snapshot_index (cm_log (core_of c m))"
  have b: "?b < prev" using con by (auto simp: consistent_at_def split: if_splits)
  then show "0 < prev" by simp
  show "next_index_after_conflict (core_of c n) p (append_conflict prev cm) \<le> prev"
  proof (cases "prev \<le> length (pl g m)")
    case False
    then have "term_at (cm_log cm) prev = None" using con(2) by (simp add: rlog.termAt [OF M])
    with False con(2) show ?thesis
      by (simp add: append_conflict_def next_index_after_conflict_def rlog.lastIndex [OF M])
  next
    case True
    let ?ct = "term_of (pl g m) prev"
    have at: "term_at (cm_log cm) prev = Some ?ct" using True b con(2) by (simp add: rlog.termAt [OF M])
    with con b have ne: "?ct \<noteq> term_of (pl g n) prev" by (simp add: consistent_at_def)
    obtain fi where fi: "first_index_of_term (cm_log cm) ?ct = Some fi" "fi \<le> prev"
    proof -
      let ?P = "\<lambda>i. ?b < i \<and> i \<le> prev \<and> term_of (pl g m) i = ?ct"
      have "?P (LEAST i. ?P i)" by (rule LeastI [of ?P prev]) (use b in simp)
      moreover have "\<not> ?P j" if "j < (LEAST i. ?P i)" for j using not_less_Least [OF that] .
      ultimately show thesis
        using that [of "LEAST i. ?P i"] True con(2) first_index_of_term_spec [OF M, of ?ct "LEAST i. ?P i"]
        by (metis (mono_tags, lifting) dual_order.trans less_imp_le)
    qed
    have "li < prev" if "last_index_of_term (cm_log (core_of c n)) ?ct = Some li" for li
    proof (rule ccontr)
      assume "\<not> li < prev"
      with same_term_earlier [OF members.node_log_ok [OF inv] members.node_log_ok [OF inv], of prev li m n ?ct]
        last_index_of_term_Some [OF N that] True b ne show False by simp
    qed
    with fi at show ?thesis
      by (auto simp: append_conflict_def next_index_after_conflict_def split: option.splits dest: Suc_leI)
  qed
qed

text \<open>What a leader sends to a peer that needs no snapshot.\<close>

lemma append_args_shape:
  assumes rel: "node_rel ms g n cm" and lead: "cm_role cm = Leader" and need: "\<not> needs_snapshot cm p"
    and k: "k = lookup_or (cm_next_index cm) p (last_index (cm_log cm) + 1)"
  shows "1 \<le> k" "k \<le> Suc (length (pl g n))" "ae_prev_log_index (append_args_for cm p) = k - 1"
    and "ae_prev_log_term (append_args_for cm p) = term_of (pl g n) (k - 1)"
    and "ae_entries (append_args_for cm p) = drop (k - 1) (pl g n)" "ae_term (append_args_for cm p) = cm_current_term cm"
proof -
  note N = node_relD(8) [OF rel]
  show b: "1 \<le> k" "k \<le> Suc (length (pl g n))"
    using cm_invD(6) [OF node_relD(5) [OF rel]] node_relD(11) [OF rel lead] rlog.lastIndex [OF N]
    by (auto simp: k lead_rel_def lookup_or_def split: option.splits)
  have above: "lg_snapshot_index (cm_log cm) \<le> k - 1"
    using need lead cm_invD(2) [OF node_relD(5) [OF rel]] rlog.base_le [OF N] rlog.lastIndex [OF N]
    by (auto simp: k needs_snapshot_def lookup_or_def split: option.splits)
  have at: "term_at (cm_log cm) (k - 1) = Some (term_of (pl g n) (k - 1))"
    using rlog.termAt [OF N, of "k - 1"] above b(2) by (simp del: One_nat_def)
  have es: "entries_after (cm_log cm) (k - 1) = drop (k - 1) (pl g n)"
    using rlog.entriesAfter [OF N] above by (simp add: max_absorb1 del: One_nat_def)
  show "ae_prev_log_index (append_args_for cm p) = k - 1" "ae_prev_log_term (append_args_for cm p) = term_of (pl g n) (k - 1)"
    "ae_entries (append_args_for cm p) = drop (k - 1) (pl g n)" "ae_term (append_args_for cm p) = cm_current_term cm"
    unfolding append_args_for_def Let_def k [symmetric] by (simp_all add: at es del: One_nat_def)
qed

lemma rejection_backs_up:
  assumes rel: "cluster_rel ms g c" and nm: "n \<in> ids ms" "m \<in> ids ms"
    and lead: "cm_role (core_of c n) = Leader" and need: "\<not> needs_snapshot (core_of c n) m"
    and cur: "cm_current_term (core_of c m) \<le> cm_current_term (core_of c n)"
    and nxt: "k = lookup_or (cm_next_index (core_of c n)) m (last_index (cm_log (core_of c n)) + 1)"
    and run: "handle_append_entries rng now (append_args_for (core_of c n) m) (core_of c m) = (cm', r)"
    and no: "\<not> aer_success r"
  shows "\<exists>k'. cm_next_index (handle_append_reply m (over_wire r) hint (core_of c n)) m = Some k' \<and> 1 \<le> k' \<and> k' < k"
proof -
  let ?n = "core_of c n" and ?args = "append_args_for (core_of c n) m"
  note inv = cluster_relD(1) [OF rel] and rn = cluster_relD(2) [OF rel nm(1)]
  note N = node_relD(8) [OF rn] and k = append_args_shape(1,2) [OF rn lead need nxt]
    and args = append_args_shape(3,4,6) [OF rn lead need nxt]
  define cm where "cm = yield_to_leader rng now (ae_term ?args) (ae_leader_id ?args) (core_of c m)"
  have "\<not> consistent_at (k - 1) (term_of (pl g n) (k - 1)) (core_of c m) \<and> r = append_conflict (k - 1) cm"
    by (rule append_entries_cases [of ?args "core_of c m" rng now])
      (use run no cur args in \<open>auto simp: append_reply_success_def cm_def\<close>)
  moreover have "cm_log cm = cm_log (core_of c m)" "cm_current_term cm = cm_current_term ?n"
    using cur args(3) by (simp_all add: cm_def max_absorb1)
  ultimately have r: "\<not> consistent_at (k - 1) (term_of (pl g n) (k - 1)) (core_of c m)"
    "cm_log cm = cm_log (core_of c m)" "r = append_conflict (k - 1) cm" "cm_current_term cm = cm_current_term ?n"
    by auto
  then have con: "\<not> consistent_at (k - 1) (term_of (pl g n) (k - 1)) cm"
    by (auto simp: consistent_at_def split: if_splits)
  have "0 < le_term e" if "e \<in> set (lg_entries (cm_log ?n))" for e
    using terms_positive [OF inv, of e n] that representsD(2) [OF N] by (metis in_set_dropD)
  then have "next_index_after_conflict ?n m (over_wire r) = next_index_after_conflict ?n m r"
    by (rule next_index_over_wire)
  moreover have "k - 1 \<le> length (pl g n)" using k by simp
  note conflict_points_back [OF rel nm this con r(2)]
  ultimately have "next_index_after_conflict ?n m (over_wire r) \<le> k - 1" "0 < k - 1"
    using r(3) by simp_all
  moreover have "aer_term r = cm_current_term ?n" using r(3,4) by (simp add: append_conflict_def split: option.splits)
  ultimately show ?thesis
    using no lead by (simp add: handle_append_reply_def Let_def)
qed

text \<open>
  Log repair always makes progress: in every reachable state of a cluster, if a follower
  rejects the AppendEntries that its leader builds for it, then folding the rejection,
  as it comes over the wire, strictly lowers the leader's next index for that follower, and
  it stays positive. So after finitely many rejections the follower accepts or is sent a
  snapshot.
\<close>

lemma repair_makes_progress:
  assumes "reachable_on load save sound fits disk ms tim c" "n \<in> ids ms" "m \<in> ids ms"
    and "is_leader (core_of c n)" "\<not> needs_snapshot (core_of c n) m"
    and "cm_current_term (core_of c m) \<le> cm_current_term (core_of c n)"
    and "cm_next_index (core_of c n) m = Some k"
    and "handle_append_entries rng now (append_args_for (core_of c n) m) (core_of c m) = (cm', r)" "\<not> aer_success r"
  shows "\<exists>k'. cm_next_index (handle_append_reply m (append_reply_from_pb (append_reply_to_pb r)) hint (core_of c n)) m
      = Some k' \<and> 1 \<le> k' \<and> k' < k"
proof -
  obtain g where g: "cluster_rel ms g c" by (rule reachable_rel [OF assms(1)])
  have "k = lookup_or (cm_next_index (core_of c n)) m (last_index (cm_log (core_of c n)) + 1)"
    using assms(7) by (simp add: lookup_or_def)
  from rejection_backs_up [OF g assms(2,3) assms(4) [unfolded is_leader_def] assms(5,6) this assms(8,9)] show ?thesis
    by (simp add: over_wire_def)
qed

end
