(* ===== verification/Raft_Quorum.thy ===== *)
theory Raft_Quorum
  imports Raft_Repair
begin

text \<open>
  Runs in which only the nodes of a set \<open>Q\<close> take part: they tick, call each other, answer, and
  apply; nobody crashes, no message of another node is delivered, and the clock does not
  run backwards. If \<open>Q\<close> is a majority of running nodes, such a run can always elect a leader,
  whatever terms, votes, candidacies and logs the nodes have.
\<close>

section \<open>Runs of a set of nodes\<close>

text \<open>A state is paired with the time of the last step.\<close>

inductive quorum_step :: "nat set \<Rightarrow> nat \<times> 's cluster \<Rightarrow> nat \<times> 's cluster \<Rightarrow> bool" for Q where
  ticks: "n \<in> Q \<Longrightarrow> nd_running (cl_node c n) \<Longrightarrow> t \<le> now \<Longrightarrow> decide_step rng now (cl_node c n) = (nd, st) \<Longrightarrow>
    quorum_step Q (t, c)
      (now, (set_node n nd c)\<lparr>cl_calls := cl_calls c \<union> Pair n ` set (spawn_calls (nd_peer_ids nd) st)\<rparr>)"
| applies: "n \<in> Q \<Longrightarrow> nd_running (cl_node c n) \<Longrightarrow> t \<le> now \<Longrightarrow> drain_tick (cl_node c n) = Some nd \<Longrightarrow>
    quorum_step Q (t, c) (now, set_node n nd c)"
| answers: "(src, cl) \<in> cl_calls c \<Longrightarrow> src \<in> Q \<Longrightarrow> n = call_dst cl \<Longrightarrow> n \<in> Q \<Longrightarrow> nd_running (cl_node c n) \<Longrightarrow> t \<le> now \<Longrightarrow>
    serve_call rng now cl (core_of c n) = (core, r) \<Longrightarrow>
    quorum_step Q (t, c)
      (now, (set_node n ((cl_node c n)\<lparr>nd_core := core\<rparr>) c)\<lparr>cl_replies := insert (src, cl, r) (cl_replies c)\<rparr>)"
| folds: "(n, cl, r) \<in> cl_replies c \<Longrightarrow> call_dst cl \<in> Q \<Longrightarrow> n \<in> Q \<Longrightarrow> nd_running (cl_node c n) \<Longrightarrow> t \<le> now \<Longrightarrow>
    quorum_step Q (t, c) (now, set_node n ((cl_node c n)\<lparr>nd_core := fold_reply cl r (core_of c n)\<rparr>) c)"

abbreviation quorum_run :: "nat set \<Rightarrow> nat \<times> 's cluster \<Rightarrow> nat \<times> 's cluster \<Rightarrow> bool" where
  "quorum_run Q \<equiv> (quorum_step Q)\<^sup>*\<^sup>*"

lemma quorum_step_cluster:
  assumes "quorum_step Q (t, c) (t', c')" "Q \<subseteq> ids ms"
  shows "cluster_step (\<lambda>_. True) ms tim c c'"
  using assms(1)
proof cases
  case (ticks n rng nd st)
  with assms(2) show ?thesis by (auto intro!: driver tick)
next
  case (applies n nd)
  with assms(2) show ?thesis by (auto intro!: driver drain)
next
  case (answers src cl n rng core r)
  with assms(2) show ?thesis by (auto intro!: driver serve)
next
  case (folds n cl r)
  with assms(2) show ?thesis by (auto intro!: driver driver_step.fold)
qed

lemma running_kept:
  assumes "quorum_run Q s s'" "\<forall>q \<in> P. nd_running (cl_node (snd s) q)"
  shows "\<forall>q \<in> P. nd_running (cl_node (snd s') q)"
  using assms
proof (induction rule: rtranclp_induct)
  case (step s1 s2)
  from step(2) step.IH [OF step.prems] show ?case
    by cases (auto simp: set_node_def decide_step_def drain_tick_def Let_def case_prod_beta split: if_splits)
qed

section \<open>One exchange\<close>

lemma core_of_tick [simp]:
  "core_of ((set_node n nd c)\<lparr>cl_calls := X\<rparr>) = (core_of c)(n := nd_core nd)"
  by (auto simp: core_of_def set_node_def)

lemma core_of_set [simp]: "core_of (set_node n nd c) = (core_of c)(n := nd_core nd)"
  by (auto simp: core_of_def set_node_def)

text \<open>The destination answers a call of \<open>n\<close>, and \<open>n\<close> takes note of the answer.\<close>

lemma exchange:
  assumes "(n, cl) \<in> cl_calls c" "n \<in> Q" "call_dst cl \<in> Q" "call_dst cl \<noteq> n" "t \<le> now"
    and "nd_running (cl_node c n)" "nd_running (cl_node c (call_dst cl))"
    and run: "serve_call rng now cl (core_of c (call_dst cl)) = (core, r)"
  shows "\<exists>c'. quorum_run Q (t, c) (now, c') \<and> cl_calls c' = cl_calls c \<and>
    core_of c' = (core_of c)(call_dst cl := core, n := fold_reply cl r (core_of c n))"
proof -
  let ?q = "call_dst cl"
  let ?c1 = "(set_node ?q ((cl_node c ?q)\<lparr>nd_core := core\<rparr>) c)\<lparr>cl_replies := insert (n, cl, r) (cl_replies c)\<rparr>"
  let ?c2 = "set_node n ((cl_node ?c1 n)\<lparr>nd_core := fold_reply cl r (core_of ?c1 n)\<rparr>) ?c1"
  have cores: "core_of ?c1 = (core_of c)(?q := core)" by (auto simp: core_of_def set_node_def)
  have "quorum_step Q (t, c) (now, ?c1)" by (rule answers [OF assms(1,2) refl assms(3,7,5) run])
  moreover have "quorum_step Q (now, ?c1) (now, ?c2)"
    by (rule folds) (use assms in \<open>auto simp: set_node_def\<close>)
  ultimately have "quorum_run Q (t, c) (now, ?c2)" by (meson r_into_rtranclp rtranclp.rtrancl_into_rtrancl)
  moreover have "cl_calls ?c2 = cl_calls c" by (simp add: set_node_def)
  moreover have "core_of ?c2 = (core_of c)(?q := core, n := fold_reply cl r (core_of c n))"
    using assms(4) cores by simp
  ultimately show ?thesis by (intro exI conjI)
qed

text \<open>A tick of \<open>n\<close>, by what it does.\<close>

lemma tick_run:
  assumes "n \<in> Q" "nd_running (cl_node c n)" "t \<le> now" "decide_step rng now (cl_node c n) = (nd, st)"
  shows "\<exists>c'. quorum_run Q (t, c) (now, c') \<and> core_of c' = (core_of c)(n := nd_core nd) \<and>
    Pair n ` set (spawn_calls (nd_peer_ids nd) st) \<subseteq> cl_calls c'"
  by (intro exI conjI, rule r_into_rtranclp, rule ticks [OF assms]) simp_all

lemma tick_elect:
  assumes "n \<in> Q" "nd_running (cl_node c n)" "\<not> is_leader (core_of c n)" "pre_vote_succeeded (core_of c n)"
    and "start_election rng t (core_of c n) = (core, args)"
  shows "\<exists>c'. quorum_run Q (t, c) (t, c') \<and> core_of c' = (core_of c)(n := core) \<and>
    (\<forall>p \<in> set (nd_peer_ids (cl_node c n)). (n, CallVote p args) \<in> cl_calls c')"
proof -
  let ?d = "cl_node c n"
  have "decide_step rng t ?d = (?d\<lparr>nd_core := core\<rparr>, StepStartElection args)"
    using assms(3-5) by (simp add: decide_step_def Let_def core_of_def)
  from tick_run [OF assms(1,2) order_refl this] show ?thesis by fastforce
qed

lemma tick_probe:
  assumes "n \<in> Q" "nd_running (cl_node c n)" "\<not> is_leader (core_of c n)" "\<not> pre_vote_succeeded (core_of c n)"
    and "t \<le> now" "cm_election_deadline (core_of c n) \<le> now" "start_pre_election rng now (core_of c n) = (core, args)"
  shows "\<exists>c'. quorum_run Q (t, c) (now, c') \<and> core_of c' = (core_of c)(n := core) \<and>
    (\<forall>p \<in> set (nd_peer_ids (cl_node c n)). (n, CallPreVote p args) \<in> cl_calls c')"
proof -
  let ?d = "cl_node c n"
  have "decide_step rng now ?d = (?d\<lparr>nd_core := core\<rparr>, StepStartPreElection args)"
    using assms(3,4,6,7) by (simp add: decide_step_def Let_def core_of_def election_timed_out_def is_leader_def)
  from tick_run [OF assms(1,2,5) this] show ?thesis by fastforce
qed

text \<open>When a heartbeat is due, a leader calls every peer.\<close>

definition leader_call :: "'s consensus_module \<Rightarrow> nat \<Rightarrow> call" where
  "leader_call core p =
     (if needs_snapshot core p then CallInstall p (install_snapshot_args core p) else CallAppend p (append_args_for core p))"

lemma leader_call_dst [simp]: "call_dst (leader_call core p) = p"
  by (simp add: leader_call_def)

lemma tick_lead:
  assumes "n \<in> Q" "nd_running (cl_node c n)" "is_leader (core_of c n)" "p \<in> set (nd_peer_ids (cl_node c n))"
  shows "\<exists>now c'. quorum_run Q (t, c) (now, c') \<and> core_of c' = core_of c \<and>
    (n, leader_call (core_of c n) p) \<in> cl_calls c'"
proof -
  let ?d = "cl_node c n"
  let ?now = "t + nd_last_heartbeat ?d + heartbeat (nd_timing ?d)"
  let ?ms = "List.map_filter (message_for True (core_of c n)) (nd_peer_ids ?d)"
  let ?m = "if needs_snapshot (core_of c n) p then (p, OutSnapshot (install_snapshot_args (core_of c n) p))
    else (p, OutAppend (append_args_for (core_of c n) p))"
  have m: "message_for True (core_of c n) p = Some ?m" "call_of ?m = leader_call (core_of c n) p"
    by (simp_all add: message_for_def leader_call_def Let_def)
  then have mem: "?m \<in> set ?ms" using assms(4) unfolding map_filter_mem by blast
  then have "?ms \<noteq> []" by (metis empty_iff empty_set)
  then have "decide_step (\<lambda>lo hi. lo) ?now ?d = (?d\<lparr>nd_last_heartbeat := ?now\<rparr>, StepReplicate ?ms)"
    using assms(3) by (simp add: decide_step_def Let_def core_of_def)
  from tick_run [OF assms(1,2) _ this, of t] obtain c' where c': "quorum_run Q (t, c) (?now, c')"
    "core_of c' = (core_of c)(n := core_of c n)" "Pair n ` call_of ` set ?ms \<subseteq> cl_calls c'"
    by (auto simp: core_of_def)
  have "(n, leader_call (core_of c n) p) \<in> cl_calls c'" using c'(3) mem m(2) [symmetric] by blast
  with c'(1,2) show ?thesis by (intro exI [of _ ?now] exI [of _ c']) simp
qed

text \<open>Calls of a lower term are answered with the higher one, by a node that does not change.\<close>

definition rebuffed :: "call \<Rightarrow> 's consensus_module \<Rightarrow> 's consensus_module \<Rightarrow> bool" where
  "rebuffed cl caller callee \<longleftrightarrow>
     (\<forall>now. \<exists>r. serve_call (\<lambda>lo hi. lo) now cl callee = (callee, r) \<and>
        fold_reply cl r caller = (step_down (cm_current_term callee) caller)\<lparr>cm_leader_id := None\<rparr>)"

lemma rebuffed_pre_vote:
  "rv_pre_vote a \<Longrightarrow> cm_current_term caller < cm_current_term callee \<Longrightarrow> rebuffed (CallPreVote p a) caller callee"
  by (simp add: rebuffed_def service_request_vote_def handle_request_vote_def record_pre_vote_reply_def Let_def)

lemma rebuffed_vote:
  "\<not> rv_pre_vote a \<Longrightarrow> rv_term a < cm_current_term callee \<Longrightarrow> cm_current_term caller < cm_current_term callee \<Longrightarrow>
   rebuffed (CallVote p a) caller callee"
  by (simp add: rebuffed_def service_request_vote_def handle_request_vote_def record_vote_reply_def Let_def)

lemma rebuffed_lead:
  "cm_current_term caller < cm_current_term callee \<Longrightarrow> rebuffed (leader_call caller p) caller callee"
  by (simp add: rebuffed_def leader_call_def service_append_entries_def handle_append_entries_def
      service_install_snapshot_def handle_install_snapshot_def handle_append_reply_def append_reply_rejected_def
      handle_install_snapshot_reply_def append_args_for_def install_snapshot_args_def Let_def flip: over_wire_def)

section \<open>Terms and logs of a quorum\<close>

definition level :: "nat set \<Rightarrow> nat \<Rightarrow> 's cluster \<Rightarrow> bool" where
  "level Q T c \<longleftrightarrow> (\<forall>q \<in> Q. cm_current_term (core_of c q) = T)"

text \<open>\<open>n\<close> has a log as good as that of every node of \<open>Q\<close>.\<close>

definition best_log :: "nat set \<Rightarrow> nat \<Rightarrow> 's cluster \<Rightarrow> bool" where
  "best_log Q n c \<longleftrightarrow>
     (\<forall>q \<in> Q. log_is_up_to_date (last_index (cm_log (core_of c n))) (last_term (cm_log (core_of c n))) (core_of c q))"

lemma best_log_exists:
  assumes "finite Q" "Q \<noteq> {}"
  shows "\<exists>n \<in> Q. best_log Q n c"
proof -
  let ?t = "\<lambda>n. last_term (cm_log (core_of c n))" and ?i = "\<lambda>n. last_index (cm_log (core_of c n))"
  let ?top = "{n \<in> Q. ?t n = Max (?t ` Q)}"
  have "Max (?t ` Q) \<in> ?t ` Q" using assms by (intro Max_in) auto
  then have "?top \<noteq> {}" by fastforce
  then have "Max (?i ` ?top) \<in> ?i ` ?top" using assms(1) by (intro Max_in) auto
  then obtain n where n: "n \<in> ?top" "?i n = Max (?i ` ?top)" by auto
  have "?t q < ?t n \<or> ?t q = ?t n \<and> ?i q \<le> ?i n" if q: "q \<in> Q" for q
  proof -
    have "?t q \<le> ?t n" using n(1) q assms(1) by simp
    moreover have "?i q \<le> ?i n" if "?t q = ?t n"
      unfolding n(2) by (rule Max_ge) (use assms(1) q n(1) that in auto)
    ultimately show ?thesis by linarith
  qed
  then have "best_log Q n c" unfolding best_log_def log_is_up_to_date_def by metis
  with n(1) show ?thesis by blast
qed

section \<open>Ballots\<close>

lemma pre_vote_granted:
  assumes "rv_pre_vote a" "cm_current_term q \<le> rv_term a" "\<not> is_leader q"
    and "election_min (cm_timing q) + cm_last_leader_contact q \<le> now"
    and "log_is_up_to_date (rv_last_log_index a) (rv_last_log_term a) q"
  shows "serve_call rng now (CallPreVote p a) q = (q, VoteReply \<lparr>rvr_term = cm_current_term q, rvr_vote_granted = True\<rparr>)"
  using assms by (simp add: service_request_vote_def handle_request_vote_def is_leader_def Let_def)

lemma vote_granted:
  assumes "\<not> rv_pre_vote a" "cm_current_term q < rv_term a"
    and "log_is_up_to_date (rv_last_log_index a) (rv_last_log_term a) q"
  shows "\<exists>q'. serve_call rng now (CallVote p a) q = (q', VoteReply \<lparr>rvr_term = rv_term a, rvr_vote_granted = True\<rparr>) \<and>
    cm_current_term q' = rv_term a"
  using assms by (simp add: service_request_vote_def handle_request_vote_def Let_def max_absorb1)

text \<open>A candidate of term \<open>T\<close> that has the votes of \<open>S\<close>, or has won already.\<close>

definition counting :: "nat \<Rightarrow> nat set \<Rightarrow> 's consensus_module \<Rightarrow> bool" where
  "counting T S core \<longleftrightarrow>
     cm_current_term core = T \<and> finite (cm_votes core) \<and>
     (is_leader core \<or> cm_role core = Candidate \<and> S \<subseteq> cm_votes core \<and> card (cm_votes core) < cm_quorum core)"

lemma counting_vote:
  assumes "counting T S core"
  shows "counting T (insert p S) (record_vote_reply p \<lparr>rvr_term = T, rvr_vote_granted = True\<rparr> core)"
  using assms by (auto simp: counting_def record_vote_reply_def maybe_become_leader_def is_leader_def)

lemma counting_won:
  assumes "counting T S core" "cm_quorum core \<le> card S"
  shows "is_leader core"
proof (rule ccontr)
  assume "\<not> is_leader core"
  with assms(1) have "finite (cm_votes core)" "S \<subseteq> cm_votes core" "card (cm_votes core) < cm_quorum core"
    by (auto simp: counting_def)
  with card_mono [of "cm_votes core" S] assms(2) show False by simp
qed

section \<open>What reachable states provide\<close>

text \<open>
  The interface to the cluster: a set \<open>R\<close> of states, closed under its steps, that refine the
  protocol. \<open>live\<close>: the nodes of a majority \<open>Q\<close> run.
\<close>

definition live :: "('s cluster \<Rightarrow> bool) \<Rightarrow> peer list \<Rightarrow> nat set \<Rightarrow> 's cluster \<Rightarrow> bool" where
  "live R ms Q c \<longleftrightarrow> R c \<and> majority ms Q \<and> (\<forall>q \<in> Q. nd_running (cl_node c q))"

lemma liveD:
  assumes "live R ms Q c"
  shows "R c" "majority ms Q" "q \<in> Q \<Longrightarrow> nd_running (cl_node c q)" "q \<in> Q \<Longrightarrow> q \<in> ids ms" "finite Q"
  using assms finite_subset [of Q "ids ms"] by (auto simp: live_def majority_def)

locale raft_world =
  fixes R :: "'s cluster \<Rightarrow> bool" and ms :: "peer list" and tim :: timing
  assumes world_rel: "R c \<Longrightarrow> \<exists>g. cluster_rel ms g c"
    and world_step: "R c \<Longrightarrow> cluster_step (\<lambda>_. True) ms tim c c' \<Longrightarrow> R c'"
begin

lemma run_world:
  assumes "quorum_run Q s s'" "R (snd s)" "Q \<subseteq> ids ms"
  shows "R (snd s')"
  using assms
proof (induction rule: rtranclp_induct)
  case (step s1 s2)
  from world_step [OF step.IH [OF step.prems] quorum_step_cluster [OF _ assms(3)]] step(2) show ?case
    by (metis prod.collapse)
qed

lemma run_live: "quorum_run Q (t, c) (t', c') \<Longrightarrow> live R ms Q c \<Longrightarrow> live R ms Q c'"
  using run_world [of Q "(t, c)" "(t', c')"] running_kept [of Q "(t, c)" "(t', c')" Q]
  by (auto simp: live_def majority_def)

lemma node_facts:
  assumes "R c" "n \<in> ids ms"
  shows "cm_id (core_of c n) = n" "cm_peers (core_of c n) = peers_of ms n" "cm_inv (core_of c n)"
    and "cm_quorum (core_of c n) = length ms div 2 + 1" "nd_peer_ids (cl_node c n) = peers_of ms n"
proof -
  obtain g where g: "cluster_rel ms g c" using world_rel [OF assms(1)] by blast
  note nr = cluster_relD(2) [OF g assms(2)]
  show "cm_id (core_of c n) = n" "cm_peers (core_of c n) = peers_of ms n" "cm_inv (core_of c n)"
    using node_relD(3-5) [OF nr] .
  then show "cm_quorum (core_of c n) = length ms div 2 + 1"
    using cm_invD(8) [OF \<open>cm_inv (core_of c n)\<close>] quorum_of_peers [OF node_relD(1) [OF nr] assms(2)] by simp
  show "nd_peer_ids (cl_node c n) = peers_of ms n" by (rule cluster_relD(3) [OF g assms(2)])
qed

lemma quorum_peers: "R c \<Longrightarrow> n \<in> ids ms \<Longrightarrow> q \<in> ids ms \<Longrightarrow> q \<noteq> n \<Longrightarrow> q \<in> set (nd_peer_ids (cl_node c n))"
  by (simp add: node_facts set_peers_of)

text \<open>Two members make a quorum larger than one.\<close>

lemma quorum_two:
  assumes "majority ms Q" "n \<in> Q" "q \<in> Q" "q \<noteq> n"
  shows "1 < length ms div 2 + 1"
proof -
  have "card {n, q} \<le> card (ids ms)" by (rule card_mono) (use assms in \<open>auto simp: majority_def\<close>)
  then have "2 \<le> length ms" using assms(1,4) card_ids [of ms] by (simp add: majority_def)
  then show ?thesis by simp
qed

section \<open>Catching up with the highest term\<close>

text \<open>
  A node that is behind learns the term of a node that is ahead, by whatever it sends next; only
  the node itself changes, and it does not lead afterwards.
\<close>

lemma live_exchange:
  assumes "live R ms Q c" "n \<in> Q" "q \<in> Q" "q \<noteq> n" "(n, cl) \<in> cl_calls c" "call_dst cl = q" "t \<le> now"
    and "serve_call rng now cl (core_of c q) = (core, r)"
  shows "\<exists>c'. quorum_run Q (t, c) (now, c') \<and> cl_calls c' = cl_calls c \<and>
    core_of c' = (core_of c)(q := core, n := fold_reply cl r (core_of c n))"
  using exchange [of n cl c Q t now rng core r] assms(2-8) liveD(3) [OF assms(1)] by blast

lemma learn_from:
  assumes live: "live R ms Q c" "n \<in> Q" "m \<in> Q" "n \<noteq> m"
    and run: "quorum_run Q (t, c) (t1, c1)" "core_of c1 = (core_of c)(n := core)" "(n, cl) \<in> cl_calls c1" "call_dst cl = m"
    and reb: "rebuffed cl core (core_of c m)" "cm_current_term core \<le> cm_current_term (core_of c m)"
  shows "\<exists>c' core'. quorum_run Q (t, c) (t1, c') \<and> core_of c' = (core_of c)(n := core') \<and>
    cm_current_term core' = cm_current_term (core_of c m) \<and> \<not> is_leader core' \<and> cm_log core' = cm_log core"
proof -
  let ?down = "(step_down (cm_current_term (core_of c m)) core)\<lparr>cm_leader_id := None\<rparr>"
  have m: "core_of c1 m = core_of c m" using run(2) live(4) by simp
  obtain r where r: "serve_call (\<lambda>lo hi. lo) t1 cl (core_of c1 m) = (core_of c1 m, r)" "fold_reply cl r core = ?down"
    using reb(1) m unfolding rebuffed_def by metis
  obtain c' where c': "quorum_run Q (t1, c1) (t1, c')" "core_of c' = (core_of c1)(n := fold_reply cl r (core_of c1 n))"
    using live_exchange [OF run_live [OF run(1) live(1)] live(2,3) live(4) [symmetric] run(3,4) order_refl r(1)] by auto
  have "quorum_run Q (t, c) (t1, c')" using run(1) c'(1) by simp
  moreover have "core_of c' = (core_of c)(n := ?down)" using c'(2) run(2) r(2) by simp
  ultimately show ?thesis
    using reb(2) by (intro exI [of _ c'] exI [of _ ?down]) (simp add: is_leader_def max_absorb1)
qed

lemma learn_term:
  assumes live: "live R ms Q c" "n \<in> Q" "m \<in> Q" and behind: "cm_current_term (core_of c n) < cm_current_term (core_of c m)"
  shows "\<exists>t' c' core. quorum_run Q (t, c) (t', c') \<and> core_of c' = (core_of c)(n := core) \<and>
    cm_current_term core = cm_current_term (core_of c m) \<and> \<not> is_leader core \<and> cm_log core = cm_log (core_of c n)"
proof -
  let ?n = "core_of c n" and ?T = "cm_current_term (core_of c m)"
  note L = liveD [OF live(1)]
  have nm: "n \<noteq> m" using behind by auto
  have peer: "m \<in> set (nd_peer_ids (cl_node c n))" by (rule quorum_peers) (use L live nm in auto)
  consider (lead) "is_leader ?n" | (elect) "\<not> is_leader ?n" "pre_vote_succeeded ?n"
    | (probe) "\<not> is_leader ?n" "\<not> pre_vote_succeeded ?n" by blast
  then show ?thesis
  proof cases
    case lead
    from tick_lead [OF live(2) L(3) [OF live(2)] lead peer, of t] obtain t1 c1 where
      "quorum_run Q (t, c) (t1, c1)" "core_of c1 = (core_of c)(n := ?n)" "(n, leader_call ?n m) \<in> cl_calls c1" by auto
    from learn_from [OF live nm this leader_call_dst rebuffed_lead [OF behind]] behind show ?thesis by auto
  next
    case probe
    obtain core args where p: "start_pre_election (\<lambda>lo hi. lo) (t + cm_election_deadline ?n) ?n = (core, args)" by fastforce
    then have core: "rv_pre_vote args" "cm_current_term core = cm_current_term ?n" "cm_log core = cm_log ?n"
      by (auto simp: start_pre_election_def Let_def)
    from tick_probe [OF live(2) L(3) [OF live(2)] probe _ _ p, of t] obtain t1 c1 where
      "quorum_run Q (t, c) (t1, c1)" "core_of c1 = (core_of c)(n := core)" "(n, CallPreVote m args) \<in> cl_calls c1"
      using peer by auto
    from learn_from [OF live nm this _ rebuffed_pre_vote [OF core(1)]] core behind show ?thesis by auto
  next
    case elect
    obtain core args where p: "start_election (\<lambda>lo hi. lo) t ?n = (core, args)" by fastforce
    have "1 < cm_quorum ?n"
      using quorum_two [OF L(2) live(2,3)] nm node_facts(4) [OF L(1) L(4) [OF live(2)]] by simp
    with p have core: "\<not> rv_pre_vote args" "rv_term args = Suc (cm_current_term ?n)" "\<not> is_leader core"
      "cm_current_term core = Suc (cm_current_term ?n)" "cm_log core = cm_log ?n"
      by (auto simp: start_election_def maybe_become_leader_def is_leader_def Let_def)
    from tick_elect [OF live(2) L(3) [OF live(2)] elect p] obtain c1 where
      c1: "quorum_run Q (t, c) (t, c1)" "core_of c1 = (core_of c)(n := core)" "(n, CallVote m args) \<in> cl_calls c1"
      using peer by auto
    show ?thesis
    proof (cases "Suc (cm_current_term ?n) = ?T")
      case True
      with c1 core show ?thesis by auto
    next
      case False
      with behind have "rv_term args < ?T" "cm_current_term core < ?T" using core by simp_all
      from learn_from [OF live nm c1 _ rebuffed_vote [OF core(1) this]] core behind show ?thesis by auto
    qed
  qed
qed

text \<open>So all nodes of a quorum can reach the highest term among them; their logs stay.\<close>

lemma all_learn:
  assumes "live R ms Q c" "m \<in> Q" "\<And>q. q \<in> Q \<Longrightarrow> cm_current_term (core_of c q) \<le> cm_current_term (core_of c m)"
  shows "\<exists>t' c'. quorum_run Q (t, c) (t', c') \<and> level Q (cm_current_term (core_of c m)) c' \<and>
    (\<forall>q \<in> Q. cm_log (core_of c' q) = cm_log (core_of c q))"
  using assms
proof (induction "card {q \<in> Q. cm_current_term (core_of c q) < cm_current_term (core_of c m)}" arbitrary: c t rule: less_induct)
  case less
  let ?T = "cm_current_term (core_of c m)"
  let ?B = "\<lambda>c. {q \<in> Q. cm_current_term (core_of c q) < ?T}"
  show ?case
  proof (cases "?B c = {}")
    case True
    with less.prems(3) have "level Q ?T c" by (fastforce simp: level_def)
    then show ?thesis by blast
  next
    case False
    then obtain n where n: "n \<in> Q" "cm_current_term (core_of c n) < ?T" by blast
    obtain t1 c1 core where c1: "quorum_run Q (t, c) (t1, c1)" "core_of c1 = (core_of c)(n := core)"
      "cm_current_term core = ?T" "cm_log core = cm_log (core_of c n)"
      using learn_term [OF less.prems(1) n(1) less.prems(2) n(2)] by blast
    have m: "core_of c1 m = core_of c m" using c1(2) n(2) by auto
    have "?B c1 \<subset> ?B c" using n c1(2,3) by auto
    then have "card (?B c1) < card (?B c)" using liveD(5) [OF less.prems(1)] by (intro psubset_card_mono) auto
    then have "\<exists>t' c'. quorum_run Q (t1, c1) (t', c') \<and> level Q ?T c' \<and> (\<forall>q \<in> Q. cm_log (core_of c' q) = cm_log (core_of c1 q))"
      using less.hyps [of c1 t1] run_live [OF c1(1) less.prems(1)] less.prems(2,3) c1(2,3) m by auto
    then obtain t' c' where "quorum_run Q (t1, c1) (t', c')" "level Q ?T c'"
      "\<forall>q \<in> Q. cm_log (core_of c' q) = cm_log (core_of c1 q)" by blast
    moreover from this(1) c1(1) have "quorum_run Q (t, c) (t', c')" by simp
    ultimately show ?thesis using c1(2,4) by (intro exI conjI) auto
  qed
qed

section \<open>Winning an election\<close>

lemma gather_pre_votes:
  assumes live: "live R ms Q c" "n \<in> Q" and lv: "level Q T c" "\<forall>q \<in> Q. \<not> is_leader (core_of c q)"
    and args: "rv_pre_vote args" "rv_term args = Suc T"
      "\<forall>q \<in> Q. log_is_up_to_date (rv_last_log_index args) (rv_last_log_term args) (core_of c q)"
    and cand: "cm_pre_candidate (core_of c n)" "\<forall>q \<in> Q - {n}. (n, CallPreVote q args) \<in> cl_calls c"
    and S: "finite S" "S \<subseteq> Q - {n}"
  shows "\<exists>t' c'. quorum_run Q (t, c) (t', c') \<and> cl_calls c' = cl_calls c \<and>
    core_of c' = (core_of c)(n := (core_of c n)\<lparr>cm_pre_votes := cm_pre_votes (core_of c n) \<union> S\<rparr>)"
  using S
proof (induction S rule: finite_induct)
  case empty
  have "core_of c = (core_of c)(n := (core_of c n)\<lparr>cm_pre_votes := cm_pre_votes (core_of c n) \<union> {}\<rparr>)" by simp
  then show ?case by blast
next
  case (insert q S)
  let ?n = "\<lambda>S. (core_of c n)\<lparr>cm_pre_votes := cm_pre_votes (core_of c n) \<union> S\<rparr>"
  obtain t1 c1 where c1: "quorum_run Q (t, c) (t1, c1)" "cl_calls c1 = cl_calls c" "core_of c1 = (core_of c)(n := ?n S)"
    using insert by blast
  have q: "q \<in> Q" "q \<noteq> n" using insert.prems by auto
  let ?q = "core_of c q" and ?now = "t1 + election_min (cm_timing (core_of c q)) + cm_last_leader_contact (core_of c q)"
  have serve: "serve_call (\<lambda>lo hi. lo) ?now (CallPreVote q args) (core_of c1 q) = (?q, VoteReply \<lparr>rvr_term = T, rvr_vote_granted = True\<rparr>)"
    using pre_vote_granted [of args ?q ?now] args lv q c1(3) by (simp add: level_def)
  have "\<exists>c'. quorum_run Q (t1, c1) (?now, c') \<and> cl_calls c' = cl_calls c1 \<and> core_of c' = (core_of c1)(q := ?q,
      n := fold_reply (CallPreVote q args) (VoteReply \<lparr>rvr_term = T, rvr_vote_granted = True\<rparr>) (core_of c1 n))"
    by (rule live_exchange [OF run_live [OF c1(1) live(1)] live(2) q _ _ _ serve]) (use cand(2) q c1(2) in auto)
  then obtain c' where c': "quorum_run Q (t1, c1) (?now, c')" "cl_calls c' = cl_calls c1"
    "core_of c' = (core_of c1)(q := ?q, n := record_pre_vote_reply q \<lparr>rvr_term = T, rvr_vote_granted = True\<rparr> (core_of c1 n))" by auto
  have "record_pre_vote_reply q \<lparr>rvr_term = T, rvr_vote_granted = True\<rparr> (?n S) = ?n (insert q S)"
    using lv(1) live(2) cand(1) by (simp add: record_pre_vote_reply_def level_def)
  then have "core_of c' = (core_of c)(n := ?n (insert q S))" using c'(3) c1(3) q by auto
  moreover have "quorum_run Q (t, c) (?now, c')" using c1(1) c'(1) by simp
  ultimately show ?case using c'(2) c1(2) by metis
qed

lemma win_pre_vote:
  assumes live: "live R ms Q c" "n \<in> Q" and lv: "level Q T c" "\<forall>q \<in> Q. \<not> is_leader (core_of c q)" and best: "best_log Q n c"
  shows "\<exists>t' c' core. quorum_run Q (t, c) (t', c') \<and> core_of c' = (core_of c)(n := core) \<and>
    pre_vote_succeeded core \<and> \<not> is_leader core \<and> cm_current_term core = T \<and> cm_log core = cm_log (core_of c n)"
proof (cases "pre_vote_succeeded (core_of c n)")
  case True
  have "core_of c = (core_of c)(n := core_of c n)" by simp
  with True lv live(2) show ?thesis unfolding level_def by blast
next
  case False
  let ?n = "core_of c n"
  note L = liveD [OF live(1)]
  obtain core args where p: "start_pre_election (\<lambda>lo hi. lo) (t + cm_election_deadline ?n) ?n = (core, args)" by fastforce
  then have core: "rv_pre_vote args" "rv_term args = Suc T" "cm_current_term core = T" "cm_log core = cm_log ?n"
    "cm_pre_candidate core" "cm_pre_votes core = {n}" "\<not> is_leader core"
    "rv_last_log_index args = last_index (cm_log ?n)" "rv_last_log_term args = last_term (cm_log ?n)"
    using lv live(2) node_facts(1) [OF L(1) L(4) [OF live(2)]]
    by (auto simp: start_pre_election_def Let_def level_def is_leader_def)
  have "\<not> is_leader ?n" using lv(2) live(2) by blast
  from tick_probe [OF live(2) L(3) [OF live(2)] this False _ _ p, of t] obtain c1 where
    c1: "quorum_run Q (t, c) (t + cm_election_deadline ?n, c1)" "core_of c1 = (core_of c)(n := core)"
      "\<forall>q \<in> Q - {n}. (n, CallPreVote q args) \<in> cl_calls c1"
    using quorum_peers [OF L(1) L(4) [OF live(2)] L(4)] by auto
  note live1 = run_live [OF c1(1) live(1)]
  have "\<exists>t' c'. quorum_run Q (t + cm_election_deadline ?n, c1) (t', c') \<and> cl_calls c' = cl_calls c1 \<and>
      core_of c' = (core_of c1)(n := (core_of c1 n)\<lparr>cm_pre_votes := cm_pre_votes (core_of c1 n) \<union> (Q - {n})\<rparr>)"
    by (rule gather_pre_votes [OF live1 live(2), of T args])
      (use lv c1 core best L(5) in \<open>auto simp: level_def best_log_def log_is_up_to_date_def\<close>)
  then obtain t' c' where c': "quorum_run Q (t + cm_election_deadline ?n, c1) (t', c')"
    "core_of c' = (core_of c)(n := core\<lparr>cm_pre_votes := Q\<rparr>)"
    using c1(2) core(6) live(2) by (auto simp: insert_absorb)
  have run: "quorum_run Q (t, c) (t', c')" using c1(1) c'(1) by simp
  have "cm_quorum (core_of c' n) \<le> card Q"
    using node_facts(4) [OF liveD(1) [OF run_live [OF run live(1)]] L(4) [OF live(2)]] L(2) by (simp add: majority_def)
  with run c'(2) core show ?thesis
    by (intro exI [of _ t'] exI [of _ c'] exI [of _ "core\<lparr>cm_pre_votes := Q\<rparr>"]) (simp add: pre_vote_succeeded_def is_leader_def)
qed

lemma gather_votes:
  assumes live: "live R ms Q c" "n \<in> Q" and below: "\<forall>q \<in> Q - {n}. cm_current_term (core_of c q) < T"
    and args: "\<not> rv_pre_vote args" "rv_term args = T"
      "\<forall>q \<in> Q. log_is_up_to_date (rv_last_log_index args) (rv_last_log_term args) (core_of c q)"
    and cand: "counting T {n} (core_of c n)" "\<forall>q \<in> Q - {n}. (n, CallVote q args) \<in> cl_calls c"
    and S: "finite S" "S \<subseteq> Q - {n}"
  shows "\<exists>t' c'. quorum_run Q (t, c) (t', c') \<and> cl_calls c' = cl_calls c \<and> counting T (insert n S) (core_of c' n) \<and>
    (\<forall>q. q \<notin> insert n S \<longrightarrow> core_of c' q = core_of c q) \<and> (\<forall>q \<in> S. cm_current_term (core_of c' q) = T)"
  using S
proof (induction S rule: finite_induct)
  case empty
  with cand(1) show ?case by auto
next
  case (insert q S)
  obtain t1 c1 where c1: "quorum_run Q (t, c) (t1, c1)" "cl_calls c1 = cl_calls c" "counting T (insert n S) (core_of c1 n)"
    "\<forall>q. q \<notin> insert n S \<longrightarrow> core_of c1 q = core_of c q" "\<forall>q \<in> S. cm_current_term (core_of c1 q) = T"
    using insert by blast
  have q: "q \<in> Q" "q \<noteq> n" "core_of c1 q = core_of c q" using insert.prems insert.hyps c1(4) by auto
  let ?reply = "VoteReply \<lparr>rvr_term = T, rvr_vote_granted = True\<rparr>"
  obtain core where core: "serve_call (\<lambda>lo hi. lo) t1 (CallVote q args) (core_of c1 q) = (core, ?reply)" "cm_current_term core = T"
    using vote_granted [OF args(1), of "core_of c q"] below args(2,3) q by force
  have "\<exists>c'. quorum_run Q (t1, c1) (t1, c') \<and> cl_calls c' = cl_calls c1 \<and>
      core_of c' = (core_of c1)(q := core, n := fold_reply (CallVote q args) ?reply (core_of c1 n))"
    by (rule live_exchange [OF run_live [OF c1(1) live(1)] live(2) q(1,2) _ _ order_refl core(1)]) (use cand(2) q c1(2) in auto)
  then obtain c' where c': "quorum_run Q (t1, c1) (t1, c')" "cl_calls c' = cl_calls c"
    "core_of c' = (core_of c1)(q := core, n := record_vote_reply q \<lparr>rvr_term = T, rvr_vote_granted = True\<rparr> (core_of c1 n))"
    using c1(2) by auto
  have "quorum_run Q (t, c) (t1, c')" using c1(1) c'(1) by simp
  moreover have "counting T (insert n (insert q S)) (core_of c' n)"
    using counting_vote [OF c1(3), of q] c'(3) by (simp add: insert_commute)
  ultimately show ?case
    using c'(2,3) c1(4,5) core(2) insert.prems by (intro exI [of _ t1] exI [of _ c'] conjI) auto
qed

lemma win_election:
  assumes live: "live R ms Q c" "n \<in> Q" and lv: "level Q T c" and ready: "pre_vote_succeeded (core_of c n)" "\<not> is_leader (core_of c n)"
    and best: "best_log Q n c"
  shows "\<exists>t' c'. quorum_run Q (t, c) (t', c') \<and> is_leader (core_of c' n) \<and> level Q (Suc T) c'"
proof -
  let ?n = "core_of c n"
  note L = liveD [OF live(1)]
  obtain core args where p: "start_election (\<lambda>lo hi. lo) t ?n = (core, args)" by fastforce
  have "cm_inv ?n" "cm_id ?n = n" using node_facts [OF L(1) L(4) [OF live(2)]] by auto
  with p have core: "\<not> rv_pre_vote args" "rv_term args = Suc T" "cm_log core = cm_log ?n" "counting (Suc T) {n} core"
    "rv_last_log_index args = last_index (cm_log ?n)" "rv_last_log_term args = last_term (cm_log ?n)"
    using lv live(2) by (auto simp: start_election_def Let_def level_def counting_def is_leader_def maybe_become_leader_def)
  from tick_elect [OF live(2) L(3) [OF live(2)] ready(2,1) p] obtain c1 where
    c1: "quorum_run Q (t, c) (t, c1)" "core_of c1 = (core_of c)(n := core)" "\<forall>q \<in> Q - {n}. (n, CallVote q args) \<in> cl_calls c1"
    using quorum_peers [OF L(1) L(4) [OF live(2)] L(4)] by auto
  have "\<exists>t' c'. quorum_run Q (t, c1) (t', c') \<and> cl_calls c' = cl_calls c1 \<and> counting (Suc T) (insert n (Q - {n})) (core_of c' n) \<and>
      (\<forall>q. q \<notin> insert n (Q - {n}) \<longrightarrow> core_of c' q = core_of c1 q) \<and> (\<forall>q \<in> Q - {n}. cm_current_term (core_of c' q) = Suc T)"
    by (rule gather_votes [OF run_live [OF c1(1) live(1)] live(2), of "Suc T" args])
      (use lv c1 core best L(5) in \<open>auto simp: level_def best_log_def log_is_up_to_date_def\<close>)
  then obtain t' c' where c': "quorum_run Q (t, c1) (t', c')" "counting (Suc T) Q (core_of c' n)"
    "\<forall>q \<in> Q - {n}. cm_current_term (core_of c' q) = Suc T"
    using live(2) by (auto simp: insert_absorb)
  have run: "quorum_run Q (t, c) (t', c')" using c1(1) c'(1) by simp
  have "cm_quorum (core_of c' n) \<le> card Q"
    using node_facts(4) [OF liveD(1) [OF run_live [OF run live(1)]] L(4) [OF live(2)]] L(2) by (simp add: majority_def)
  from counting_won [OF c'(2) this] have "is_leader (core_of c' n)" .
  moreover have "level Q (Suc T) c'" using c'(2,3) by (auto simp: level_def counting_def)
  ultimately show ?thesis using run by blast
qed

text \<open>A majority of running nodes can always have a leader among them, of the highest term in the majority.\<close>

lemma elect_leader:
  assumes live: "live R ms Q c"
  shows "\<exists>L \<in> Q. \<exists>t' c'. quorum_run Q (t, c) (t', c') \<and> is_leader (core_of c' L) \<and> level Q (cm_current_term (core_of c' L)) c'"
proof -
  note L = liveD [OF live]
  have ne: "Q \<noteq> {}" using L(2) by (auto simp: majority_def)
  let ?t = "\<lambda>q. cm_current_term (core_of c q)"
  have "Max (?t ` Q) \<in> ?t ` Q" using L(5) ne by (intro Max_in) auto
  then obtain m where m: "m \<in> Q" "?t m = Max (?t ` Q)" by auto
  have top: "?t q \<le> ?t m" if "q \<in> Q" for q unfolding m(2) by (rule Max_ge) (use L(5) that in auto)
  obtain t1 c1 where c1: "quorum_run Q (t, c) (t1, c1)" "level Q (?t m) c1" using all_learn [OF live m(1) top] by blast
  note live1 = run_live [OF c1(1) live]
  show ?thesis
  proof (cases "\<exists>q \<in> Q. is_leader (core_of c1 q)")
    case True
    then obtain q where "q \<in> Q" "is_leader (core_of c1 q)" by blast
    moreover from this(1) c1(2) have "cm_current_term (core_of c1 q) = ?t m" by (simp add: level_def)
    ultimately show ?thesis using c1 by metis
  next
    case False
    then have none: "\<forall>q \<in> Q. \<not> is_leader (core_of c1 q)" by blast
    obtain n where n: "n \<in> Q" "best_log Q n c1" using best_log_exists [OF L(5) ne] by blast
    obtain t2 c2 core where c2: "quorum_run Q (t1, c1) (t2, c2)" "core_of c2 = (core_of c1)(n := core)" "pre_vote_succeeded core"
      "\<not> is_leader core" "cm_current_term core = ?t m" "cm_log core = cm_log (core_of c1 n)"
      using win_pre_vote [OF live1 n(1) c1(2) none n(2)] by blast
    have "level Q (?t m) c2" "best_log Q n c2"
      using c1(2) n c2 by (auto simp: level_def best_log_def log_is_up_to_date_def)
    then obtain t3 c3 where c3: "quorum_run Q (t2, c2) (t3, c3)" "is_leader (core_of c3 n)" "level Q (Suc (?t m)) c3"
      using win_election [OF run_live [OF c2(1) live1] n(1), of "?t m" t2] c2(2-4) by auto
    have "quorum_run Q (t, c) (t3, c3)" using c1(1) c2(1) c3(1) by simp
    moreover have "level Q (cm_current_term (core_of c3 n)) c3" using c3(3) n(1) by (simp add: level_def)
    ultimately show ?thesis using n(1) c3(2) by blast
  qed
qed

end

end
