(* ===== verification/Raft_Scenario.thy ===== *)
theory Raft_Scenario
  imports Raft_Safety
begin

text \<open>
  Runs of a cluster as executable scripts, and one such run: three nodes on in-memory
  storage elect a leader, replicate a command, and two of them apply it. It shows that the
  theorems about reachable states speak of states in which something has happened.
\<close>

datatype action =
    Tick nat nat
  | Drain nat
  | Propose nat bytes
  | Serve nat nat call
  | Fold nat call reply

text \<open>One action, with the guards of the corresponding step; timers always draw the minimum.\<close>

fun act :: "peer list \<Rightarrow> action \<Rightarrow> 's cluster \<Rightarrow> 's cluster option" where
  "act ms (Tick n now) c =
     (if n \<in> ids ms \<and> nd_running (cl_node c n)
      then (case decide_step (\<lambda>lo hi. lo) now (cl_node c n) of (nd, st) \<Rightarrow>
              Some ((set_node n nd c)\<lparr>cl_calls := cl_calls c \<union> Pair n ` set (spawn_calls (nd_peer_ids nd) st)\<rparr>))
      else None)"
| "act ms (Drain n) c =
     (if n \<in> ids ms \<and> nd_running (cl_node c n)
      then map_option (\<lambda>nd. set_node n nd c) (drain_tick (cl_node c n)) else None)"
| "act ms (Propose n command) c =
     (if n \<in> ids ms \<and> nd_running (cl_node c n)
      then Some (set_node n (fst (node_propose command (cl_node c n))) c) else None)"
| "act ms (Serve now src cl) c =
     (let n = call_dst cl in
      if (src, cl) \<in> cl_calls c \<and> n \<in> ids ms \<and> nd_running (cl_node c n)
      then (case serve_call (\<lambda>lo hi. lo) now cl (core_of c n) of (core, r) \<Rightarrow>
              Some ((set_node n ((cl_node c n)\<lparr>nd_core := core\<rparr>) c)\<lparr>cl_replies := insert (src, cl, r) (cl_replies c)\<rparr>))
      else None)"
| "act ms (Fold n cl r) c =
     (if (n, cl, r) \<in> cl_replies c \<and> n \<in> ids ms \<and> nd_running (cl_node c n)
      then Some (set_node n ((cl_node c n)\<lparr>nd_core := fold_reply cl r (core_of c n)\<rparr>) c) else None)"

fun run_script :: "peer list \<Rightarrow> action list \<Rightarrow> 's cluster \<Rightarrow> 's cluster option" where
  "run_script ms [] c = Some c"
| "run_script ms (a # as) c = (case act ms a c of None \<Rightarrow> None | Some c \<Rightarrow> run_script ms as c)"

lemma act_step:
  assumes "act ms a c = Some c'"
  shows "cluster_step (\<lambda>_. True) ms tim c c'"
proof (cases a)
  case (Tick n now)
  with assms show ?thesis
    by (auto split: if_splits prod.splits intro!: driver tick)
next
  case (Drain n)
  with assms show ?thesis by (auto split: if_splits intro: driver drain)
next
  case (Propose n command)
  obtain nd res where r: "node_propose command (cl_node c n) = (nd, res)" by fastforce
  with Propose assms show ?thesis by (auto split: if_splits intro: propose [OF _ _ r])
next
  case (Serve now src cl)
  with assms show ?thesis
    by (auto simp: Let_def split: if_splits prod.splits intro!: driver serve)
next
  case (Fold n cl r)
  with assms show ?thesis by (auto split: if_splits intro!: driver driver_step.fold)
qed

lemma run_reach:
  assumes "run_script ms as c = Some c'" "cluster_reach (\<lambda>_. True) disk ms tim c"
  shows "cluster_reach (\<lambda>_. True) disk ms tim c'"
  using assms
proof (induction as arbitrary: c)
  case (Cons a as)
  then obtain c1 where "act ms a c = Some c1" "run_script ms as c1 = Some c'"
    by (auto split: option.splits)
  with Cons act_step cluster_reach.step show ?case by blast
qed simp

section \<open>Three nodes agree on a command\<close>

definition trio :: "peer list" where
  "trio = [\<lparr>peer_id = 1, peer_addr = ''a:1''\<rparr>, \<lparr>peer_id = 2, peer_addr = ''b:2''\<rparr>, \<lparr>peer_id = 3, peer_addr = ''c:3''\<rparr>]"

definition trio_node :: "nat \<Rightarrow> persistent_state node" where
  "trio_node n =
     (case start_node (\<lambda>lo hi. lo) (\<lambda>_. Inr Map.empty :: transport_error + string peer_clients)
             (config_for trio n) in_memory_new quick 0 of
        Inr (nd, _) \<Rightarrow> nd)"

definition trio_start :: "persistent_state cluster" where
  "trio_start = \<lparr>cl_node = trio_node, cl_calls = {}, cl_replies = {}\<rparr>"

definition probe :: request_vote_args where
  "probe = \<lparr>rv_term = 1, rv_candidate_id = 1, rv_last_log_index = 0, rv_last_log_term = 0, rv_pre_vote = True\<rparr>"

definition ship :: "log_entry list \<Rightarrow> nat \<Rightarrow> nat \<Rightarrow> append_entries_args" where
  "ship es prev commit =
     \<lparr>ae_term = 1, ae_leader_id = 1, ae_prev_log_index = prev, ae_prev_log_term = prev,
      ae_entries = es, ae_leader_commit = commit\<rparr>"

definition trio_script :: "action list" where
  "trio_script =
    [Tick 1 1,
     Serve 1 1 (CallPreVote 2 probe),
     Fold 1 (CallPreVote 2 probe) (VoteReply \<lparr>rvr_term = 0, rvr_vote_granted = True\<rparr>),
     Tick 1 2,
     Serve 2 1 (CallVote 2 (probe\<lparr>rv_pre_vote := False\<rparr>)),
     Fold 1 (CallVote 2 (probe\<lparr>rv_pre_vote := False\<rparr>)) (VoteReply \<lparr>rvr_term = 1, rvr_vote_granted = True\<rparr>),
     Propose 1 [7],
     Tick 1 3,
     Serve 3 1 (CallAppend 2 (ship [log_entry_new 1 [7]] 0 0)),
     Fold 1 (CallAppend 2 (ship [log_entry_new 1 [7]] 0 0)) (AppendReply (append_reply_success 1)),
     Tick 1 4,
     Serve 4 1 (CallAppend 2 (ship [] 1 1)),
     Drain 1, Drain 2]"

text \<open>What is looked at in the end: role, term, commit index, log and apply stream.\<close>

definition view :: "'s cluster \<Rightarrow> nat \<Rightarrow> role \<times> nat \<times> nat \<times> raft_log \<times> apply_item list" where
  "view c n = (let cm = core_of c n in
     (cm_role cm, cm_current_term cm, cm_commit_index cm, cm_log cm, nd_applied (cl_node c n)))"

lemma trio_result:
  "map_option (\<lambda>c. (view c 1, view c 2, view c 3)) (run_script trio trio_script trio_start) =
   Some ((Leader, 1, 1, from_entries [log_entry_new 1 [7]],
            [ApplyCommand \<lparr>ap_index = 1, ap_term = 1, ap_command = [7]\<rparr>]),
         (Follower, 1, 1, from_entries [log_entry_new 1 [7]],
            [ApplyCommand \<lparr>ap_index = 1, ap_term = 1, ap_command = [7]\<rparr>]),
         (Follower, 0, 0, log_new, []))"
  by code_simp

lemma trio_started: "cluster_start (\<lambda>_. in_memory_new) trio quick trio_start"
proof -
  have "\<exists>rng connect now clients. start_node rng connect (config_for trio n) in_memory_new quick now =
      Inr (trio_node n, clients :: string peer_clients)" for n
  proof (intro exI)
    show "start_node (\<lambda>lo hi. lo) (\<lambda>_. Inr Map.empty) (config_for trio n) in_memory_new quick 0 =
        Inr (trio_node n, Map.empty :: string peer_clients)"
      by (simp add: trio_node_def start_node_def cm_new_def storage_load_def in_memory_new_def in_memory_load_def
          Let_def)
  qed
  then show ?thesis
    by (simp add: cluster_start_def trio_start_def storage_load_def in_memory_new_def in_memory_load_def)
qed

abbreviation on_memory :: "persistent_state cluster \<Rightarrow> bool" where
  "on_memory \<equiv> reachable_on in_memory_load in_memory_save (\<lambda>_. True) (\<lambda>_. True) (\<lambda>_. in_memory_new) trio quick"

lemma script_reachable:
  assumes "run_script trio as trio_start = Some c"
  shows "on_memory c"
proof -
  have "cluster_reach (\<lambda>_. True) (\<lambda>_. in_memory_new) trio quick c"
    by (rule run_reach [OF assms cluster_reach.start [OF trio_started]])
  moreover have "members_ok trio" by (simp add: members_ok_def trio_def)
  moreover have "boxed in_memory_load in_memory_save (\<lambda>_. True) in_memory_new"
    by (simp add: boxed_def in_memory_new_def)
  ultimately show ?thesis
    unfolding reachable_on_def using in_memory.reliable_storage_axioms by blast
qed

lemma trio_reachable:
  obtains c where "on_memory c"
    "view c 1 = (Leader, 1, 1, from_entries [log_entry_new 1 [7]],
       [ApplyCommand \<lparr>ap_index = 1, ap_term = 1, ap_command = [7]\<rparr>])"
    "view c 2 = (Follower, 1, 1, from_entries [log_entry_new 1 [7]],
       [ApplyCommand \<lparr>ap_index = 1, ap_term = 1, ap_command = [7]\<rparr>])"
  using trio_result script_reachable by auto

end
