(* ===== verification/Raft_Progress.thy ===== *)
theory Raft_Progress
  imports Raft_Quorum Raft_Scenario
begin

text \<open>
  A cluster is never stuck: from every reachable state, if the nodes of a majority run, there
  is a run of theirs that elects a leader (\<open>Raft_Quorum\<close>), and then, for every command that is
  proposed to it, one that replicates, commits and applies the command. Messages of other
  nodes, crashes or turning back the clock are not needed for it.
\<close>

section \<open>A leader that goes on\<close>

text \<open>The commit index has everything the replication cursors allow.\<close>

definition caught_up :: "'s consensus_module \<Rightarrow> bool" where
  "caught_up cm \<longleftrightarrow> (\<forall>N \<le> last_index (cm_log cm). committable cm N \<longrightarrow> N \<le> cm_commit_index cm)"

lemma committable_commit [simp]: "committable (cm\<lparr>cm_commit_index := n\<rparr>) N = committable cm N"
  by (simp add: committable_def is_replicated_on_majority_def)

lemma advance_caught_up: "caught_up (maybe_advance_commit cm)"
proof (rule advance_commit_cases [of cm])
  assume "maybe_advance_commit cm = cm"
    and "\<And>m. cm_commit_index cm < m \<Longrightarrow> m \<le> last_index (cm_log cm) \<Longrightarrow> \<not> committable cm m"
  then show ?thesis unfolding caught_up_def by (metis not_le)
next
  fix n assume "maybe_advance_commit cm = cm\<lparr>cm_commit_index := n\<rparr>"
    and "\<And>m. n < m \<Longrightarrow> m \<le> last_index (cm_log cm) \<Longrightarrow> \<not> committable cm m"
  then show ?thesis by (auto simp: caught_up_def not_less [symmetric])
qed

text \<open>The same leader in the same term with the same log, whose view of its peers has not gone back.\<close>

definition onward :: "'s consensus_module \<Rightarrow> 's consensus_module \<Rightarrow> bool" where
  "onward cm cm' \<longleftrightarrow>
     is_leader cm' \<and> cm_current_term cm' = cm_current_term cm \<and> cm_log cm' = cm_log cm \<and>
     cm_last_applied cm' = cm_last_applied cm \<and>
     (\<forall>p. lookup_or (cm_match_index cm) p 0 \<le> lookup_or (cm_match_index cm') p 0) \<and>
     (caught_up cm \<longrightarrow> caught_up cm')"

lemma onward_refl: "is_leader cm \<Longrightarrow> onward cm cm"
  by (simp add: onward_def)

lemma onward_trans: "onward cm cm1 \<Longrightarrow> onward cm1 cm2 \<Longrightarrow> onward cm cm2"
  unfolding onward_def by (metis le_trans)

lemma advance_peer_cursors:
  "cm_match_index (advance_peer p hint cm) = (cm_match_index cm)(p \<mapsto> max (lookup_or (cm_match_index cm) p 0) hint)"
  "cm_next_index (advance_peer p hint cm) = (cm_next_index cm)(p \<mapsto> max (lookup_or (cm_match_index cm) p 0) hint + 1)"
  by (simp_all add: advance_peer_def Let_def)

lemma advance_peer_onward: "is_leader cm \<Longrightarrow> onward cm (advance_peer p hint cm)"
proof -
  assume "is_leader cm"
  moreover have "caught_up (advance_peer p hint cm)"
    unfolding advance_peer_def Let_def by (rule advance_caught_up)
  ultimately show ?thesis by (auto simp: onward_def is_leader_def advance_peer_cursors lookup_or_def)
qed

lemma next_index_onward: "is_leader cm \<Longrightarrow> onward cm (cm\<lparr>cm_next_index := x\<rparr>)"
  by (simp add: onward_def is_leader_def caught_up_def committable_def is_replicated_on_majority_def)

section \<open>One round with a follower\<close>

text \<open>A follower's log agrees with a leader's up to what the leader counts as matched.\<close>

lemma prefix_consistent:
  assumes "represents L (cm_log cm)" "take m L = take m M" "m \<le> length M"
  shows "consistent_at m (term_of M m) cm"
proof -
  have "m \<le> length L" by (rule take_eq_length [OF assms(2) [symmetric] assms(3)])
  moreover have "term_of L m = term_of M m" by (rule term_of_take_eq [OF assms(2) order_refl])
  ultimately show ?thesis by (simp add: consistent_at_def rlog.termAt [OF assms(1)])
qed

lemma match_held:
  assumes rel: "cluster_rel ms g c" and nm: "n \<in> ids ms" "q \<in> ids ms" and lead: "cm_role (core_of c n) = Leader"
    and cur: "cm_current_term (core_of c q) \<le> cm_current_term (core_of c n)"
    and m: "cm_match_index (core_of c n) q = Some m" "snapshot_index (core_of c n) \<le> m"
      "snapshot_index (core_of c n) \<le> cm_commit_index (core_of c q)"
  shows "consistent_at m (term_of (pl g n) m) (core_of c q)"
proof -
  note inv = cluster_relD(1) [OF rel] and N = cluster_relD(2) [OF rel nm(1)] and K = cluster_relD(2) [OF rel nm(2)]
  have lr: "lead_rel g n (core_of c n)" by (rule node_relD(11) [OF N lead])
  then have el: "elected g (pt g n) \<noteq> None" "pl g n = tlog g (pt g n)" by (auto simp: lead_rel_def)
  have pt: "pt g q \<le> pt g n" using cur node_relD(6) [OF N] node_relD(6) [OF K] by simp
  have ack: "acked g n (snapshot_index (core_of c n)) q m" using lr m(1) by (simp add: lead_rel_def snapshot_index_def)
  have "take m (pl g q) = take m (pl g n)"
  proof (cases "m \<le> snapshot_index (core_of c n)")
    case True
    with m(3) node_relD(9) [OF K] have "m \<le> pc g q" by simp
    from commit_prefix [OF inv el(1) pt this] el(2) show ?thesis by simp
  next
    case False
    with ack obtain m' where "m \<le> m'" "(q, pt g n, m') \<in> acks g" by (auto simp: acked_def)
    then have "take m (pl g q) = take m (tlog g (pt g n)) \<or> lacking g (pt g n) m (pt g q)"
      using proto_invD(5) [OF inv] unfolding inv_acks_def by blast
    with pt el(2) show ?thesis by (auto simp: lacking_def)
  qed
  moreover have "m \<le> length (pl g n)"
    by (rule acked_bound [OF inv el(2) ack]) (use rlog.base_le [OF node_relD(8) [OF N]] in \<open>simp add: snapshot_index_def\<close>)
  ultimately show ?thesis by (rule prefix_consistent [OF node_relD(8) [OF K]])
qed

context raft_world
begin

lemma leader_contacts:
  assumes live: "live R ms Q c" and L: "L \<in> Q" "is_leader (core_of c L)" and q: "q \<in> Q" "q \<noteq> L"
    and serve: "\<And>now. \<exists>r. serve_call (\<lambda>lo hi. lo) now (leader_call (core_of c L) q) (core_of c q) = (f now, r) \<and>
      P (f now) (fold_reply (leader_call (core_of c L) q) r (core_of c L))"
  shows "\<exists>t' c' k l. quorum_run Q (t, c) (t', c') \<and> core_of c' = (core_of c)(q := k, L := l) \<and> P k l"
proof -
  note D = liveD [OF live]
  obtain now c1 where c1: "quorum_run Q (t, c) (now, c1)" "core_of c1 = core_of c"
    "(L, leader_call (core_of c L) q) \<in> cl_calls c1"
    using tick_lead [OF L(1) D(3) [OF L(1)] L(2) quorum_peers [OF D(1) D(4) [OF L(1)] D(4) [OF q(1)] q(2)]] by blast
  obtain r where r: "serve_call (\<lambda>lo hi. lo) now (leader_call (core_of c L) q) (core_of c1 q) = (f now, r)"
    "P (f now) (fold_reply (leader_call (core_of c L) q) r (core_of c L))"
    using serve [of now] c1(2) by auto
  obtain c' where c': "quorum_run Q (now, c1) (now, c')"
    "core_of c' = (core_of c)(q := f now, L := fold_reply (leader_call (core_of c L) q) r (core_of c L))"
    using live_exchange [OF run_live [OF c1(1) live] L(1) q c1(3) leader_call_dst order_refl r(1)] c1(2) by auto
  have "quorum_run Q (t, c) (now, c')" using c1(1) c'(1) by simp
  with c'(2) r(2) show ?thesis by blast
qed

lemma append_round:
  assumes live: "live R ms Q c" and L: "L \<in> Q" "is_leader (core_of c L)" and q: "q \<in> Q" "q \<noteq> L"
    and cur: "cm_current_term (core_of c q) \<le> cm_current_term (core_of c L)" and need: "\<not> needs_snapshot (core_of c L) q"
    and k: "k = lookup_or (cm_next_index (core_of c L)) q (last_index (cm_log (core_of c L)) + 1)"
    and g: "cluster_rel ms g c"
  shows "\<exists>t' c' cq cl. quorum_run Q (t, c) (t', c') \<and> core_of c' = (core_of c)(q := cq, L := cl) \<and>
    cm_current_term cq = cm_current_term (core_of c L) \<and> onward (core_of c L) cl \<and>
    (if consistent_at (k - 1) (term_of (pl g L) (k - 1)) (core_of c q)
     then last_log_index (core_of c L) \<le> lookup_or (cm_match_index cl) q 0
     else \<exists>k' < k. cm_next_index cl q = Some k')"
proof (rule leader_contacts [OF live L q])
  let ?L = "core_of c L" and ?q = "core_of c q" and ?a = "append_args_for (core_of c L) q"
  note D = liveD [OF live]
  note N = cluster_relD(2) [OF g D(4) [OF L(1)]]
  have role: "cm_role ?L = Leader" using L(2) by (simp add: is_leader_def)
  note shape = append_args_shape [OF N role need k]
  let ?hint = "ae_prev_log_index ?a + length (ae_entries ?a)"
  have hint: "?hint = last_log_index ?L"
    using shape(1,2,3,5) rlog.lastIndex [OF node_relD(8) [OF N]] by (simp add: last_log_index_def)
  fix now
  let ?res = "handle_append_entries (\<lambda>lo hi. lo) now ?a ?q"
  have call: "leader_call ?L q = CallAppend q ?a" using need by (simp add: leader_call_def)
  have serve: "serve_call (\<lambda>lo hi. lo) now (CallAppend q ?a) ?q = (fst ?res, AppendReply (over_wire (snd ?res)))"
    by (simp add: service_append_entries_def Let_def case_prod_beta over_wire_def)
  have "cm_current_term (fst ?res) = cm_current_term ?L \<and> onward ?L (handle_append_reply q (over_wire (snd ?res)) ?hint ?L) \<and>
    (if consistent_at (k - 1) (term_of (pl g L) (k - 1)) ?q
     then last_log_index ?L \<le> lookup_or (cm_match_index (handle_append_reply q (over_wire (snd ?res)) ?hint ?L)) q 0
     else \<exists>k' < k. cm_next_index (handle_append_reply q (over_wire (snd ?res)) ?hint ?L) q = Some k')"
  proof (rule append_entries_cases [of ?a ?q "\<lambda>lo hi. lo" now])
    assume "ae_term ?a < cm_current_term ?q"
    with cur shape(6) show ?thesis by simp
  next
    let ?y = "yield_to_leader (\<lambda>lo hi. lo) now (ae_term ?a) (ae_leader_id ?a) ?q"
    assume no: "\<not> consistent_at (ae_prev_log_index ?a) (ae_prev_log_term ?a) ?q"
      and res: "?res = (?y, append_conflict (ae_prev_log_index ?a) ?y)"
    have r: "\<not> aer_success (snd ?res)" "aer_term (snd ?res) = cm_current_term ?L"
      using res cur shape(6) by (auto simp: append_conflict_def max_absorb1 split: option.splits)
    have "\<exists>k' < k. cm_next_index (handle_append_reply q (over_wire (snd ?res)) ?hint ?L) q = Some k'"
      using rejection_backs_up [OF g D(4) [OF L(1)] D(4) [OF q(1)] role need cur k surjective_pairing r(1)] by blast
    moreover have "onward ?L (handle_append_reply q (over_wire (snd ?res)) ?hint ?L)"
      using r role L(2) next_index_onward by (simp add: handle_append_reply_def Let_def)
    ultimately show ?thesis using no shape(3,4,6) res cur by (simp add: max_absorb1 del: One_nat_def)
  next
    let ?y = "yield_to_leader (\<lambda>lo hi. lo) now (ae_term ?a) (ae_leader_id ?a) ?q"
    assume yes: "consistent_at (ae_prev_log_index ?a) (ae_prev_log_term ?a) ?q"
      and res: "?res = (accept_entries ?a ?y, append_reply_success (ae_term ?a))"
    have "handle_append_reply q (over_wire (snd ?res)) ?hint ?L = advance_peer q ?hint ?L"
      using res role shape(6) by (simp add: handle_append_reply_def append_reply_success_def)
    with yes shape(3,4,6) res cur advance_peer_onward [OF L(2)] hint show ?thesis
      by (simp add: max_absorb1 advance_peer_cursors lookup_or_def del: One_nat_def)
  qed
  then show "\<exists>r. serve_call (\<lambda>lo hi. lo) now (leader_call ?L q) ?q = (fst ?res, r) \<and>
    cm_current_term (fst ?res) = cm_current_term ?L \<and> onward ?L (fold_reply (leader_call ?L q) r ?L) \<and>
    (if consistent_at (k - 1) (term_of (pl g L) (k - 1)) ?q
     then last_log_index ?L \<le> lookup_or (cm_match_index (fold_reply (leader_call ?L q) r ?L)) q 0
     else \<exists>k' < k. cm_next_index (fold_reply (leader_call ?L q) r ?L) q = Some k')"
    unfolding call serve by (intro exI [of _ "AppendReply (over_wire (snd ?res))"]) simp
qed

lemma snapshot_round:
  assumes live: "live R ms Q c" and L: "L \<in> Q" "is_leader (core_of c L)" and q: "q \<in> Q" "q \<noteq> L"
    and cur: "cm_current_term (core_of c q) \<le> cm_current_term (core_of c L)" and need: "needs_snapshot (core_of c L) q"
  shows "\<exists>t' c' cq cl. quorum_run Q (t, c) (t', c') \<and> core_of c' = (core_of c)(q := cq, L := cl) \<and>
    cm_current_term cq = cm_current_term (core_of c L) \<and> onward (core_of c L) cl \<and>
    snapshot_index (core_of c L) \<le> cm_commit_index cq \<and>
    (\<exists>m \<ge> snapshot_index (core_of c L). cm_match_index cl q = Some m \<and> cm_next_index cl q = Some (m + 1))"
proof (rule leader_contacts [OF live L q])
  let ?L = "core_of c L" and ?q = "core_of c q" and ?a = "install_snapshot_args (core_of c L) q"
  fix now
  let ?res = "handle_install_snapshot (\<lambda>lo hi. lo) now ?a ?q"
  have call: "leader_call ?L q = CallInstall q ?a" using need by (simp add: leader_call_def)
  have serve: "serve_call (\<lambda>lo hi. lo) now (CallInstall q ?a) ?q = (fst ?res, InstallReply (snd ?res))"
    by (simp add: service_install_snapshot_def Let_def case_prod_beta)
  have a: "is_term ?a = cm_current_term ?L" "is_last_included_index ?a = snapshot_index ?L"
    by (simp_all add: install_snapshot_args_def snapshot_index_def)
  have res: "cm_current_term (fst ?res) = cm_current_term ?L \<and> snapshot_index ?L \<le> cm_commit_index (fst ?res) \<and>
      isr_term (snd ?res) = cm_current_term ?L"
    by (rule install_snapshot_cases [of ?a ?q "\<lambda>lo hi. lo" now]) (use cur a in \<open>simp_all add: max_absorb1\<close>)
  then have "fold_reply (CallInstall q ?a) (InstallReply (snd ?res)) ?L = advance_peer q (snapshot_index ?L) ?L"
    using L(2) a by (simp add: handle_install_snapshot_reply_def is_leader_def)
  with res show "\<exists>r. serve_call (\<lambda>lo hi. lo) now (leader_call ?L q) ?q = (fst ?res, r) \<and>
    cm_current_term (fst ?res) = cm_current_term ?L \<and> onward ?L (fold_reply (leader_call ?L q) r ?L) \<and>
    snapshot_index ?L \<le> cm_commit_index (fst ?res) \<and>
    (\<exists>m \<ge> snapshot_index ?L. cm_match_index (fold_reply (leader_call ?L q) r ?L) q = Some m \<and>
       cm_next_index (fold_reply (leader_call ?L q) r ?L) q = Some (m + 1))"
    unfolding call serve using advance_peer_onward [OF L(2)]
    by (intro exI [of _ "InstallReply (snd ?res)"]) (simp add: advance_peer_cursors)
qed

section \<open>Replication\<close>

text \<open>After a snapshot the next entries fit.\<close>

lemma snapshot_then_append:
  assumes live: "live R ms Q c" and L: "L \<in> Q" "is_leader (core_of c L)" and q: "q \<in> Q" "q \<noteq> L"
    and cur: "cm_current_term (core_of c q) \<le> cm_current_term (core_of c L)" and need: "needs_snapshot (core_of c L) q"
  shows "\<exists>t' c' cq cl. quorum_run Q (t, c) (t', c') \<and> core_of c' = (core_of c)(q := cq, L := cl) \<and>
    cm_current_term cq = cm_current_term (core_of c L) \<and> onward (core_of c L) cl \<and>
    last_log_index (core_of c L) \<le> lookup_or (cm_match_index cl) q 0"
proof -
  obtain t1 c1 cq cl m where c1: "quorum_run Q (t, c) (t1, c1)" "core_of c1 = (core_of c)(q := cq, L := cl)"
    "cm_current_term cq = cm_current_term (core_of c L)" "onward (core_of c L) cl" "snapshot_index (core_of c L) \<le> cm_commit_index cq"
    "snapshot_index (core_of c L) \<le> m" "cm_match_index cl q = Some m" "cm_next_index cl q = Some (m + 1)"
    using snapshot_round [OF assms] by blast
  note live1 = run_live [OF c1(1) live]
  note D = liveD [OF live1]
  have cores: "core_of c1 L = cl" "core_of c1 q = cq" using c1(2) q(2) by auto
  have cl: "is_leader cl" "cm_current_term cl = cm_current_term (core_of c L)" "cm_log cl = cm_log (core_of c L)"
    using c1(4) by (simp_all add: onward_def)
  have need1: "\<not> needs_snapshot (core_of c1 L) q"
    using c1(6,8) cl(3) by (simp add: needs_snapshot_def cores lookup_or_def snapshot_index_def)
  obtain g where g: "cluster_rel ms g c1" using world_rel [OF D(1)] by blast
  have "consistent_at m (term_of (pl g L) m) (core_of c1 q)"
    by (rule match_held [OF g D(4) [OF L(1)] D(4) [OF q(1)]])
      (use c1(3,5-7) cl in \<open>simp_all add: cores is_leader_def snapshot_index_def\<close>)
  moreover have "\<exists>t' c' cq cl. quorum_run Q (t1, c1) (t', c') \<and> core_of c' = (core_of c1)(q := cq, L := cl) \<and>
    cm_current_term cq = cm_current_term (core_of c1 L) \<and> onward (core_of c1 L) cl \<and>
    (if consistent_at (m + 1 - 1) (term_of (pl g L) (m + 1 - 1)) (core_of c1 q)
     then last_log_index (core_of c1 L) \<le> lookup_or (cm_match_index cl) q 0 else \<exists>k' < m + 1. cm_next_index cl q = Some k')"
    by (rule append_round [OF live1 L(1) _ q _ need1 _ g]) (use cl c1(3,8) in \<open>simp_all add: cores lookup_or_def\<close>)
  ultimately obtain t2 c2 cq' cl' where c2: "quorum_run Q (t1, c1) (t2, c2)" "core_of c2 = (core_of c1)(q := cq', L := cl')"
    "cm_current_term cq' = cm_current_term cl" "onward cl cl'" "last_log_index cl \<le> lookup_or (cm_match_index cl') q 0"
    by (auto simp: cores)
  have "quorum_run Q (t, c) (t2, c2)" using c1(1) c2(1) by simp
  moreover have "core_of c2 = (core_of c)(q := cq', L := cl')" using c2(2) c1(2) by auto
  moreover have "last_log_index (core_of c L) \<le> lookup_or (cm_match_index cl') q 0"
    using c2(5) cl(3) by (simp add: last_log_index_def)
  ultimately show ?thesis using c2(3) cl(2) onward_trans [OF c1(4) c2(4)] by metis
qed

text \<open>A follower is brought up to date: rejections lower the next index until entries or a snapshot fit.\<close>

lemma replicate_one:
  assumes "live R ms Q c" "L \<in> Q" "is_leader (core_of c L)" "q \<in> Q" "q \<noteq> L"
    and "cm_current_term (core_of c q) \<le> cm_current_term (core_of c L)"
  shows "\<exists>t' c' cq cl. quorum_run Q (t, c) (t', c') \<and> core_of c' = (core_of c)(q := cq, L := cl) \<and>
    cm_current_term cq = cm_current_term (core_of c L) \<and> onward (core_of c L) cl \<and>
    last_log_index (core_of c L) \<le> lookup_or (cm_match_index cl) q 0"
  using assms
proof (induction "lookup_or (cm_next_index (core_of c L)) q (last_index (cm_log (core_of c L)) + 1)" arbitrary: c t
    rule: less_induct)
  case less
  let ?k = "lookup_or (cm_next_index (core_of c L)) q (last_index (cm_log (core_of c L)) + 1)"
  show ?case
  proof (cases "needs_snapshot (core_of c L) q")
    case True
    then show ?thesis by (rule snapshot_then_append [OF less.prems])
  next
    case False
    obtain g where g: "cluster_rel ms g c" using world_rel [OF liveD(1) [OF less.prems(1)]] by blast
    obtain t1 c1 cq cl where c1: "quorum_run Q (t, c) (t1, c1)" "core_of c1 = (core_of c)(q := cq, L := cl)"
      "cm_current_term cq = cm_current_term (core_of c L)" "onward (core_of c L) cl"
      "last_log_index (core_of c L) \<le> lookup_or (cm_match_index cl) q 0 \<or> (\<exists>k' < ?k. cm_next_index cl q = Some k')"
      using append_round [OF less.prems False refl g, of t] by metis
    show ?thesis
    proof (cases "last_log_index (core_of c L) \<le> lookup_or (cm_match_index cl) q 0")
      case True
      with c1 show ?thesis by blast
    next
      case False
      with c1(5) obtain k' where k': "k' < ?k" "cm_next_index cl q = Some k'" by blast
      have cores: "core_of c1 L = cl" "core_of c1 q = cq" using c1(2) less.prems(5) by auto
      have cl: "is_leader cl" "cm_current_term cl = cm_current_term (core_of c L)" "cm_log cl = cm_log (core_of c L)"
        using c1(4) by (simp_all add: onward_def)
      have "lookup_or (cm_next_index (core_of c1 L)) q (last_index (cm_log (core_of c1 L)) + 1) < ?k"
        using k' by (simp add: cores lookup_or_def)
      from less.hyps [OF this run_live [OF c1(1) less.prems(1)] less.prems(2) _ less.prems(4,5), of t1] cl(1,2) c1(3)
      obtain t2 c2 cq' cl' where c2: "quorum_run Q (t1, c1) (t2, c2)" "core_of c2 = (core_of c1)(q := cq', L := cl')"
        "cm_current_term cq' = cm_current_term cl" "onward cl cl'" "last_log_index cl \<le> lookup_or (cm_match_index cl') q 0"
        by (auto simp: cores)
      have "quorum_run Q (t, c) (t2, c2)" using c1(1) c2(1) by simp
      moreover have "core_of c2 = (core_of c)(q := cq', L := cl')" using c2(2) c1(2) by auto
      moreover have "last_log_index (core_of c L) \<le> lookup_or (cm_match_index cl') q 0"
        using c2(5) cl(3) by (simp add: last_log_index_def)
      ultimately show ?thesis using c2(3) cl(2) onward_trans [OF c1(4) c2(4)] by metis
    qed
  qed
qed

lemma replicate_all:
  assumes live: "live R ms Q c" "L \<in> Q" "is_leader (core_of c L)"
    and cur: "\<forall>q \<in> Q. cm_current_term (core_of c q) \<le> cm_current_term (core_of c L)" and S: "finite S" "S \<subseteq> Q - {L}"
  shows "\<exists>t' c'. quorum_run Q (t, c) (t', c') \<and> onward (core_of c L) (core_of c' L) \<and>
    (\<forall>q \<in> Q. cm_current_term (core_of c' q) \<le> cm_current_term (core_of c L)) \<and>
    (\<forall>q \<in> S. last_log_index (core_of c L) \<le> lookup_or (cm_match_index (core_of c' L)) q 0)"
  using S
proof (induction S rule: finite_induct)
  case empty
  with onward_refl [OF live(3)] cur show ?case by blast
next
  case (insert q S)
  obtain t1 c1 where c1: "quorum_run Q (t, c) (t1, c1)" "onward (core_of c L) (core_of c1 L)"
    "\<forall>q \<in> Q. cm_current_term (core_of c1 q) \<le> cm_current_term (core_of c L)"
    "\<forall>q \<in> S. last_log_index (core_of c L) \<le> lookup_or (cm_match_index (core_of c1 L)) q 0"
    using insert by blast
  have q: "q \<in> Q" "q \<noteq> L" using insert.prems by auto
  have L1: "is_leader (core_of c1 L)" "cm_current_term (core_of c1 L) = cm_current_term (core_of c L)"
    "last_log_index (core_of c1 L) = last_log_index (core_of c L)"
    using c1(2) by (simp_all add: onward_def last_log_index_def)
  obtain t2 c2 cq cl where c2: "quorum_run Q (t1, c1) (t2, c2)" "core_of c2 = (core_of c1)(q := cq, L := cl)"
    "cm_current_term cq = cm_current_term (core_of c L)" "onward (core_of c1 L) cl"
    "last_log_index (core_of c L) \<le> lookup_or (cm_match_index cl) q 0"
    using replicate_one [OF run_live [OF c1(1) live(1)] live(2) L1(1) q] c1(3) q(1) L1(2,3) by metis
  have "quorum_run Q (t, c) (t2, c2)" using c1(1) c2(1) by simp
  moreover have "onward (core_of c L) (core_of c2 L)" using onward_trans [OF c1(2) c2(4)] c2(2) by simp
  moreover have "\<forall>q \<in> Q. cm_current_term (core_of c2 q) \<le> cm_current_term (core_of c L)"
    using c1(3) c2(2-4) L1(2) by (auto simp: onward_def)
  moreover have "\<forall>q \<in> insert q S. last_log_index (core_of c L) \<le> lookup_or (cm_match_index (core_of c2 L)) q 0"
    using c1(4) c2(2,4,5) unfolding onward_def by (auto intro: le_trans)
  ultimately show ?case by blast
qed

section \<open>Committing and applying\<close>

text \<open>What a majority holds is committed.\<close>

lemma majority_replicated:
  assumes live: "live R ms Q c" "L \<in> Q"
    and held: "\<forall>q \<in> Q - {L}. N \<le> lookup_or (cm_match_index (core_of c L)) q 0"
  shows "is_replicated_on_majority (core_of c L) N"
proof -
  note D = liveD [OF live(1)]
  note nf = node_facts [OF D(1) D(4) [OF live(2)]]
  let ?ps = "filter (\<lambda>p. N \<le> lookup_or (cm_match_index (core_of c L)) p 0) (peers_of ms L)"
  have ok: "members_ok ms" using D(2) by (simp add: majority_def)
  have "Q - {L} \<subseteq> set ?ps" using held D(4) by (auto simp: set_peers_of)
  then have "card (Q - {L}) \<le> card (set ?ps)" by (intro card_mono) simp_all
  also have "\<dots> = length ?ps" by (rule distinct_card) (rule distinct_filter [OF distinct_peers_of [OF ok]])
  finally have "card Q - 1 \<le> length ?ps" using live(2) D(5) by simp
  moreover have "length ms div 2 + 1 \<le> card Q" using D(2) by (simp add: majority_def)
  ultimately have "length ms div 2 + 1 \<le> 1 + length ?ps" by linarith
  with nf(2,4) show ?thesis by (simp add: is_replicated_on_majority_def)
qed

lemma commit_log:
  assumes live: "live R ms Q c" "L \<in> Q" "is_leader (core_of c L)" and up: "caught_up (core_of c L)"
    and cur: "\<forall>q \<in> Q. cm_current_term (core_of c q) \<le> cm_current_term (core_of c L)"
    and own: "term_at (cm_log (core_of c L)) (last_log_index (core_of c L)) = Some (cm_current_term (core_of c L))"
  shows "\<exists>t' c'. quorum_run Q (t, c) (t', c') \<and> onward (core_of c L) (core_of c' L) \<and>
    last_log_index (core_of c L) \<le> cm_commit_index (core_of c' L)"
proof -
  let ?N = "last_log_index (core_of c L)"
  have "finite (Q - {L})" using liveD(5) [OF live(1)] by simp
  from replicate_all [OF live cur this, of t] obtain t' c' where c': "quorum_run Q (t, c) (t', c')"
    "onward (core_of c L) (core_of c' L)" "\<forall>q \<in> Q - {L}. ?N \<le> lookup_or (cm_match_index (core_of c' L)) q 0" by auto
  have same: "cm_log (core_of c' L) = cm_log (core_of c L)" "cm_current_term (core_of c' L) = cm_current_term (core_of c L)"
    "caught_up (core_of c' L)" using c'(2) up by (simp_all add: onward_def)
  have "committable (core_of c' L) ?N"
    using majority_replicated [OF run_live [OF c'(1) live(1)] live(2) c'(3)] own same by (simp add: committable_def)
  with same(1,3) have "?N \<le> cm_commit_index (core_of c' L)" by (simp add: caught_up_def last_log_index_def)
  with c'(1,2) show ?thesis by blast
qed

text \<open>The leader hands what it has committed to its state machine.\<close>

lemma drain_delivers:
  assumes live: "live R ms Q c" "L \<in> Q" and i: "cm_last_applied (core_of c L) < i" "i \<le> cm_commit_index (core_of c L)"
    and e: "log_get (cm_log (core_of c L)) i = Some e"
  shows "\<exists>c'. quorum_run Q (t, c) (t, c') \<and>
    ApplyCommand \<lparr>ap_index = i, ap_term = le_term e, ap_command = le_command e\<rparr> \<in> set (nd_applied (cl_node c' L))"
proof -
  note D = liveD [OF live(1)]
  obtain g where g: "cluster_rel ms g c" using world_rel [OF D(1)] by blast
  note N = cluster_relD(2) [OF g D(4) [OF live(2)]]
  let ?cm = "core_of c L"
  let ?items = "(case cm_pending_snapshot ?cm of None \<Rightarrow> [] | Some s \<Rightarrow> [ApplySnapshot s]) @
    map (apply_of (pl g L)) [Suc (cm_last_applied ?cm) ..< Suc (cm_commit_index ?cm)]"
  obtain core where "take_applies ?cm = Some (core, ?items)" using take_applies_inv [OF node_relD(5,8) [OF N]] by blast
  let ?nd = "(cl_node c L)\<lparr>nd_core := core, nd_applied := nd_applied (cl_node c L) @ ?items\<rparr>"
  have drained: "drain_tick (cl_node c L) = Some ?nd"
    using \<open>take_applies ?cm = Some (core, ?items)\<close> by (simp add: drain_tick_def core_of_def)
  let ?c' = "set_node L ?nd c"
  have run: "quorum_run Q (t, c) (t, ?c')"
    by (rule r_into_rtranclp) (rule quorum_step.applies [OF live(2) D(3) [OF live(2)] order_refl drained])
  have "apply_of (pl g L) i \<in> set ?items" using i by (auto simp del: upt_Suc)
  moreover have "apply_of (pl g L) i = ApplyCommand \<lparr>ap_index = i, ap_term = le_term e, ap_command = le_command e\<rparr>"
    using e i(1) rlog.getAt [OF node_relD(8) [OF N], of i] by (auto simp: apply_of_def term_of_def split: if_splits)
  ultimately have "ApplyCommand \<lparr>ap_index = i, ap_term = le_term e, ap_command = le_command e\<rparr> \<in> set ?items" by simp
  then have "ApplyCommand \<lparr>ap_index = i, ap_term = le_term e, ap_command = le_command e\<rparr> \<in> set (nd_applied (cl_node ?c' L))"
    by (simp add: set_node_def del: upt_Suc)
  with run show ?thesis by blast
qed

lemma commit_command:
  assumes live: "live R ms Q c" "L \<in> Q" "is_leader (core_of c L)"
    and cur: "\<forall>q \<in> Q. cm_current_term (core_of c q) \<le> cm_current_term (core_of c L)"
  shows "\<exists>nd i t' c' a. node_propose command (cl_node c L) = (nd, Some i) \<and> quorum_run Q (t, set_node L nd c) (t', c') \<and>
    ApplyCommand a \<in> set (nd_applied (cl_node c' L)) \<and> ap_index a = i \<and> ap_command a = command"
proof -
  let ?cm = "core_of c L" and ?e = "log_entry_new (cm_current_term (core_of c L)) command" and ?i = "last_log_index (core_of c L) + 1"
  note D = liveD [OF live(1)]
  have inv: "cm_inv ?cm" by (rule node_facts(3) [OF D(1) D(4) [OF live(2)]])
  obtain core where sub: "submit_command command ?cm = (core, Some ?i)"
    "core = maybe_advance_commit (persist (?cm\<lparr>cm_log := fst (log_append (cm_log ?cm) ?e)\<rparr>))"
    using live(3) by (simp add: submit_command_def is_leader_def log_append_def last_log_index_def last_index_def Let_def)
  let ?nd = "(cl_node c L)\<lparr>nd_core := core\<rparr>"
  have submitted: "node_propose command (cl_node c L) = (?nd, Some ?i)" using sub(1) by (simp add: node_propose_def core_of_def)
  let ?c = "set_node L ?nd c"
  have "R ?c" by (rule world_step [OF D(1) propose [OF D(4) [OF live(2)] D(3) [OF live(2)] submitted TrueI]])
  then have live': "live R ms Q ?c" using live(1) by (simp add: live_def set_node_def)
  have core: "core_of ?c L = core" "cm_log core = fst (log_append (cm_log ?cm) ?e)" "is_leader core" "caught_up core"
    "cm_current_term core = cm_current_term ?cm" "cm_last_applied core = cm_last_applied ?cm" "last_log_index core = ?i"
    using sub(2) live(3) advance_caught_up
    by (simp_all add: is_leader_def last_log_index_def log_append_def last_index_def Let_def)
  obtain g where g: "cluster_rel ms g c" using world_rel [OF D(1)] by blast
  note N = cluster_relD(2) [OF g D(4) [OF live(2)]]
  note rep = rlog.append_repr [OF node_relD(8) [OF N], of ?e]
  have get: "log_get (cm_log core) ?i = Some ?e" "term_at (cm_log core) ?i = Some (cm_current_term ?cm)"
    using rlog.getAt [OF rep, of ?i] rlog.termAt [OF rep, of ?i] rlog.base_le [OF node_relD(8) [OF N]]
      rlog.lastIndex [OF node_relD(8) [OF N]]
    by (simp_all add: core(2) last_log_index_def rlog.append_base term_of_def log_entry_new_def)
  have "\<exists>t' c'. quorum_run Q (t, ?c) (t', c') \<and> onward (core_of ?c L) (core_of c' L) \<and>
      last_log_index (core_of ?c L) \<le> cm_commit_index (core_of c' L)"
    by (rule commit_log [OF live' live(2)]) (use core cur get(2) in auto)
  then obtain t1 c1 where c1: "quorum_run Q (t, ?c) (t1, c1)" "onward core (core_of c1 L)" "?i \<le> cm_commit_index (core_of c1 L)"
    using core(1,7) by auto
  have "cm_last_applied ?cm < ?i" using cm_invD(4,5) [OF inv] by (simp add: last_log_index_def)
  with c1 core get(1) have "\<exists>c'. quorum_run Q (t1, c1) (t1, c') \<and>
      ApplyCommand \<lparr>ap_index = ?i, ap_term = le_term ?e, ap_command = le_command ?e\<rparr> \<in> set (nd_applied (cl_node c' L))"
    by (intro drain_delivers [OF run_live [OF c1(1) live'] live(2)]) (auto simp: onward_def)
  then obtain c2 where c2: "quorum_run Q (t1, c1) (t1, c2)"
    "ApplyCommand \<lparr>ap_index = ?i, ap_term = le_term ?e, ap_command = command\<rparr> \<in> set (nd_applied (cl_node c2 L))"
    by (auto simp: log_entry_new_def)
  have "quorum_run Q (t, ?c) (t1, c2)" using c1(1) c2(1) by simp
  with submitted c2(2) show ?thesis by (metis applied.select_convs(1,3))
qed

end

section \<open>The progress of a cluster\<close>

interpretation reached: raft_world "reachable_on load save sound (\<lambda>_. True) disk ms tim" ms tim
  for load save sound disk ms tim
proof unfold_locales
  show "\<exists>g. cluster_rel ms g c" if "reachable_on load save sound (\<lambda>_. True) disk ms tim c" for c
    using that by (blast elim: reachable_rel)
qed (auto simp: reachable_on_def intro: cluster_reach.step)

text \<open>
  C5. From every reachable state of a cluster, whatever crashes, elections, conflicts and
  compactions led there: if the nodes of a majority run, there is a run of these nodes alone
  that elects one of them, and every command then proposed to it is accepted and, by a further
  run of these nodes alone, delivered to its state machine at the index the proposal returned.
\<close>

theorem quorum_makes_progress:
  assumes "reachable_on load save sound (\<lambda>_. True) disk ms tim c"
    and "majority ms Q" and "\<forall>q \<in> Q. nd_running (cl_node c q)"
  shows "\<exists>L \<in> Q. \<exists>t1 c1. quorum_run Q (t, c) (t1, c1) \<and> is_leader (core_of c1 L) \<and>
    (\<forall>command. \<exists>nd i t2 c2 a. node_propose command (cl_node c1 L) = (nd, Some i) \<and>
       quorum_run Q (t1, set_node L nd c1) (t2, c2) \<and>
       ApplyCommand a \<in> set (nd_applied (cl_node c2 L)) \<and> ap_index a = i \<and> ap_command a = command)"
proof -
  let ?R = "reachable_on load save sound (\<lambda>_. True) disk ms tim"
  have live: "live ?R ms Q c" using assms by (simp add: live_def)
  then obtain L t1 c1 where L: "L \<in> Q" "quorum_run Q (t, c) (t1, c1)" "is_leader (core_of c1 L)"
    "level Q (cm_current_term (core_of c1 L)) c1"
    using reached.elect_leader [of load save sound disk ms tim Q c t] by blast
  have "\<exists>nd i t2 c2 a. node_propose command (cl_node c1 L) = (nd, Some i) \<and>
       quorum_run Q (t1, set_node L nd c1) (t2, c2) \<and>
       ApplyCommand a \<in> set (nd_applied (cl_node c2 L)) \<and> ap_index a = i \<and> ap_command a = command" for command
    by (rule reached.commit_command [OF reached.run_live [OF L(2) live] L(1,3)]) (use L(4) in \<open>simp add: level_def\<close>)
  with L show ?thesis by blast
qed

text \<open>At the fresh cluster of three nodes, the third being left out.\<close>

theorem quorum_makes_progress_witness:
  "\<exists>L \<in> {1, 2}. \<exists>t1 c1. quorum_run {1, 2} (0, trio_start) (t1, c1) \<and> is_leader (core_of c1 L) \<and>
    (\<forall>command. \<exists>nd i t2 c2 a. node_propose command (cl_node c1 L) = (nd, Some i) \<and>
       quorum_run {1, 2} (t1, set_node L nd c1) (t2, c2) \<and>
       ApplyCommand a \<in> set (nd_applied (cl_node c2 L)) \<and> ap_index a = i \<and> ap_command a = command)"
proof (rule quorum_makes_progress)
  show "on_memory trio_start" by (rule script_reachable [of "[]"]) simp
  show "majority trio {1, 2}" by (simp add: majority_def members_ok_def ids_def trio_def)
  show "\<forall>q \<in> {1, 2}. nd_running (cl_node trio_start q)"
    by (simp add: trio_start_def trio_node_def start_node_def cm_new_def storage_load_def in_memory_new_def
        in_memory_load_def Let_def)
qed

end
