(* ===== verification/Raft_Stream.thy ===== *)
theory Raft_Stream
  imports Raft_Scenario
begin

text \<open>
  The apply stream of a node, which its driver fills and its state machine reads: on every
  node of a reachable cluster the items come in order, no command is skipped or repeated, and
  the stream ends where the core has applied. With the agreement of the streams this gives
  what the integration tests check of a running cluster.
\<close>

section \<open>The order of the apply stream\<close>

fun item_index :: "apply_item \<Rightarrow> nat" where
  "item_index (ApplyCommand a) = ap_index a"
| "item_index (ApplySnapshot s) = sn_last_included_index s"

text \<open>Where a state machine at \<open>k\<close> is after the items, and that no command is skipped.\<close>

fun stream_end :: "nat \<Rightarrow> apply_item list \<Rightarrow> nat" where
  "stream_end k [] = k"
| "stream_end k (x # xs) = stream_end (item_index x) xs"

fun in_order :: "nat \<Rightarrow> apply_item list \<Rightarrow> bool" where
  "in_order k [] = True"
| "in_order k (ApplyCommand a # xs) = (ap_index a = Suc k \<and> in_order (Suc k) xs)"
| "in_order k (ApplySnapshot s # xs) = in_order (sn_last_included_index s) xs"

lemma stream_end_append [simp]: "stream_end k (xs @ ys) = stream_end (stream_end k xs) ys"
  by (induction k xs rule: stream_end.induct) simp_all

lemma in_order_append: "in_order k (xs @ ys) \<longleftrightarrow> in_order k xs \<and> in_order (stream_end k xs) ys"
  by (induction k xs rule: in_order.induct) auto

lemma stream_end_take_Suc: "i < length xs \<Longrightarrow> stream_end k (take (Suc i) xs) = item_index (xs ! i)"
  by (simp add: take_Suc_conv_app_nth)

lemma in_order_nth:
  assumes "in_order k xs" "i < length xs" "xs ! i = ApplyCommand a"
  shows "ap_index a = Suc (stream_end k (take i xs))"
proof -
  have "xs = take i xs @ ApplyCommand a # drop (Suc i) xs" using assms(2,3) by (metis id_take_nth_drop)
  then have "in_order (stream_end k (take i xs)) (ApplyCommand a # drop (Suc i) xs)"
    using assms(1) in_order_append by metis
  then show ?thesis by simp
qed

lemma in_order_commands:
  "in_order k (map (apply_of L) [Suc k ..< Suc c])"
  "k \<le> c \<Longrightarrow> stream_end k (map (apply_of L) [Suc k ..< Suc c]) = c"
proof -
  have "in_order k (map (apply_of L) [Suc k ..< Suc (k + d)]) \<and>
      stream_end k (map (apply_of L) [Suc k ..< Suc (k + d)]) = k + d" for d
    by (induction d) (simp_all add: in_order_append apply_of_def)
  from this [of "c - k"]
  show "in_order k (map (apply_of L) [Suc k ..< Suc c])"
    "k \<le> c \<Longrightarrow> stream_end k (map (apply_of L) [Suc k ..< Suc c]) = c"
    by (cases "k \<le> c"; simp)+
qed

section \<open>What Raft does to snapshots and streams\<close>

definition snap_view :: "'s consensus_module \<Rightarrow> nat \<times> bytes option \<times> snapshot option \<times> nat" where
  "snap_view cm = (lg_snapshot_index (cm_log cm), cm_snapshot cm, cm_pending_snapshot cm, cm_last_applied cm)"

fun snap_op :: "cm_op \<Rightarrow> bool" where
  "snap_op (TakeSnapshot i data) = True"
| "snap_op (HandleInstallSnapshot rng now args) = True"
| "snap_op TakeApplies = True"
| "snap_op _ = False"

lemma exec_snap_view:
  "cm_exec op cm = Some cm' \<Longrightarrow> \<not> snap_op op \<Longrightarrow> snap_view cm' = snap_view cm"
  by (cases op) (auto simp: snap_view_def method_defs Let_def log_append_def split: if_splits option.splits prod.splits)

lemma decide_view:
  assumes "decide_step rng now d = (nd, st)"
  shows "snap_view (nd_core nd) = snap_view (nd_core d) \<and> nd_applied nd = nd_applied d"
proof -
  have "nd_core nd = nd_core d \<or> nd_core nd = fst (start_election rng now (nd_core d)) \<or>
      nd_core nd = fst (start_pre_election rng now (nd_core d))"
    using assms by (auto simp: decide_step_def Let_def case_prod_beta split: if_splits)
  moreover have "nd_applied nd = nd_applied d"
    using assms by (auto simp: decide_step_def Let_def case_prod_beta split: if_splits)
  ultimately show ?thesis
    using exec_snap_view [of "StartElection rng now" "nd_core d"] exec_snap_view [of "StartPreElection rng now" "nd_core d"]
    by auto
qed

lemma fold_view: "snap_view (fold_reply cl r cm) = snap_view cm"
proof (cases "(cl, r, cm)" rule: fold_reply.cases)
  case (1 p args r core)
  with exec_snap_view [of "RecordPreVoteReply p r" core] show ?thesis by simp
next
  case (2 p args r core)
  with exec_snap_view [of "RecordVoteReply p r" core] show ?thesis by simp
next
  case (3 p args r core)
  with exec_snap_view [of "HandleAppendReply p r (ae_prev_log_index args + length (ae_entries args))" core]
  show ?thesis by simp
next
  case (4 p args r core)
  with exec_snap_view [of "HandleInstallSnapshotReply p r (is_last_included_index args)" core]
  show ?thesis by (simp add: Let_def)
qed simp_all

lemma serve_view:
  assumes "serve_call rng now cl cm = (cm', r)"
  shows "snap_view cm' = snap_view cm \<or>
    (\<exists>p a. cl = CallInstall p a \<and> cm' = fst (handle_install_snapshot rng now a cm))"
proof (cases cl)
  case (CallPreVote p a)
  with assms exec_snap_view [of "HandleRequestVote rng now a" cm] show ?thesis
    by (auto simp: service_request_vote_def split: prod.splits)
next
  case (CallVote p a)
  with assms exec_snap_view [of "HandleRequestVote rng now a" cm] show ?thesis
    by (auto simp: service_request_vote_def split: prod.splits)
next
  case (CallAppend p a)
  with assms exec_snap_view [of "HandleAppendEntries rng now a" cm] show ?thesis
    by (auto simp: service_append_entries_def split: prod.splits)
next
  case (CallInstall p a)
  with assms show ?thesis by (auto simp: service_install_snapshot_def split: prod.splits)
qed

lemma driver_view:
  assumes "driver_step fits ms c c'"
  obtains "snap_view (core_of c' v) = snap_view (core_of c v)" "nd_applied (cl_node c' v) = nd_applied (cl_node c v)"
  | items where "v \<in> ids ms" "take_applies (core_of c v) = Some (core_of c' v, items)"
      "nd_applied (cl_node c' v) = nd_applied (cl_node c v) @ items"
  | src p a rng now where "v \<in> ids ms" "(src, CallInstall p a) \<in> cl_calls c"
      "core_of c' v = fst (handle_install_snapshot rng now a (core_of c v))"
      "nd_applied (cl_node c' v) = nd_applied (cl_node c v)"
  using assms
proof cases
  case (tick n rng now nd st)
  with decide_view [OF tick(4)] show ?thesis
    by (cases "v = n") (auto simp: set_node_def core_of_def intro: that(1))
next
  case (drain n nd)
  then show ?thesis
    by (cases "v = n") (auto simp: set_node_def core_of_def drain_tick_def intro: that(1,2))
next
  case (serve src cl n rng now core r)
  from serve_view [OF serve(6)] serve show ?thesis
    by (cases "v = n") (auto simp: set_node_def core_of_def intro: that(1) that(3) [of src])
next
  case (fold n cl r core)
  then show ?thesis
    by (cases "v = n") (auto simp: set_node_def core_of_def fold_view intro: that(1))
next
  case (kill n)
  then show ?thesis
    by (cases "v = n") (auto simp: set_node_def core_of_def node_kill_def intro: that(1))
qed

text \<open>A snapshot that is sent is the sender's.\<close>

lemma message_install:
  assumes "message_for due cm p = Some m" "call_of m = CallInstall q a"
  shows "cm_snapshot cm = Some (is_data a) \<and> is_last_included_index a = lg_snapshot_index (cm_log cm)"
  using assms
  by (auto simp: message_for_def needs_snapshot_def install_snapshot_args_def Let_def split: if_splits)

lemma decide_installs:
  assumes "decide_step rng now d = (nd, st)" "CallInstall q a \<in> set (spawn_calls ps st)"
  shows "cm_snapshot (nd_core d) = Some (is_data a) \<and> is_last_included_index a = lg_snapshot_index (cm_log (nd_core d))"
proof -
  consider (idle) "st = StepIdle" | (pre) args where "st = StepStartPreElection args"
    | (elect) args where "st = StepStartElection args"
    | (send) due where "st = StepReplicate (List.map_filter (message_for due (nd_core d)) (nd_peer_ids d))"
    using assms(1) by (auto simp: decide_step_def Let_def case_prod_beta split: if_splits)
  then show ?thesis
  proof cases
    case send
    with assms(2) obtain m p where "message_for due (nd_core d) p = Some m" "call_of m = CallInstall q a"
      by (auto simp: map_filter_mem)
    then show ?thesis by (rule message_install)
  qed (use assms(2) in auto)
qed

lemma driver_installs:
  assumes "driver_step fits ms c c'" "(src, CallInstall q a) \<in> cl_calls c'"
  shows "(src, CallInstall q a) \<in> cl_calls c \<or> src \<in> ids ms \<and>
    cm_snapshot (core_of c src) = Some (is_data a) \<and> is_last_included_index a = lg_snapshot_index (cm_log (core_of c src))"
  using assms
proof cases
  case (tick n rng now nd st)
  with assms(2) decide_installs [OF tick(4)] show ?thesis by (auto simp: set_node_def core_of_def)
qed (simp_all add: set_node_def)

section \<open>Streams of a cluster\<close>

text \<open>A stream leads, in order, to where the core has applied.\<close>

definition fed :: "'s node \<Rightarrow> bool" where
  "fed nd \<longleftrightarrow> in_order 0 (nd_applied nd) \<and>
     (case cm_pending_snapshot (nd_core nd) of
        None \<Rightarrow> stream_end 0 (nd_applied nd) = cm_last_applied (nd_core nd)
      | Some s \<Rightarrow> sn_last_included_index s = cm_last_applied (nd_core nd))"

lemma fed_view:
  "snap_view (nd_core nd') = snap_view (nd_core nd) \<Longrightarrow> nd_applied nd' = nd_applied nd \<Longrightarrow> fed nd' = fed nd"
  by (simp add: snap_view_def fed_def split: option.splits)

lemma fed_drain:
  assumes "cm_inv cm" "represents L (cm_log cm)" "take_applies cm = Some (cm', items)"
    and "fed nd" "nd_core nd = cm" "nd_core nd' = cm'" "nd_applied nd' = nd_applied nd @ items"
  shows "fed nd'"
proof -
  let ?cs = "map (apply_of L) [Suc (cm_last_applied cm) ..< Suc (cm_commit_index cm)]"
  have cm': "cm' = cm\<lparr>cm_pending_snapshot := None, cm_last_applied := cm_commit_index cm\<rparr>"
    and items: "items = (case cm_pending_snapshot cm of None \<Rightarrow> [] | Some s \<Rightarrow> [ApplySnapshot s]) @ ?cs"
    using take_applies_inv [OF assms(1,2)] assms(3) by simp_all
  have "cm_last_applied cm \<le> cm_commit_index cm" using cm_invD(4) [OF assms(1)] by simp
  then show ?thesis
    using assms(4-7) cm' in_order_commands [where k = "cm_last_applied cm" and c = "cm_commit_index cm" and L = L]
    unfolding items by (cases "cm_pending_snapshot cm") (auto simp: fed_def in_order_append simp del: upt_Suc)
qed

lemma fed_install:
  assumes "cm_inv cm" "fed nd" "nd_core nd = cm"
    and "nd_core nd' = fst (handle_install_snapshot rng now a cm)" "nd_applied nd' = nd_applied nd"
  shows "fed nd'"
proof (cases "is_term a < cm_current_term cm \<or>
    is_last_included_index a \<le> cm_commit_index (yield_to_leader rng now (is_term a) (is_leader_id a) cm)")
  case True
  then have "snap_view (nd_core nd') = snap_view cm"
    by (auto simp: assms(4) handle_install_snapshot_def snap_view_def Let_def)
  with assms(2,3,5) show ?thesis by (metis fed_view)
next
  case False
  then have "cm_last_applied (nd_core nd') = is_last_included_index a"
    "\<exists>t. cm_pending_snapshot (nd_core nd') = Some \<lparr>sn_last_included_index = is_last_included_index a,
       sn_last_included_term = t, sn_data = is_data a\<rparr>"
    using cm_invD(3,4) [OF assms(1)]
    by (simp_all add: assms(4) handle_install_snapshot_def install_image_def Let_def compact_snapshot_index)
  with assms(2,5) show ?thesis by (auto simp: fed_def)
qed

lemma cm_new_snapshot:
  assumes "cm_new rng nid peers st tim now = Inr cm" "storage_load st = Inr ps"
  shows "cm_snapshot cm = ps_snapshot ps" "cm_log cm = ps_log ps"
    and "cm_last_applied cm = lg_snapshot_index (ps_log ps)"
    and "cm_pending_snapshot cm = map_option (\<lambda>data. \<lparr>sn_last_included_index = lg_snapshot_index (ps_log ps),
      sn_last_included_term = lg_snapshot_term (ps_log ps), sn_data = data\<rparr>) (ps_snapshot ps)"
  using assms by (auto simp: cm_new_def Let_def)

lemma fed_new:
  assumes "cm_new rng nid peers st tim now = Inr (nd_core nd)" "storage_load st = Inr ps" "nd_applied nd = []"
    and "ps_snapshot ps = None \<longrightarrow> lg_snapshot_index (ps_log ps) = 0"
  shows "fed nd"
  using cm_new_snapshot [OF assms(1,2)] assms(3,4) by (cases "ps_snapshot ps") (auto simp: fed_def)

lemma fed_step:
  assumes step: "cluster_step fits ms tim c c'" and rel: "cluster_rel ms g c" and v: "v \<in> ids ms"
    and disk: "mirrored (core_of c v)" and fed: "fed (cl_node c v)"
  shows "fed (cl_node c' v)"
proof -
  note R = node_relD(5,8) [OF cluster_relD(2) [OF rel v]]
  from step show ?thesis
  proof cases
    case driver
    then show ?thesis
    proof (cases rule: driver_view [where v = v])
      case 1
      with fed show ?thesis by (metis core_of_def fed_view)
    next
      case (2 items)
      with fed_drain [OF R 2(2) fed] show ?thesis by (simp add: core_of_def)
    next
      case (3 src p a rng now)
      with fed_install [OF R(1) fed] show ?thesis by (simp add: core_of_def)
    qed
  next
    case (propose n command nd res)
    have "snap_view (nd_core nd) = snap_view (nd_core (cl_node c n))" "nd_applied nd = nd_applied (cl_node c n)"
      using propose(4) exec_snap_view [of "SubmitCommand command" "nd_core (cl_node c n)"]
      by (auto simp: node_propose_def split: prod.splits)
    from fed_view [OF this] fed propose(1) show ?thesis by (auto simp: set_node_def)
  next
    case (snapshot n index data nd)
    have "cm_pending_snapshot (nd_core nd) = cm_pending_snapshot (core_of c n)"
      "cm_last_applied (nd_core nd) = cm_last_applied (core_of c n)" "nd_applied nd = nd_applied (cl_node c n)"
      using snapshot(4)
      by (auto simp: control_snapshot_def cm_take_snapshot_def core_of_def Let_def split: if_splits option.splits)
    with fed snapshot show ?thesis by (cases "v = n") (simp_all add: set_node_def core_of_def fed_def split: option.splits)
  next
    case (restart n rng connect now nd clients)
    show ?thesis
    proof (cases "v = n")
      case True
      note new = start_node_config [OF restart(4)]
      have "storage_load (cm_storage (core_of c n)) = Inr (persistent_of (core_of c n))"
        using disk True by (simp add: mirrored_def)
      from fed_new [OF new(1) this new(3)] cm_invD(2) [OF R(1)] True restart(1) show ?thesis
        by (simp add: set_node_def persistent_of_def)
    qed (use fed restart(1) in \<open>simp add: set_node_def\<close>)
  qed
qed

lemma reachable_fed:
  assumes "reachable_on load save sound fits disk ms tim c" "v \<in> ids ms"
  shows "fed (cl_node c v)"
proof -
  have "cluster_reach fits disk ms tim c" using assms(1) by (simp add: reachable_on_def)
  from this assms show ?thesis
  proof induction
    case (start c)
    then obtain rng connect now and clients :: "string peer_clients"
      where "storage_load (disk v) = Inr persistent_default"
        "start_node rng connect (config_for ms v) (disk v) tim now = Inr (cl_node c v, clients)"
      unfolding cluster_start_def by blast
    with fed_new [OF start_node_config(1) [OF this(2)] this(1) start_node_config(3) [OF this(2)]] show ?case
      by (simp add: persistent_default_def log_new_def)
  next
    case (step c c')
    then have reach: "reachable_on load save sound fits disk ms tim c" by (simp add: reachable_on_def)
    obtain g where "cluster_rel ms g c" "mirrored (core_of c v)" using reachable_rel [OF reach] step.prems(2) by metis
    with fed_step [OF step.hyps(2)] step.IH [OF reach] step.prems(2) show ?case by blast
  qed
qed

section \<open>What the integration tests check\<close>

text \<open>\<open>Node::drain\<close> of \<^verbatim>\<open>tests/chaos.rs\<close>: the commands of a stream.\<close>

definition drained :: "apply_item list \<Rightarrow> bytes list" where
  "drained xs = List.map_filter (\<lambda>x. case x of ApplyCommand a \<Rightarrow> Some (ap_command a) | ApplySnapshot s \<Rightarrow> None) xs"

definition assert_apply_logs_consistent :: "bytes list list \<Rightarrow> bool" where
  "assert_apply_logs_consistent logs =
     list_all (\<lambda>a. list_all (\<lambda>b. let common = min (length a) (length b) in take common a = take common b) logs) logs"

text \<open>The count that \<open>await_stable_leader\<close> of \<^verbatim>\<open>tests/election.rs\<close> compares with one.\<close>

definition same_term_leaders :: "nat \<Rightarrow> 's consensus_module list \<Rightarrow> nat" where
  "same_term_leaders t handles = length (filter (\<lambda>h. is_leader h \<and> cm_current_term h = t) handles)"

lemma stream_commands:
  assumes "in_order k xs" "\<And>s. ApplySnapshot s \<notin> set xs"
  shows "length (drained xs) = length xs"
    and "i < length xs \<Longrightarrow> \<exists>a. ApplyCommand a \<in> set xs \<and> ap_index a = Suc (k + i) \<and> drained xs ! i = ap_command a"
proof -
  have "length (drained xs) = length xs \<and> (\<forall>i < length xs. \<exists>a. ApplyCommand a \<in> set xs \<and>
      ap_index a = Suc (k + i) \<and> drained xs ! i = ap_command a)"
    using assms
  proof (induction k xs rule: in_order.induct)
    case (2 k a xs)
    then have "length (drained xs) = length xs" "\<forall>i < length xs. \<exists>b. ApplyCommand b \<in> set xs \<and>
      ap_index b = Suc (Suc k + i) \<and> drained xs ! i = ap_command b" by auto
    with 2(2) show ?case by (fastforce simp: drained_def less_Suc_eq_0_disj)
  qed (auto simp: drained_def)
  then show "length (drained xs) = length xs"
    "i < length xs \<Longrightarrow> \<exists>a. ApplyCommand a \<in> set xs \<and> ap_index a = Suc (k + i) \<and> drained xs ! i = ap_command a" by auto
qed

text \<open>The check of the chaos test passes in every reachable state of nodes without snapshots.\<close>

lemma apply_logs_consistent:
  assumes reach: "reachable_on load save sound fits disk ms tim c" and ns: "set ns \<subseteq> ids ms"
    and plain: "\<And>n s. n \<in> set ns \<Longrightarrow> ApplySnapshot s \<notin> set (nd_applied (cl_node c n))"
  shows "assert_apply_logs_consistent (map (\<lambda>n. drained (nd_applied (cl_node c n))) ns)"
proof -
  obtain g where rel: "cluster_rel ms g c" "stream_rel ms g c" by (rule reachable_rel [OF reach])
  let ?S = "\<lambda>n. nd_applied (cl_node c n)"
  have "take (min (length (drained (?S n))) (length (drained (?S m)))) (drained (?S n)) =
      take (min (length (drained (?S n))) (length (drained (?S m)))) (drained (?S m))"
    if n: "n \<in> set ns" and m: "m \<in> set ns" for n m
  proof (rule nth_equalityI)
    have ord: "in_order 0 (?S v)" if "v \<in> set ns" for v using reachable_fed [OF reach] ns that by (auto simp: fed_def)
    note N = stream_commands [OF ord [OF n] plain [OF n]] and M = stream_commands [OF ord [OF m] plain [OF m]]
    fix i
    assume "i < length (take (min (length (drained (?S n))) (length (drained (?S m)))) (drained (?S n)))"
    then have i: "i < length (?S n)" "i < length (?S m)" using N(1) M(1) by simp_all
    obtain a b where "ApplyCommand a \<in> set (?S n)" "ApplyCommand b \<in> set (?S m)" "ap_index a = ap_index b"
      "drained (?S n) ! i = ap_command a" "drained (?S m) ! i = ap_command b"
      using N(2) [OF i(1)] M(2) [OF i(2)] by auto
    moreover from rel_streams_agree [OF rel _ _ this(1-3)] n m ns have "a = b" by blast
    ultimately show "take (min (length (drained (?S n))) (length (drained (?S m)))) (drained (?S n)) ! i =
        take (min (length (drained (?S n))) (length (drained (?S m)))) (drained (?S m)) ! i"
      using i N(1) M(1) by simp
  qed simp
  then show ?thesis by (auto simp: assert_apply_logs_consistent_def list_all_iff Let_def)
qed

lemma one_leader_per_term:
  assumes reach: "reachable_on load save sound fits disk ms tim c" and ns: "set ns \<subseteq> ids ms" "distinct ns"
  shows "same_term_leaders t (map (core_of c) ns) \<le> 1"
proof -
  obtain g where rel: "cluster_rel ms g c" by (rule reachable_rel [OF reach])
  let ?L = "filter (\<lambda>n. is_leader (core_of c n) \<and> cm_current_term (core_of c n) = t) ns"
  have "n = m" if "n \<in> set ?L" "m \<in> set ?L" for n m
    using rel_one_leader [OF rel, of n m] that ns(1) by (auto simp: is_leader_def)
  then have "card (set ?L) \<le> 1" by (subst One_nat_def, subst card_le_Suc0_iff_eq) blast+
  moreover have "distinct ?L" using ns(2) by simp
  ultimately have "length ?L \<le> 1" by (metis distinct_card)
  then show ?thesis by (simp add: same_term_leaders_def filter_map o_def)
qed

end
