(* ===== verification/Rust_String.thy ===== *)
theory Rust_String
  imports Byte_Codec
begin

text \<open>
  Rust's \<open>String\<close> as far as \<^verbatim>\<open>src/app.rs\<close> uses it: a \<open>String\<close> is the list of its UTF-8 bytes,
  one character of the model per byte; \<open>as_bytes\<close> and \<open>String::from_utf8_lossy\<close> go between
  it and byte strings, and \<open>to_string\<close> prints integers in decimal.
\<close>

section \<open>Bytes of a string\<close>

definition byte_of :: "char \<Rightarrow> byte" where
  "byte_of c = word_of_nat (of_char c)"

definition char_of_byte :: "byte \<Rightarrow> char" where
  "char_of_byte b = char_of (unat b)"

definition as_bytes :: "string \<Rightarrow> bytes" where
  "as_bytes s = map byte_of s"

lemma char_of_byte_of [simp]: "char_of_byte (byte_of c) = c"
  by (simp add: char_of_byte_def byte_of_def unat_of_nat)

lemma map_char_as_bytes [simp]: "map char_of_byte (as_bytes s) = s"
  by (simp add: as_bytes_def comp_def)

lemma length_as_bytes [simp]: "length (as_bytes s) = length s"
  by (simp add: as_bytes_def)

lemma as_bytes_append: "as_bytes (s @ t) = as_bytes s @ as_bytes t"
  by (simp add: as_bytes_def)

section \<open>UTF-8\<close>

text \<open>
  One character at the head of a byte string: how many bytes it takes and whether they
  are well formed; of an ill-formed one, the longest prefix of a well-formed character.
\<close>

definition utf8_width :: "byte \<Rightarrow> nat" where
  "utf8_width b =
     (let n = unat b in
      if n < 0x80 then 1 else if 0xC2 \<le> n \<and> n \<le> 0xDF then 2
      else if 0xE0 \<le> n \<and> n \<le> 0xEF then 3 else if 0xF0 \<le> n \<and> n \<le> 0xF4 then 4 else 0)"

definition byte_in :: "nat \<Rightarrow> nat \<Rightarrow> byte \<Rightarrow> bool" where
  "byte_in lo hi b \<longleftrightarrow> lo \<le> unat b \<and> unat b \<le> hi"

text \<open>The range of the second byte, which rules out overlong forms and surrogates.\<close>

definition utf8_second :: "byte \<Rightarrow> byte \<Rightarrow> bool" where
  "utf8_second b c =
     (let n = unat b in
      if n = 0xE0 then byte_in 0xA0 0xBF c else if n = 0xED then byte_in 0x80 0x9F c
      else if n = 0xF0 then byte_in 0x90 0xBF c else if n = 0xF4 then byte_in 0x80 0x8F c
      else byte_in 0x80 0xBF c)"

definition safe_get :: "bytes \<Rightarrow> nat \<Rightarrow> byte" where
  "safe_get bs i = (if i < length bs then bs ! i else 0)"

definition utf8_next :: "bytes \<Rightarrow> nat \<times> bool" where
  "utf8_next bs =
     (let b = safe_get bs 0; w = utf8_width b; cont = (\<lambda>i. byte_in 0x80 0xBF (safe_get bs i)) in
      if w = 1 then (1, True)
      else if w = 0 \<or> \<not> utf8_second b (safe_get bs 1) then (1, False)
      else if w = 2 then (2, True)
      else if \<not> cont 2 then (2, False)
      else if w = 3 then (3, True)
      else if \<not> cont 3 then (3, False)
      else (4, True))"

lemma utf8_next_shrinks: "(n, ok) = utf8_next bs \<Longrightarrow> 0 < n"
  by (auto simp: utf8_next_def Let_def split: if_splits)

function utf8_valid :: "bytes \<Rightarrow> bool" where
  "utf8_valid bs =
     (if bs = [] then True
      else case utf8_next bs of (n, ok) \<Rightarrow> ok \<and> utf8_valid (drop n bs))"
  by pat_completeness auto
termination
  by (relation "measure length") (auto dest: utf8_next_shrinks)

text \<open>\<open>from_utf8_lossy\<close>: every ill-formed piece becomes U+FFFD.\<close>

function utf8_lossy :: "bytes \<Rightarrow> bytes" where
  "utf8_lossy bs =
     (if bs = [] then []
      else case utf8_next bs of (n, ok) \<Rightarrow>
        (if ok then take n bs else [0xEF, 0xBF, 0xBD]) @ utf8_lossy (drop n bs))"
  by pat_completeness auto
termination
  by (relation "measure length") (auto dest: utf8_next_shrinks)

declare utf8_valid.simps [simp del] utf8_lossy.simps [simp del]

definition from_utf8_lossy :: "bytes \<Rightarrow> string" where
  "from_utf8_lossy bs = map char_of_byte (utf8_lossy bs)"

lemma utf8_lossy_valid: "utf8_valid bs \<Longrightarrow> utf8_lossy bs = bs"
proof (induction bs rule: utf8_lossy.induct)
  case (1 bs)
  obtain n ok where n: "utf8_next bs = (n, ok)" by fastforce
  show ?case
  proof (cases "bs = []")
    case True
    then show ?thesis by (simp add: utf8_lossy.simps)
  next
    case False
    with 1(2) n have "ok" "utf8_valid (drop n bs)" by (subst (asm) utf8_valid.simps, simp)+
    with 1(1) [OF False n [symmetric]] n False show ?thesis by (subst utf8_lossy.simps) simp
  qed
qed

definition string_ok :: "string \<Rightarrow> bool" where
  "string_ok s = utf8_valid (as_bytes s)"

lemma from_utf8_lossy_as_bytes: "string_ok s \<Longrightarrow> from_utf8_lossy (as_bytes s) = s"
  by (simp add: string_ok_def from_utf8_lossy_def utf8_lossy_valid)

lemma string_ok_ascii:
  assumes "list_all (\<lambda>c. of_char c < (128 :: nat)) s" "string_ok t"
  shows "string_ok (s @ t)"
  using assms(1)
proof (induction s)
  case Nil
  then show ?case using assms(2) by simp
next
  case (Cons c s)
  then have "unat (byte_of c) < 128" by (simp add: byte_of_def unat_of_nat)
  then have "utf8_next (as_bytes (c # s @ t)) = (1, True)"
    by (simp add: utf8_next_def utf8_width_def safe_get_def as_bytes_def Let_def)
  with Cons show ?case
    by (simp add: string_ok_def as_bytes_def, subst utf8_valid.simps, simp)
qed

section \<open>Decimal numbers\<close>

fun show_nat :: "nat \<Rightarrow> string" where
  "show_nat n = (if n < 10 then [char_of (48 + n)] else show_nat (n div 10) @ [char_of (48 + n mod 10)])"

definition show_int :: "int \<Rightarrow> string" where
  "show_int i = (if i < 0 then ''-'' @ show_nat (nat (- i)) else show_nat (nat i))"

declare show_nat.simps [simp del]

end
