(* ===== verification/Kv_Command.thy ===== *)
theory Kv_Command
  imports Rust_String
begin

text \<open>
  Key-value operations as they travel through the Raft log: \<^verbatim>\<open>src/command.rs\<close> and the
  \<open>Op\<close> and \<open>Command\<close> messages of \<^verbatim>\<open>proto/kv.proto\<close>. The bytes of a command are produced by
  the prost crate, which is a parameter of the model; the interface \<open>prost_message\<close> states
  the one thing the program needs of it.
\<close>

section \<open>Commands\<close>

datatype op = OpGet | OpPut | OpDelete | OpAppend

fun op_code :: "op \<Rightarrow> int" where
  "op_code OpGet = 0"
| "op_code OpPut = 1"
| "op_code OpDelete = 2"
| "op_code OpAppend = 3"

text \<open>\<open>Op::try_from\<close>; the error carries the unknown value.\<close>

definition op_try_from :: "int \<Rightarrow> int + op" where
  "op_try_from i =
     (if i = 0 then Inr OpGet else if i = 1 then Inr OpPut
      else if i = 2 then Inr OpDelete else if i = 3 then Inr OpAppend else Inl i)"

lemma op_try_from_code [simp]: "op_try_from (op_code k) = Inr k"
  by (cases k) (simp_all add: op_try_from_def)

lemma op_try_from_Inr: "op_try_from i = Inr k \<longleftrightarrow> i = op_code k"
  by (cases k) (auto simp: op_try_from_def)

record command =
  cmd_op :: int
  cmd_key :: bytes
  cmd_value :: bytes
  cmd_client_id :: nat
  cmd_seq :: nat
  cmd_nonce :: "64 word"

definition command_get :: "bytes \<Rightarrow> command" where
  "command_get key =
     \<lparr>cmd_op = op_code OpGet, cmd_key = key, cmd_value = [], cmd_client_id = 0, cmd_seq = 0, cmd_nonce = 0\<rparr>"

definition command_put :: "bytes \<Rightarrow> bytes \<Rightarrow> nat \<Rightarrow> nat \<Rightarrow> command" where
  "command_put key value client_id seq =
     \<lparr>cmd_op = op_code OpPut, cmd_key = key, cmd_value = value, cmd_client_id = client_id,
      cmd_seq = seq, cmd_nonce = 0\<rparr>"

definition command_append :: "bytes \<Rightarrow> bytes \<Rightarrow> nat \<Rightarrow> nat \<Rightarrow> command" where
  "command_append key value client_id seq =
     \<lparr>cmd_op = op_code OpAppend, cmd_key = key, cmd_value = value, cmd_client_id = client_id,
      cmd_seq = seq, cmd_nonce = 0\<rparr>"

definition command_delete :: "bytes \<Rightarrow> nat \<Rightarrow> nat \<Rightarrow> command" where
  "command_delete key client_id seq =
     \<lparr>cmd_op = op_code OpDelete, cmd_key = key, cmd_value = [], cmd_client_id = client_id,
      cmd_seq = seq, cmd_nonce = 0\<rparr>"

lemmas command_defs = command_get_def command_put_def command_append_def command_delete_def

section \<open>Their bytes\<close>

record 'e prost =
  prost_encode :: "command \<Rightarrow> bytes"
  prost_decode :: "bytes \<Rightarrow> 'e + command"

definition command_encode :: "'e prost \<Rightarrow> command \<Rightarrow> bytes" where
  "command_encode W c = prost_encode W c"

definition command_decode :: "'e prost \<Rightarrow> bytes \<Rightarrow> 'e + command" where
  "command_decode W bs = prost_decode W bs"

text \<open>The values a Rust \<open>Command\<close> can hold: an \<open>i32\<close>, two \<open>u64\<close>s and two vectors.\<close>

definition cmd_fits :: "command \<Rightarrow> bool" where
  "cmd_fits c \<longleftrightarrow>
     - (2 ^ 31) \<le> cmd_op c \<and> cmd_op c < 2 ^ 31 \<and> cmd_client_id c < 2 ^ 64 \<and> cmd_seq c < 2 ^ 64 \<and>
     length (cmd_key c) < 2 ^ 63 \<and> length (cmd_value c) < 2 ^ 63"

text \<open>What prost documents: a message decodes from its own encoding.\<close>

locale prost_message =
  fixes W :: "'e prost"
  assumes decode_encode: "cmd_fits c \<Longrightarrow> prost_decode W (prost_encode W c) = Inr c"
begin

lemma command_round_trip: "cmd_fits c \<Longrightarrow> command_decode W (command_encode W c) = Inr c"
  by (simp add: command_decode_def command_encode_def decode_encode)

lemma command_encode_inj:
  assumes "cmd_fits c" "cmd_fits d" "command_encode W c = command_encode W d"
  shows "c = d"
  using command_round_trip [OF assms(1)] command_round_trip [OF assms(2)] assms(3)
  by (metis sum.inject(2))

end

text \<open>A message format with that property, used wherever a concrete one is needed.\<close>

definition plain_bytes :: "bytes parser" where
  "plain_bytes r = res_bind (cursor_u64 Truncated r) (\<lambda>(n, r). cursor_take Truncated r n)"

definition plain_encode :: "command \<Rightarrow> bytes" where
  "plain_encode c =
     u64_le (nat (cmd_op c + 2 ^ 31)) @ (u64_le (length (cmd_key c)) @ cmd_key c) @
     (u64_le (length (cmd_value c)) @ cmd_value c) @
     u64_le (cmd_client_id c) @ u64_le (cmd_seq c) @ u64_le (unat (cmd_nonce c)) @ []"

definition plain_parse :: "command parser" where
  "plain_parse r =
     res_bind (cursor_u64 Truncated r) (\<lambda>(k, r).
     res_bind (plain_bytes r) (\<lambda>(key, r).
     res_bind (plain_bytes r) (\<lambda>(value, r).
     res_bind (cursor_u64 Truncated r) (\<lambda>(client_id, r).
     res_bind (cursor_u64 Truncated r) (\<lambda>(seq, r).
     res_bind (cursor_u64 Truncated r) (\<lambda>(nonce, r).
       Inr (\<lparr>cmd_op = int k - 2 ^ 31, cmd_key = key, cmd_value = value, cmd_client_id = client_id,
             cmd_seq = seq, cmd_nonce = word_of_nat nonce\<rparr>, r)))))))"

definition plain :: "decode_error prost" where
  "plain =
     \<lparr>prost_encode = plain_encode,
      prost_decode = (\<lambda>bs. map_sum id fst (plain_parse \<lparr>rd_buf = bs, rd_pos = 0\<rparr>))\<rparr>"

lemma parses_plain_bytes: "length bs < 2 ^ 64 \<Longrightarrow> parses plain_bytes bs (u64_le (length bs) @ bs)"
  unfolding plain_bytes_def [abs_def] by (intro parses_bind [OF parses_cursor_u64] parses_cursor_take) simp_all

lemma parses_plain:
  assumes "cmd_fits c"
  shows "parses plain_parse c (plain_encode c)"
proof -
  note fits = assms [unfolded cmd_fits_def]
  have "unat (cmd_nonce c) < 2 ^ 64" using unsigned_less [of "cmd_nonce c"] by simp
  moreover have "nat (cmd_op c + 2 ^ 31) < 2 ^ 64" using fits by (simp add: nat_less_iff)
  moreover have "parses (\<lambda>r. Inr (\<lparr>cmd_op = cmd_op c, cmd_key = cmd_key c, cmd_value = cmd_value c,
      cmd_client_id = cmd_client_id c, cmd_seq = cmd_seq c, cmd_nonce = cmd_nonce c\<rparr>, r)) c []"
    using parses_return by (cases c) simp
  ultimately show ?thesis
    using fits unfolding plain_parse_def [abs_def] plain_encode_def
    by (intro parses_bind [OF parses_cursor_u64] parses_bind [OF parses_plain_bytes]) simp_all
qed

interpretation plain: prost_message plain
  using parses_ok [OF parses_plain, of _ "[]" "[]"]
  by unfold_locales (simp add: plain_def rdr_def)

end
