(* ===== verification/Kv_Store.thy ===== *)
theory Kv_Store
  imports Byte_Codec
begin

text \<open>
  The local storage layer, \<^verbatim>\<open>src/store.rs\<close>: a wrapper around the Sable engine. The engine is
  a crate of its own and a parameter of the model; the interface \<open>sable_engine\<close> says what
  its three operations mean for the key-value map they work on, \<open>reliable_engine\<close> that
  they do not fail. The wrapper's operations are proved to satisfy the same contract.
\<close>

section \<open>The engine\<close>

type_synonym kv = "bytes \<rightharpoonup> bytes"

text \<open>An operation on a shared handle returns its result and the engine's next state.\<close>

record 'db sable =
  sb_open :: "string \<Rightarrow> string + 'db"
  sb_get :: "'db \<Rightarrow> bytes \<Rightarrow> string + bytes option"
  sb_put :: "'db \<Rightarrow> bytes \<Rightarrow> bytes \<Rightarrow> (string + unit) \<times> 'db"
  sb_delete :: "'db \<Rightarrow> bytes \<Rightarrow> (string + unit) \<times> 'db"

section \<open>The store\<close>

datatype store_error = Engine string

fun store_error_text :: "store_error \<Rightarrow> string" where
  "store_error_text (Engine m) = ''sable engine error: '' @ m"

fun engine_error :: "string + 'a \<Rightarrow> store_error + 'a" where
  "engine_error (Inl e) = Inl (Engine e)"
| "engine_error (Inr x) = Inr x"

definition store_open :: "'db sable \<Rightarrow> string \<Rightarrow> store_error + 'db" where
  "store_open E dir = engine_error (sb_open E dir)"

definition store_put :: "'db sable \<Rightarrow> 'db \<Rightarrow> bytes \<Rightarrow> bytes \<Rightarrow> (store_error + unit) \<times> 'db" where
  "store_put E db key value = (case sb_put E db key value of (r, db) \<Rightarrow> (engine_error r, db))"

definition store_get :: "'db sable \<Rightarrow> 'db \<Rightarrow> bytes \<Rightarrow> store_error + bytes option" where
  "store_get E db key = engine_error (sb_get E db key)"

definition store_delete :: "'db sable \<Rightarrow> 'db \<Rightarrow> bytes \<Rightarrow> (store_error + unit) \<times> 'db" where
  "store_delete E db key = (case sb_delete E db key of (r, db) \<Rightarrow> (engine_error r, db))"

section \<open>The contract\<close>

text \<open>
  \<open>contents\<close> reads the map off an engine's state. A failed write may or may not have
  taken effect.
\<close>

locale sable_engine =
  fixes E :: "'db sable" and contents :: "'db \<Rightarrow> kv"
  assumes engine_get: "sb_get E db k = Inr found \<Longrightarrow> found = contents db k"
    and engine_put: "sb_put E db k v = (Inr u, db') \<Longrightarrow> contents db' = (contents db)(k \<mapsto> v)"
    and engine_put_fails: "sb_put E db k v = (Inl e, db') \<Longrightarrow>
      contents db' = contents db \<or> contents db' = (contents db)(k \<mapsto> v)"
    and engine_delete: "sb_delete E db k = (Inr u, db') \<Longrightarrow> contents db' = (contents db)(k := None)"
    and engine_delete_fails: "sb_delete E db k = (Inl e, db') \<Longrightarrow>
      contents db' = contents db \<or> contents db' = (contents db)(k := None)"
begin

lemma store_get_ok: "store_get E db k = Inr v \<Longrightarrow> v = contents db k"
  by (cases "sb_get E db k") (auto simp: store_get_def engine_get)

lemma store_put_cases:
  assumes "store_put E db k v = (r, db')"
  shows "contents db' = (contents db)(k \<mapsto> v) \<or> r \<noteq> Inr () \<and> contents db' = contents db"
proof -
  obtain r0 where "sb_put E db k v = (r0, db')" "r = engine_error r0"
    using assms by (auto simp: store_put_def split: prod.splits)
  then show ?thesis by (cases r0) (auto dest: engine_put engine_put_fails)
qed

lemma store_delete_cases:
  assumes "store_delete E db k = (r, db')"
  shows "contents db' = (contents db)(k := None) \<or> r \<noteq> Inr () \<and> contents db' = contents db"
proof -
  obtain r0 where "sb_delete E db k = (r0, db')" "r = engine_error r0"
    using assms by (auto simp: store_delete_def split: prod.splits)
  then show ?thesis by (cases r0) (auto dest: engine_delete engine_delete_fails)
qed

text \<open>No operation touches another key, whether it succeeds or not.\<close>

lemma store_frame:
  assumes "k' \<noteq> k"
  shows "store_put E db k v = (r, db') \<Longrightarrow> contents db' k' = contents db k'"
    and "store_delete E db k = (r, db') \<Longrightarrow> contents db' k' = contents db k'"
  using assms store_put_cases [of db k v r db'] store_delete_cases [of db k r db'] by auto

end

locale reliable_engine = sable_engine E contents
  for E :: "'db sable" and contents :: "'db \<Rightarrow> kv" +
  assumes get_succeeds: "\<exists>v. sb_get E db k = Inr v"
    and put_succeeds: "fst (sb_put E db k v) = Inr ()"
    and delete_succeeds: "fst (sb_delete E db k) = Inr ()"
begin

lemma get_value: "store_get E db k = Inr (contents db k)"
  using get_succeeds [of db k] engine_get by (auto simp: store_get_def)

lemma put_value:
  obtains db' where "store_put E db k v = (Inr (), db')" "contents db' = (contents db)(k \<mapsto> v)"
  using put_succeeds [of db k v] engine_put [of db k v]
  by (cases "sb_put E db k v") (auto simp: store_put_def)

lemma delete_value:
  obtains db' where "store_delete E db k = (Inr (), db')" "contents db' = (contents db)(k := None)"
  using delete_succeeds [of db k] engine_delete [of db k]
  by (cases "sb_delete E db k") (auto simp: store_delete_def)

end

text \<open>An engine that is its contents.\<close>

definition mem_engine :: "kv sable" where
  "mem_engine =
     \<lparr>sb_open = (\<lambda>_. Inr Map.empty), sb_get = (\<lambda>db k. Inr (db k)),
      sb_put = (\<lambda>db k v. (Inr (), db(k \<mapsto> v))), sb_delete = (\<lambda>db k. (Inr (), db(k := None)))\<rparr>"

interpretation mem: reliable_engine mem_engine "\<lambda>db. db"
  by unfold_locales (auto simp: mem_engine_def)

text \<open>An engine whose writes of one key fail, half of them after taking effect.\<close>

definition flaky_engine :: "bytes \<Rightarrow> (kv \<times> bool) sable" where
  "flaky_engine bad =
     \<lparr>sb_open = (\<lambda>_. Inr (Map.empty, False)), sb_get = (\<lambda>db k. Inr (fst db k)),
      sb_put = (\<lambda>(m, b) k v. if k = bad then (Inl ''io'', (if b then m(k \<mapsto> v) else m, \<not> b))
                             else (Inr (), (m(k \<mapsto> v), b))),
      sb_delete = (\<lambda>(m, b) k. if k = bad then (Inl ''io'', (if b then m(k := None) else m, \<not> b))
                              else (Inr (), (m(k := None), b)))\<rparr>"

interpretation flaky: sable_engine "flaky_engine bad" fst
  by unfold_locales (auto simp: flaky_engine_def split: if_splits)

end
