(* ===== verification/Kv_App.thy ===== *)
theory Kv_App
  imports Kv_Command Kv_Store
begin

text \<open>
  The replicated state machine of \<^verbatim>\<open>src/app.rs\<close> (\<open>AppState\<close>): applying a committed command to
  the engine, the per-client table that makes retried mutations take effect once, and the
  wake-up of the caller that waits for the command. An abstract machine, a key-value map
  and a table, says what the commands mean; on an engine that does not fail the code
  refines it.
\<close>

section \<open>State\<close>

datatype outcome = OutValue "bytes option" | OutDone | OutFailed string

record last_applied =
  la_seq :: nat
  la_outcome :: outcome

text \<open>
  A waiter is the sending half of a one-shot channel; \<open>as_chan\<close> holds what has been sent on
  each channel.
\<close>

record 'db app_state =
  as_store :: 'db
  as_waiters :: "64 word \<rightharpoonup> nat"
  as_dedup :: "nat \<rightharpoonup> last_applied"
  as_keys :: "bytes set"
  as_chan :: "nat \<rightharpoonup> outcome"

definition app_new :: "'db \<Rightarrow> 'db app_state" where
  "app_new store =
     \<lparr>as_store = store, as_waiters = Map.empty, as_dedup = Map.empty, as_keys = {}, as_chan = Map.empty\<rparr>"

section \<open>Applying a command\<close>

definition app_run :: "'db sable \<Rightarrow> int + op \<Rightarrow> command \<Rightarrow> 'db app_state \<Rightarrow> 'db app_state \<times> outcome" where
  "app_run E op command st =
     (case op of
        Inr OpGet \<Rightarrow>
          (case store_get E (as_store st) (cmd_key command) of
             Inr value \<Rightarrow> (st, OutValue value)
           | Inl e \<Rightarrow> (st, OutFailed (store_error_text e)))
      | Inr OpPut \<Rightarrow>
          (case store_put E (as_store st) (cmd_key command) (cmd_value command) of
             (Inr _, db) \<Rightarrow> (st\<lparr>as_store := db, as_keys := insert (cmd_key command) (as_keys st)\<rparr>, OutDone)
           | (Inl e, db) \<Rightarrow> (st\<lparr>as_store := db\<rparr>, OutFailed (store_error_text e)))
      | Inr OpDelete \<Rightarrow>
          (case store_delete E (as_store st) (cmd_key command) of
             (Inr _, db) \<Rightarrow> (st\<lparr>as_store := db, as_keys := as_keys st - {cmd_key command}\<rparr>, OutDone)
           | (Inl e, db) \<Rightarrow> (st\<lparr>as_store := db\<rparr>, OutFailed (store_error_text e)))
      | Inr OpAppend \<Rightarrow>
          (case store_get E (as_store st) (cmd_key command) of
             Inl e \<Rightarrow> (st, OutFailed (store_error_text e))
           | Inr v \<Rightarrow>
               (let value = (case v of None \<Rightarrow> [] | Some v \<Rightarrow> v) @ cmd_value command in
                case store_put E (as_store st) (cmd_key command) value of
                  (Inr _, db) \<Rightarrow> (st\<lparr>as_store := db, as_keys := insert (cmd_key command) (as_keys st)\<rparr>,
                                  OutValue (Some value))
                | (Inl e, db) \<Rightarrow> (st\<lparr>as_store := db\<rparr>, OutFailed (store_error_text e))))
      | Inl _ \<Rightarrow> (st, OutFailed (''unknown op '' @ show_int (cmd_op command))))"

definition is_mutation :: "int + op \<Rightarrow> bool" where
  "is_mutation op \<longleftrightarrow> op = Inr OpPut \<or> op = Inr OpDelete \<or> op = Inr OpAppend"

definition apply_committed :: "'db sable \<Rightarrow> command \<Rightarrow> 'db app_state \<Rightarrow> 'db app_state \<times> outcome" where
  "apply_committed E command st =
     (let op = op_try_from (cmd_op command);
          fresh = (case app_run E op command st of
                     (st, outcome) \<Rightarrow>
                       (st\<lparr>as_dedup := (as_dedup st)(cmd_client_id command \<mapsto>
                              \<lparr>la_seq = cmd_seq command, la_outcome = outcome\<rparr>)\<rparr>, outcome))
      in if \<not> is_mutation op \<or> cmd_client_id command = 0 then app_run E op command st
         else (case as_dedup st (cmd_client_id command) of
                 Some prior \<Rightarrow> if cmd_seq command \<le> la_seq prior then (st, la_outcome prior) else fresh
               | None \<Rightarrow> fresh))"

definition app_apply :: "'db sable \<Rightarrow> command \<Rightarrow> 'db app_state \<Rightarrow> 'db app_state" where
  "app_apply E command st =
     (case apply_committed E command st of
        (st, outcome) \<Rightarrow>
          (case as_waiters st (cmd_nonce command) of
             None \<Rightarrow> st
           | Some tx \<Rightarrow> st\<lparr>as_waiters := (as_waiters st)(cmd_nonce command := None),
                           as_chan := (as_chan st)(tx \<mapsto> outcome)\<rparr>))"

definition app_apply_all :: "'db sable \<Rightarrow> command list \<Rightarrow> 'db app_state \<Rightarrow> 'db app_state" where
  "app_apply_all E cs st = fold (app_apply E) cs st"

lemma app_apply_all_simps [simp]:
  "app_apply_all E [] st = st"
  "app_apply_all E (c # cs) st = app_apply_all E cs (app_apply E c st)"
  "app_apply_all E (cs @ ds) st = app_apply_all E ds (app_apply_all E cs st)"
  by (simp_all add: app_apply_all_def)

section \<open>The abstract machine\<close>

record machine =
  mc_kv :: kv
  mc_dedup :: "nat \<rightharpoonup> last_applied"

text \<open>What an operation means for the map, and what it answers.\<close>

fun op_effect :: "int + op \<Rightarrow> command \<Rightarrow> kv \<Rightarrow> kv \<times> outcome" where
  "op_effect (Inr OpGet) c m = (m, OutValue (m (cmd_key c)))"
| "op_effect (Inr OpPut) c m = (m(cmd_key c \<mapsto> cmd_value c), OutDone)"
| "op_effect (Inr OpDelete) c m = (m(cmd_key c := None), OutDone)"
| "op_effect (Inr OpAppend) c m =
     (let v = (case m (cmd_key c) of None \<Rightarrow> [] | Some v \<Rightarrow> v) @ cmd_value c
      in (m(cmd_key c \<mapsto> v), OutValue (Some v)))"
| "op_effect (Inl _) c m = (m, OutFailed (''unknown op '' @ show_int (cmd_op c)))"

abbreviation effect :: "command \<Rightarrow> kv \<Rightarrow> kv \<times> outcome" where
  "effect c \<equiv> op_effect (op_try_from (cmd_op c)) c"

text \<open>A mutation that carries a client's identity.\<close>

definition identified :: "command \<Rightarrow> bool" where
  "identified c \<longleftrightarrow> is_mutation (op_try_from (cmd_op c)) \<and> cmd_client_id c \<noteq> 0"

text \<open>A command whose sequence number its client's entry of the table has already reached.\<close>

definition replayed :: "(nat \<rightharpoonup> last_applied) \<Rightarrow> command \<Rightarrow> bool" where
  "replayed table c \<longleftrightarrow> identified c \<and>
     (\<exists>prior. table (cmd_client_id c) = Some prior \<and> cmd_seq c \<le> la_seq prior)"

definition machine_apply :: "command \<Rightarrow> machine \<Rightarrow> machine \<times> outcome" where
  "machine_apply c m =
     (if replayed (mc_dedup m) c then (m, la_outcome (the (mc_dedup m (cmd_client_id c))))
      else (case effect c (mc_kv m) of
              (kv, out) \<Rightarrow>
                (\<lparr>mc_kv = kv, mc_dedup = (if identified c
                    then (mc_dedup m)(cmd_client_id c \<mapsto> \<lparr>la_seq = cmd_seq c, la_outcome = out\<rparr>)
                    else mc_dedup m)\<rparr>, out)))"

definition machine_of :: "('db \<Rightarrow> kv) \<Rightarrow> 'db app_state \<Rightarrow> machine" where
  "machine_of contents st = \<lparr>mc_kv = contents (as_store st), mc_dedup = as_dedup st\<rparr>"

text \<open>The key directory lists exactly the live keys.\<close>

definition keys_ok :: "('db \<Rightarrow> kv) \<Rightarrow> 'db app_state \<Rightarrow> bool" where
  "keys_ok contents st \<longleftrightarrow> as_keys st = dom (contents (as_store st))"

section \<open>What holds on every engine\<close>

lemma app_run_frame [frame]:
  "as_dedup (fst (app_run E op c st)) = as_dedup st"
  "as_waiters (fst (app_run E op c st)) = as_waiters st"
  "as_chan (fst (app_run E op c st)) = as_chan st"
  by (auto simp: app_run_def Let_def split: sum.splits op.splits prod.splits)

text \<open>\<open>apply_committed\<close> as the two cases that matter.\<close>

lemma apply_replayed:
  assumes "replayed (as_dedup st) c"
  shows "apply_committed E c st = (st, la_outcome (the (as_dedup st (cmd_client_id c))))"
  using assms by (auto simp: replayed_def identified_def apply_committed_def Let_def)

lemma apply_fresh:
  assumes "\<not> replayed (as_dedup st) c" "app_run E (op_try_from (cmd_op c)) c st = (st', out)"
  shows "apply_committed E c st =
    ((if identified c then st'\<lparr>as_dedup := (as_dedup st)(cmd_client_id c \<mapsto>
          \<lparr>la_seq = cmd_seq c, la_outcome = out\<rparr>)\<rparr> else st'), out)"
  using assms app_run_frame(1) [of E "op_try_from (cmd_op c)" c st]
  by (auto simp: replayed_def identified_def apply_committed_def Let_def split: option.splits)

lemma apply_committed_dedup:
  "as_dedup (fst (apply_committed E c st)) =
     (if identified c \<and> \<not> replayed (as_dedup st) c
      then (as_dedup st)(cmd_client_id c \<mapsto>
             \<lparr>la_seq = cmd_seq c, la_outcome = snd (apply_committed E c st)\<rparr>)
      else as_dedup st)"
proof -
  obtain st' out where r: "app_run E (op_try_from (cmd_op c)) c st = (st', out)" by fastforce
  with app_run_frame(1) [of E "op_try_from (cmd_op c)" c st] have "as_dedup st' = as_dedup st" by simp
  then show ?thesis using apply_replayed [of st c E] apply_fresh [OF _ r]
    by (cases "replayed (as_dedup st) c") auto
qed

lemma apply_committed_frame [frame]:
  "as_waiters (fst (apply_committed E c st)) = as_waiters st"
  "as_chan (fst (apply_committed E c st)) = as_chan st"
proof -
  obtain st' out where r: "app_run E (op_try_from (cmd_op c)) c st = (st', out)" by fastforce
  with app_run_frame(2,3) [of E "op_try_from (cmd_op c)" c st]
  have "as_waiters st' = as_waiters st" "as_chan st' = as_chan st" by simp_all
  then show "as_waiters (fst (apply_committed E c st)) = as_waiters st"
    "as_chan (fst (apply_committed E c st)) = as_chan st"
    using apply_replayed [of st c E] apply_fresh [OF _ r]
    by (cases "replayed (as_dedup st) c"; simp)+
qed

lemma app_apply_machine:
  "as_store (app_apply E c st) = as_store (fst (apply_committed E c st))"
  "as_dedup (app_apply E c st) = as_dedup (fst (apply_committed E c st))"
  "as_keys (app_apply E c st) = as_keys (fst (apply_committed E c st))"
  by (simp_all add: app_apply_def split: prod.splits option.splits)

text \<open>The outcome reaches the channel of the waiter for the command's nonce, and no other.\<close>

lemma app_apply_wakes:
  "as_chan (app_apply E c st) = (case as_waiters st (cmd_nonce c) of
     None \<Rightarrow> as_chan st | Some tx \<Rightarrow> (as_chan st)(tx \<mapsto> snd (apply_committed E c st)))"
  "as_waiters (app_apply E c st) = (as_waiters st)(cmd_nonce c := None)"
  using apply_committed_frame [of E c st]
  by (auto simp: app_apply_def split: prod.splits option.splits)

text \<open>
  While its client has nothing newer applied, an applied mutation stays in the table with
  the outcome it had.
\<close>

lemma table_keeps:
  assumes "as_dedup st k = Some \<lparr>la_seq = q, la_outcome = out\<rparr>"
    and "\<forall>c \<in> set cs. identified c \<and> cmd_client_id c = k \<longrightarrow> cmd_seq c \<le> q"
  shows "as_dedup (app_apply_all E cs st) k = Some \<lparr>la_seq = q, la_outcome = out\<rparr>"
  using assms
proof (induction cs arbitrary: st)
  case (Cons c cs)
  have "as_dedup (app_apply E c st) k = Some \<lparr>la_seq = q, la_outcome = out\<rparr>"
    using Cons.prems by (auto simp: app_apply_machine apply_committed_dedup replayed_def)
  with Cons show ?case by simp
qed simp

section \<open>Refinement\<close>

context reliable_engine
begin

lemma app_run_refines:
  assumes "app_run E op c st = (st', out)"
  shows "op_effect op c (contents (as_store st)) = (contents (as_store st'), out)"
    and "keys_ok contents st \<Longrightarrow> keys_ok contents st'"
proof -
  let ?m = "contents (as_store st)"
  obtain p where p: "store_put E (as_store st) (cmd_key c) (cmd_value c) = (Inr (), p)"
    "contents p = ?m(cmd_key c \<mapsto> cmd_value c)" by (rule put_value)
  obtain a where a: "store_put E (as_store st) (cmd_key c)
      ((case ?m (cmd_key c) of None \<Rightarrow> [] | Some v \<Rightarrow> v) @ cmd_value c) = (Inr (), a)"
    "contents a = ?m(cmd_key c \<mapsto> (case ?m (cmd_key c) of None \<Rightarrow> [] | Some v \<Rightarrow> v) @ cmd_value c)"
    by (rule put_value)
  obtain d where d: "store_delete E (as_store st) (cmd_key c) = (Inr (), d)"
    "contents d = ?m(cmd_key c := None)" by (rule delete_value)
  note effects = p a d get_value
  show "op_effect op c ?m = (contents (as_store st'), out)"
    using assms effects by (cases "(op, c, ?m)" rule: op_effect.cases) (auto simp: app_run_def Let_def)
  show "keys_ok contents st \<Longrightarrow> keys_ok contents st'"
    using assms effects
    by (cases "(op, c, ?m)" rule: op_effect.cases) (auto simp: app_run_def Let_def keys_ok_def split: if_splits)
qed

lemma apply_committed_refines:
  assumes "apply_committed E c st = (st', out)"
  shows "machine_apply c (machine_of contents st) = (machine_of contents st', out)"
    and "keys_ok contents st \<Longrightarrow> keys_ok contents st'"
proof -
  obtain s1 o1 where r: "app_run E (op_try_from (cmd_op c)) c st = (s1, o1)" by fastforce
  note run = app_run_refines [OF r] and frame = app_run_frame(1) [of E "op_try_from (cmd_op c)" c st]
  have "machine_apply c (machine_of contents st) = (machine_of contents st', out) \<and>
      (keys_ok contents st \<longrightarrow> keys_ok contents st')"
  proof (cases "replayed (as_dedup st) c")
    case True
    with assms apply_replayed [OF True, of E] show ?thesis
      by (auto simp: machine_apply_def machine_of_def)
  next
    case False
    with assms apply_fresh [OF False r] run frame r show ?thesis
      by (auto simp: machine_apply_def machine_of_def keys_ok_def)
  qed
  then show "machine_apply c (machine_of contents st) = (machine_of contents st', out)"
    "keys_ok contents st \<Longrightarrow> keys_ok contents st'" by auto
qed

lemma app_apply_refines:
  "machine_of contents (app_apply E c st) = fst (machine_apply c (machine_of contents st))"
  "keys_ok contents st \<Longrightarrow> keys_ok contents (app_apply E c st)"
  using apply_committed_refines [of c st] app_apply_machine [of E c st]
  by (auto simp: machine_of_def keys_ok_def prod_eq_iff)

lemma app_apply_all_refines:
  "machine_of contents (app_apply_all E cs st) =
     fold (\<lambda>c m. fst (machine_apply c m)) cs (machine_of contents st)"
  "keys_ok contents st \<Longrightarrow> keys_ok contents (app_apply_all E cs st)"
  by (induction cs arbitrary: st) (auto simp: app_apply_refines)

end

section \<open>Exactly once\<close>

text \<open>
  \<open>effective seen cs\<close> are the commands of \<open>cs\<close> that take effect when the clients' highest
  applied sequence numbers are \<open>seen\<close>: every read and every unidentified write, and of a
  client's mutations those that go beyond all before.
\<close>

definition stale :: "(nat \<rightharpoonup> nat) \<Rightarrow> command \<Rightarrow> bool" where
  "stale seen c \<longleftrightarrow> identified c \<and> (\<exists>q. seen (cmd_client_id c) = Some q \<and> cmd_seq c \<le> q)"

definition mark :: "command \<Rightarrow> (nat \<rightharpoonup> nat) \<Rightarrow> nat \<rightharpoonup> nat" where
  "mark c seen = (if identified c \<and> \<not> stale seen c then seen(cmd_client_id c \<mapsto> cmd_seq c) else seen)"

fun effective :: "(nat \<rightharpoonup> nat) \<Rightarrow> command list \<Rightarrow> command list" where
  "effective seen [] = []"
| "effective seen (c # cs) = (if stale seen c then [] else [c]) @ effective (mark c seen) cs"

text \<open>The pair under which a mutation is known.\<close>

abbreviation request :: "command \<Rightarrow> nat \<times> nat" where
  "request c \<equiv> (cmd_client_id c, cmd_seq c)"

lemma effective_fresh:
  assumes "c \<in> set (effective seen cs)" "identified c" "seen (cmd_client_id c) = Some q"
  shows "q < cmd_seq c"
  using assms
proof (induction cs arbitrary: seen q)
  case (Cons d cs)
  show ?case
  proof (cases "c \<in> set (effective (mark d seen) cs)")
    case True
    have "\<exists>q'. mark d seen (cmd_client_id c) = Some q' \<and> q \<le> q'"
      using Cons.prems(3) by (auto simp: mark_def stale_def)
    with Cons.IH [OF True Cons.prems(2)] show ?thesis by fastforce
  next
    case False
    with Cons.prems show ?thesis by (auto simp: stale_def split: if_splits)
  qed
qed simp

lemma effective_once: "distinct (map request (filter identified (effective seen cs)))"
proof (induction cs arbitrary: seen)
  case (Cons c cs)
  have "request c \<notin> request ` {d \<in> set (effective (mark c seen) cs). identified d}"
    if "identified c" "\<not> stale seen c"
    using effective_fresh [of _ "mark c seen" cs "cmd_seq c"] that by (fastforce simp: mark_def)
  with Cons.IH [of "mark c seen"] show ?case by auto
qed simp

text \<open>
  A client is orderly when it never sends a mutation behind its newest one for the first
  time; a client that finishes one operation before it numbers the next is.
\<close>

definition orderly :: "command list \<Rightarrow> bool" where
  "orderly cs \<longleftrightarrow> (\<forall>i j. i < j \<and> j < length cs \<and> identified (cs ! i) \<and> identified (cs ! j) \<and>
     cmd_client_id (cs ! i) = cmd_client_id (cs ! j) \<and> cmd_seq (cs ! j) \<le> cmd_seq (cs ! i) \<longrightarrow>
     (\<exists>k < j. identified (cs ! k) \<and> request (cs ! k) = request (cs ! j)))"

definition seen_of :: "(nat \<rightharpoonup> last_applied) \<Rightarrow> nat \<rightharpoonup> nat" where
  "seen_of table k = map_option la_seq (table k)"

lemma machine_effective:
  "mc_kv (fold (\<lambda>c m. fst (machine_apply c m)) cs m) =
     fold (\<lambda>c kv. fst (effect c kv)) (effective (seen_of (mc_dedup m)) cs) (mc_kv m)"
proof (induction cs arbitrary: m)
  case (Cons c cs)
  let ?m = "fst (machine_apply c m)"
  have "replayed (mc_dedup m) c \<longleftrightarrow> stale (seen_of (mc_dedup m)) c"
    by (auto simp: replayed_def stale_def seen_of_def)
  moreover from this have "seen_of (mc_dedup ?m) = mark c (seen_of (mc_dedup m))"
    by (auto simp: machine_apply_def mark_def seen_of_def fun_eq_iff split: prod.splits)
  moreover have "mc_kv ?m = (if replayed (mc_dedup m) c then mc_kv m else fst (effect c (mc_kv m)))"
    by (auto simp: machine_apply_def split: prod.splits)
  ultimately show ?case using Cons.IH [of ?m] by simp
qed simp

lemma effective_append:
  "effective seen (cs @ ds) = effective seen cs @ effective (fold mark cs seen) ds"
  by (induction cs arbitrary: seen) simp_all

lemma fold_mark_source:
  assumes "fold mark cs seen k = Some q"
  shows "seen k = Some q \<or> (\<exists>c \<in> set cs. identified c \<and> request c = (k, q))"
  using assms
proof (induction cs arbitrary: seen)
  case (Cons c cs)
  from Cons.IH [of "mark c seen"] Cons.prems show ?case
    by (auto simp: mark_def split: if_splits)
qed simp

lemma orderly_take: "orderly (cs @ ds) \<Longrightarrow> orderly cs"
  unfolding orderly_def
proof (intro allI impI, elim conjE)
  fix i j
  assume all: "\<forall>i j. i < j \<and> j < length (cs @ ds) \<and> identified ((cs @ ds) ! i) \<and> identified ((cs @ ds) ! j) \<and>
      cmd_client_id ((cs @ ds) ! i) = cmd_client_id ((cs @ ds) ! j) \<and>
      cmd_seq ((cs @ ds) ! j) \<le> cmd_seq ((cs @ ds) ! i) \<longrightarrow>
      (\<exists>k < j. identified ((cs @ ds) ! k) \<and> request ((cs @ ds) ! k) = request ((cs @ ds) ! j))"
    and "i < j" "j < length cs" "identified (cs ! i)" "identified (cs ! j)"
    "cmd_client_id (cs ! i) = cmd_client_id (cs ! j)" "cmd_seq (cs ! j) \<le> cmd_seq (cs ! i)"
  with spec [OF spec [OF all, of i], of j] obtain k
    where "k < j" "identified ((cs @ ds) ! k)" "request ((cs @ ds) ! k) = request ((cs @ ds) ! j)"
    by (auto simp: nth_append)
  then show "\<exists>k < j. identified (cs ! k) \<and> request (cs ! k) = request (cs ! j)"
    using \<open>j < length cs\<close> by (intro exI [of _ k]) (auto simp: nth_append)
qed

lemma effective_complete:
  assumes "orderly cs" "c \<in> set cs" "identified c"
  shows "\<exists>d \<in> set (effective Map.empty cs). identified d \<and> request d = request c"
  using assms
proof (induction cs arbitrary: c rule: rev_induct)
  case (snoc x cs)
  note ord = orderly_take [OF snoc.prems(1)]
  let ?seen = "fold mark cs Map.empty"
  consider (old) "c \<in> set cs" | (kept) "c = x" "x \<in> set (effective ?seen [x])"
    | (dropped) q where "c = x" "?seen (cmd_client_id x) = Some q" "cmd_seq x \<le> q"
    using snoc.prems(2) by (cases "stale ?seen x") (auto simp: stale_def)
  then show ?case
  proof cases
    case old
    with snoc.IH [OF ord] snoc.prems(3) show ?thesis unfolding effective_append by (metis Un_iff set_append)
  next
    case kept
    then show ?thesis using snoc.prems(3) unfolding effective_append by (metis Un_iff set_append)
  next
    case dropped
    from fold_mark_source [OF dropped(2)] obtain i
      where i: "i < length cs" "identified (cs ! i)" "request (cs ! i) = (cmd_client_id x, q)"
      by (auto simp: in_set_conv_nth)
    have "\<exists>k < length cs. identified ((cs @ [x]) ! k) \<and> request ((cs @ [x]) ! k) = request ((cs @ [x]) ! length cs)"
      using snoc.prems(1) [unfolded orderly_def, rule_format, of i "length cs"] i dropped snoc.prems(3)
      by (simp add: nth_append)
    then obtain k where "k < length cs" "identified (cs ! k)" "request (cs ! k) = request x"
      by (auto simp: nth_append)
    with snoc.IH [OF ord, of "cs ! k"] dropped(1) show ?thesis
      unfolding effective_append by (metis Un_iff nth_mem set_append)
  qed
qed simp

lemma once_count:
  assumes "distinct (map f xs)" "d \<in> set xs" "f d = r"
  shows "length (filter (\<lambda>x. f x = r) xs) = 1"
  using assms
proof (induction xs)
  case (Cons x xs)
  have "filter (\<lambda>x. f x = r) xs = []" if "f x = r"
    using Cons.prems(1) that by (force simp: filter_empty_conv image_iff)
  with Cons show ?case by auto
qed simp

section \<open>Properties\<close>

text \<open>
  C14. The state machine is the specified one: on an engine that does not fail, applying a
  committed command changes the key-value contents and the table of clients exactly as
  the abstract machine does, answers what the abstract machine answers, and keeps the key
  directory equal to the set of live keys.
\<close>

theorem apply_committed_meets_spec:
  assumes "reliable_engine E contents" "keys_ok contents st"
  shows "machine_apply c (machine_of contents st) =
      (machine_of contents (fst (apply_committed E c st)), snd (apply_committed E c st)) \<and>
    keys_ok contents (fst (apply_committed E c st))"
proof -
  note r = reliable_engine.apply_committed_refines [OF assms(1), of c st]
  show ?thesis using r assms(2) by (cases "apply_committed E c st") auto
qed

theorem apply_committed_meets_spec_witness:
  "snd (machine_apply (command_append [1] [2] 7 1) (machine_of (\<lambda>db. db) (app_new Map.empty))) = OutValue (Some [2])"
proof -
  let ?c = "command_append [1] [2] 7 1" and ?st = "app_new Map.empty"
  have "snd (apply_committed mem_engine ?c ?st) = OutValue (Some [2])"
    by (simp add: app_new_def command_append_def apply_committed_def app_run_def is_mutation_def op_try_from_def
      store_get_def store_put_def mem_engine_def Let_def)
  moreover have "keys_ok (\<lambda>db. db) ?st" by (simp add: keys_ok_def app_new_def)
  ultimately show ?thesis using apply_committed_meets_spec [OF mem.reliable_engine_axioms, of ?st ?c] by simp
qed

text \<open>
  C11. Exactly once: on an engine that does not fail, a stream of committed commands leaves
  the store as if only its effective commands had been executed, and of an orderly client's
  mutation, however often it was retried, exactly one copy is effective.
\<close>

theorem mutations_take_effect_once:
  assumes "reliable_engine E contents" "orderly cs" "c \<in> set cs" "identified c"
  shows "contents (as_store (app_apply_all E cs (app_new db))) =
      fold (\<lambda>c kv. fst (effect c kv)) (effective Map.empty cs) (contents db) \<and>
    length (filter (\<lambda>d. request d = request c) (filter identified (effective Map.empty cs))) = 1"
proof
  have "seen_of (as_dedup (app_new db)) = Map.empty"
    by (simp add: seen_of_def app_new_def fun_eq_iff)
  moreover have "mc_kv (machine_of contents (app_apply_all E cs (app_new db))) =
      fold (\<lambda>c kv. fst (effect c kv)) (effective (seen_of (as_dedup (app_new db))) cs)
        (contents (as_store (app_new db)))"
    unfolding reliable_engine.app_apply_all_refines(1) [OF assms(1)]
    by (simp add: machine_effective machine_of_def)
  ultimately show "contents (as_store (app_apply_all E cs (app_new db))) =
      fold (\<lambda>c kv. fst (effect c kv)) (effective Map.empty cs) (contents db)"
    by (simp add: machine_of_def app_new_def)
  show "length (filter (\<lambda>d. request d = request c) (filter identified (effective Map.empty cs))) = 1"
    using effective_complete [OF assms(2-4)] once_count [OF effective_once] by force
qed

text \<open>The witness: an append that is retried once, with another client's in between.\<close>

definition retried_stream :: "command list" where
  "retried_stream = [command_append [1] [2] 7 1, command_append [1] [3] 8 1, command_append [1] [2] 7 1]"

lemma retried_stream_orderly: "orderly retried_stream"
  unfolding orderly_def
proof (intro allI impI, elim conjE)
  fix i j
  assume "i < j" "j < length retried_stream" "cmd_client_id (retried_stream ! i) = cmd_client_id (retried_stream ! j)"
  then have "i = 0 \<and> j = 2"
    by (auto simp: retried_stream_def command_defs less_Suc_eq numeral_2_eq_2 numeral_3_eq_3)
  then show "\<exists>k < j. identified (retried_stream ! k) \<and> request (retried_stream ! k) = request (retried_stream ! j)"
    by (intro exI [of _ 0]) (simp add: retried_stream_def command_defs identified_def is_mutation_def op_try_from_def)
qed

theorem mutations_take_effect_once_witness:
  "as_store (app_apply_all mem_engine retried_stream (app_new Map.empty)) [1] = Some [2, 3]"
proof -
  have "command_append [1] [2] 7 1 \<in> set retried_stream" "identified (command_append [1] [2] 7 1)"
    by (simp_all add: retried_stream_def command_defs identified_def is_mutation_def op_try_from_def)
  from conjunct1 [OF mutations_take_effect_once [OF mem.reliable_engine_axioms retried_stream_orderly this, of Map.empty]]
  show ?thesis
    by (simp add: retried_stream_def command_defs identified_def is_mutation_def op_try_from_def
        stale_def mark_def Let_def)
qed

text \<open>
  C25. A retry is answered with the outcome of the original, even when the engine fails, as
  long as its client has nothing newer applied; and it changes nothing.
\<close>

theorem retry_replays_outcome:
  assumes "identified c" "\<not> replayed (as_dedup st) c" "identified d" "request d = request c"
    and "\<forall>x \<in> set cs. identified x \<and> cmd_client_id x = cmd_client_id c \<longrightarrow> cmd_seq x \<le> cmd_seq c"
  shows "apply_committed E d (app_apply_all E cs (app_apply E c st)) =
    (app_apply_all E cs (app_apply E c st), snd (apply_committed E c st))"
proof -
  have "as_dedup (app_apply E c st) (cmd_client_id c) =
      Some \<lparr>la_seq = cmd_seq c, la_outcome = snd (apply_committed E c st)\<rparr>"
    using assms(1,2) by (simp add: app_apply_machine apply_committed_dedup)
  from table_keeps [OF this assms(5)] assms(3,4) show ?thesis
    by (subst apply_replayed) (auto simp: replayed_def)
qed

theorem retry_replays_outcome_witness:
  "snd (apply_committed (flaky_engine [1]) (command_put [1] [2] 7 1)
     (app_apply (flaky_engine [1]) (command_put [1] [2] 7 1) (app_new (Map.empty, False)))) =
   OutFailed ''sable engine error: io''"
proof -
  let ?c = "command_put [1] [2] 7 1" and ?E = "flaky_engine [1]" and ?st = "app_new (Map.empty, False)"
  have "identified ?c" "\<not> replayed (as_dedup ?st) ?c"
    by (simp_all add: command_defs identified_def is_mutation_def op_try_from_def replayed_def app_new_def)
  from retry_replays_outcome [OF this this(1) refl, of "[]" ?E]
  show ?thesis
    by (simp add: apply_committed_def app_run_def is_mutation_def command_defs op_try_from_def app_new_def
        store_put_def flaky_engine_def Let_def)
qed

text \<open>
  What the table does not give: a mutation that arrives for the first time after a newer
  one of the same client is not executed, and is answered with the newer one's outcome.
\<close>

lemma late_request_answered_for_another:
  "\<exists>st. st = app_apply mem_engine (command_append [1] [5] 7 2) (app_new Map.empty) \<and>
     apply_committed mem_engine (command_append [9] [6] 7 1) st = (st, OutValue (Some [5])) \<and> as_store st [9] = None"
  by (simp add: app_apply_def apply_committed_def app_run_def is_mutation_def command_defs op_try_from_def
      app_new_def store_get_def store_put_def mem_engine_def Let_def)

text \<open>
  A restart forgets the table but not the store: when the entry of an acknowledged append
  is delivered again to a restarted node, it is appended a second time.
\<close>

lemma restart_applies_append_twice:
  "\<exists>st. st = app_apply mem_engine (command_append [1] [2] 7 1) (app_new Map.empty) \<and>
     as_store st [1] = Some [2] \<and>
     as_store (app_apply mem_engine (command_append [1] [2] 7 1) (app_new (as_store st))) [1] = Some [2, 2]"
  by (simp add: app_apply_def apply_committed_def app_run_def is_mutation_def command_defs op_try_from_def
      app_new_def store_get_def store_put_def mem_engine_def Let_def)

end
