(* ===== verification/Kv_Snapshot.thy ===== *)
theory Kv_Snapshot
  imports Kv_App "HOL-Library.List_Lexorder"
begin

text \<open>
  Snapshots of the state machine, \<^verbatim>\<open>src/app.rs\<close>: the byte image of the table of clients and
  of every live key (\<open>build_snapshot\<close>), its strict reader (\<open>SnapReader\<close>, \<open>decode_snapshot\<close>)
  and the replacement of a node's state by an image (\<open>install_snapshot\<close>).
\<close>

section \<open>The format\<close>

definition encode_bytes :: "bytes \<Rightarrow> bytes" where
  "encode_bytes bs = u64_le (length bs) @ bs"

fun encode_outcome :: "outcome \<Rightarrow> bytes" where
  "encode_outcome OutDone = [0]"
| "encode_outcome (OutValue None) = [1]"
| "encode_outcome (OutValue (Some v)) = [2] @ encode_bytes v"
| "encode_outcome (OutFailed msg) = [3] @ encode_bytes (as_bytes msg)"

definition encode_client :: "nat \<times> last_applied \<Rightarrow> bytes" where
  "encode_client = (\<lambda>(client_id, last). u64_le client_id @ u64_le (la_seq last) @ encode_outcome (la_outcome last))"

definition encode_pair :: "bytes \<times> bytes \<Rightarrow> bytes" where
  "encode_pair = (\<lambda>(key, value). encode_bytes key @ encode_bytes value)"

text \<open>
  The order in which a \<open>HashMap\<close> and a \<open>HashSet\<close> are iterated is unspecified: it is a
  parameter, possibly a different one at every use.
\<close>

record hash_order =
  ho_ids :: "(nat \<rightharpoonup> last_applied) \<Rightarrow> nat list"
  ho_keys :: "bytes set \<Rightarrow> bytes list"

definition hash_order_ok :: "hash_order \<Rightarrow> bool" where
  "hash_order_ok H \<longleftrightarrow>
     (\<forall>m. finite (dom m) \<longrightarrow> distinct (ho_ids H m) \<and> set (ho_ids H m) = dom m) \<and>
     (\<forall>S. finite S \<longrightarrow> distinct (ho_keys H S) \<and> set (ho_keys H S) = S)"

definition snapshot_value :: "'db sable \<Rightarrow> 'db \<Rightarrow> bytes \<Rightarrow> bytes" where
  "snapshot_value E db key = (case store_get E db key of Inr (Some v) \<Rightarrow> v | _ \<Rightarrow> [])"

definition build_snapshot :: "'db sable \<Rightarrow> hash_order \<Rightarrow> 'db app_state \<Rightarrow> bytes" where
  "build_snapshot E H st =
     (let ids = ho_ids H (as_dedup st); keys = ho_keys H (as_keys st) in
      u64_le (length ids) @
      concat (map (\<lambda>i. encode_client (i, the (as_dedup st i))) ids) @
      u64_le (length keys) @
      concat (map (\<lambda>k. encode_pair (k, snapshot_value E (as_store st) k)) keys))"

section \<open>The reader\<close>

definition snap_take :: "nat \<Rightarrow> bytes parser" where
  "snap_take n r = cursor_take SnapTruncated r n"

definition snap_u64 :: "nat parser" where
  "snap_u64 r = cursor_u64 SnapTruncated r"

definition snap_bytes :: "bytes parser" where
  "snap_bytes r = res_bind (snap_u64 r) (\<lambda>(len, r). snap_take len r)"

definition snap_payload :: "byte \<Rightarrow> outcome parser" where
  "snap_payload tag r =
     (if tag = 0 then Inr (OutDone, r)
      else if tag = 1 then Inr (OutValue None, r)
      else if tag = 2 then res_bind (snap_bytes r) (\<lambda>(v, r). Inr (OutValue (Some v), r))
      else if tag = 3 then res_bind (snap_bytes r) (\<lambda>(m, r). Inr (OutFailed (from_utf8_lossy m), r))
      else Inl (BadOutcomeTag tag))"

definition snap_outcome :: "outcome parser" where
  "snap_outcome r = res_bind (cursor_u8 SnapTruncated r) (\<lambda>(tag, r). snap_payload tag r)"

definition snap_client :: "(nat \<times> last_applied) parser" where
  "snap_client r =
     res_bind (snap_u64 r) (\<lambda>(client_id, r).
     res_bind (snap_u64 r) (\<lambda>(seq, r).
     res_bind (snap_outcome r) (\<lambda>(outcome, r).
       Inr ((client_id, \<lparr>la_seq = seq, la_outcome = outcome\<rparr>), r))))"

definition snap_pair :: "(bytes \<times> bytes) parser" where
  "snap_pair r =
     res_bind (snap_bytes r) (\<lambda>(key, r).
     res_bind (snap_bytes r) (\<lambda>(value, r). Inr ((key, value), r)))"

definition insert_all :: "('k \<times> 'v) list \<Rightarrow> 'k \<rightharpoonup> 'v" where
  "insert_all xs = fold (\<lambda>(k, v) m. m(k \<mapsto> v)) xs Map.empty"

text \<open>A count and that many items.\<close>

definition snap_seq :: "'a parser \<Rightarrow> 'a list parser" where
  "snap_seq item r = res_bind (snap_u64 r) (\<lambda>(count, r). read_n count item r)"

definition snap_image :: "((nat \<rightharpoonup> last_applied) \<times> (bytes \<times> bytes) list) parser" where
  "snap_image r =
     res_bind (snap_seq snap_client r) (\<lambda>(clients, r).
     res_bind (snap_seq snap_pair r) (\<lambda>(pairs, r). Inr ((insert_all clients, pairs), r)))"

definition decode_snapshot :: "bytes \<Rightarrow> decode_error + (nat \<rightharpoonup> last_applied) \<times> (bytes \<times> bytes) list" where
  "decode_snapshot data =
     res_bind (snap_image \<lparr>rd_buf = data, rd_pos = 0\<rparr>) (\<lambda>(image, r). Inr image)"

section \<open>Installing an image\<close>

definition clear_keys :: "'db sable \<Rightarrow> bytes list \<Rightarrow> 'db \<Rightarrow> 'db" where
  "clear_keys E ks db = fold (\<lambda>key db. snd (store_delete E db key)) ks db"

definition load_pairs :: "'db sable \<Rightarrow> (bytes \<times> bytes) list \<Rightarrow> 'db \<Rightarrow> 'db \<times> bytes set" where
  "load_pairs E pairs db =
     fold (\<lambda>(key, value) (db, keys). (snd (store_put E db key value), insert key keys)) pairs (db, {})"

definition install_snapshot :: "'db sable \<Rightarrow> hash_order \<Rightarrow> bytes \<Rightarrow> 'db app_state \<Rightarrow> 'db app_state" where
  "install_snapshot E H data st =
     (case decode_snapshot data of
        Inl e \<Rightarrow> st
      | Inr (dedup, pairs) \<Rightarrow>
          (case load_pairs E pairs (clear_keys E (ho_keys H (as_keys st)) (as_store st)) of
             (db, keys) \<Rightarrow> st\<lparr>as_store := db, as_keys := keys, as_dedup := dedup\<rparr>))"

section \<open>The reader undoes the writer\<close>

definition outcome_fits :: "outcome \<Rightarrow> bool" where
  "outcome_fits out \<longleftrightarrow>
     (case out of OutValue (Some v) \<Rightarrow> length v < 2 ^ 64
      | OutFailed m \<Rightarrow> length m < 2 ^ 64 \<and> string_ok m | _ \<Rightarrow> True)"

definition client_fits :: "nat \<times> last_applied \<Rightarrow> bool" where
  "client_fits = (\<lambda>(i, l). i < 2 ^ 64 \<and> la_seq l < 2 ^ 64 \<and> outcome_fits (la_outcome l))"

definition pair_fits :: "bytes \<times> bytes \<Rightarrow> bool" where
  "pair_fits = (\<lambda>(k, v). length k < 2 ^ 64 \<and> length v < 2 ^ 64)"

lemma parses_snap_u64: "n < 2 ^ 64 \<Longrightarrow> parses snap_u64 n (u64_le n)"
  unfolding snap_u64_def [abs_def] by (rule parses_cursor_u64)

lemma parses_snap_bytes: "length bs < 2 ^ 64 \<Longrightarrow> parses snap_bytes bs (encode_bytes bs)"
  unfolding snap_bytes_def [abs_def] encode_bytes_def snap_take_def
  by (intro parses_bind [OF parses_snap_u64] parses_cursor_take) simp_all

lemmas snap_u64_then = parses_bind [OF parses_snap_u64]
  and snap_bytes_then = parses_bind [OF parses_snap_bytes]

lemma parses_final: "parses p x bs \<Longrightarrow> parses (\<lambda>r. res_bind (p r) (\<lambda>(x, r). Inr (f x, r))) (f x) bs"
  using parses_bind [of p x bs "\<lambda>x r. Inr (f x, r)" "f x" "[]", OF _ parses_return] by simp

lemma parses_snap_seq:
  assumes "length xs < 2 ^ 64" "parses (read_n (length xs) p) xs bs"
  shows "parses (snap_seq p) xs (u64_le (length xs) @ bs)"
  unfolding snap_seq_def [abs_def] by (rule snap_u64_then) (use assms in simp_all)

lemma parses_snap_payload:
  "parses (snap_payload 0) OutDone []" "parses (snap_payload 1) (OutValue None) []"
  "length v < 2 ^ 64 \<Longrightarrow> parses (snap_payload 2) (OutValue (Some v)) (encode_bytes v)"
  "length m < 2 ^ 64 \<Longrightarrow> string_ok m \<Longrightarrow> parses (snap_payload 3) (OutFailed m) (encode_bytes (as_bytes m))"
  using parses_return parses_final [OF parses_snap_bytes, of v "\<lambda>v. OutValue (Some v)"]
    parses_final [OF parses_snap_bytes, of "as_bytes m" "\<lambda>m. OutFailed (from_utf8_lossy m)"]
  by (simp_all add: snap_payload_def [abs_def] from_utf8_lossy_as_bytes)

lemma parses_snap_outcome:
  assumes "outcome_fits out"
  shows "parses snap_outcome out (encode_outcome out)"
proof -
  note tag = parses_bind [OF parses_cursor_u8 [of SnapTruncated], of snap_payload]
  from assms show ?thesis
    unfolding snap_outcome_def [abs_def]
    using tag [OF parses_snap_payload(1)] tag [OF parses_snap_payload(2)] tag [OF parses_snap_payload(3)]
      tag [OF parses_snap_payload(4)]
    by (cases out rule: encode_outcome.cases) (simp_all add: outcome_fits_def)
qed

lemma parses_snap_client: "client_fits c \<Longrightarrow> parses snap_client c (encode_client c)"
proof (cases c)
  case (Pair i l)
  assume "client_fits c"
  then have "parses snap_client (i, \<lparr>la_seq = la_seq l, la_outcome = la_outcome l\<rparr>) (encode_client (i, l))"
    unfolding snap_client_def [abs_def] encode_client_def client_fits_def Pair prod.case
    by (intro snap_u64_then parses_final [OF parses_snap_outcome]) simp_all
  with Pair show ?thesis by (cases l) simp
qed

interpretation client_codec: codec client_fits encode_client snap_client
  by unfold_locales (rule parses_snap_client)

lemma parses_snap_pair: "pair_fits p \<Longrightarrow> parses snap_pair p (encode_pair p)"
  unfolding snap_pair_def [abs_def] encode_pair_def pair_fits_def
  by (cases p) (auto intro!: snap_bytes_then parses_final parses_snap_bytes)

interpretation pair_codec: codec pair_fits encode_pair snap_pair
  by unfold_locales (rule parses_snap_pair)

text \<open>What a snapshot is an image of: the clients and the pairs it lists.\<close>

definition snapshot_clients :: "hash_order \<Rightarrow> 'db app_state \<Rightarrow> (nat \<times> last_applied) list" where
  "snapshot_clients H st = map (\<lambda>i. (i, the (as_dedup st i))) (ho_ids H (as_dedup st))"

definition snapshot_pairs :: "'db sable \<Rightarrow> hash_order \<Rightarrow> 'db app_state \<Rightarrow> (bytes \<times> bytes) list" where
  "snapshot_pairs E H st = map (\<lambda>k. (k, snapshot_value E (as_store st) k)) (ho_keys H (as_keys st))"

text \<open>Everything in the state has a size that fits the format's 64-bit counters.\<close>

definition app_fits :: "'db sable \<Rightarrow> 'db app_state \<Rightarrow> bool" where
  "app_fits E st \<longleftrightarrow>
     finite (dom (as_dedup st)) \<and> card (dom (as_dedup st)) < 2 ^ 64 \<and>
     (\<forall>i l. as_dedup st i = Some l \<longrightarrow> client_fits (i, l)) \<and>
     finite (as_keys st) \<and> card (as_keys st) < 2 ^ 64 \<and>
     (\<forall>k \<in> as_keys st. pair_fits (k, snapshot_value E (as_store st) k))"

lemma hash_orderD:
  assumes "hash_order_ok H"
  shows "finite (dom m) \<Longrightarrow> set (ho_ids H m) = dom m \<and> length (ho_ids H m) = card (dom m)"
    and "finite S \<Longrightarrow> set (ho_keys H S) = S \<and> length (ho_keys H S) = card S"
  using assms distinct_card [of "ho_ids H m"] distinct_card [of "ho_keys H S"]
  unfolding hash_order_ok_def by (metis, metis)

lemma fold_insert_map:
  "fold (\<lambda>(k, v) m. m(k \<mapsto> v)) (map (\<lambda>k. (k, f k)) ks) m x = (if x \<in> set ks then Some (f x) else m x)"
  by (induction ks arbitrary: m) auto

lemma insert_all_clients:
  assumes "hash_order_ok H" "finite (dom (as_dedup st))"
  shows "insert_all (snapshot_clients H st) = as_dedup st"
  using hash_orderD(1) [OF assms]
  by (auto simp: insert_all_def snapshot_clients_def fold_insert_map fun_eq_iff dom_def)

lemma parses_image:
  assumes H: "hash_order_ok H" and fits: "app_fits E st"
  shows "parses snap_image (as_dedup st, snapshot_pairs E H st) (build_snapshot E H st)"
proof -
  note f = fits [unfolded app_fits_def]
  let ?cs = "snapshot_clients H st" and ?ps = "snapshot_pairs E H st"
  have ids: "set (ho_ids H (as_dedup st)) = dom (as_dedup st)" "length ?cs < 2 ^ 64"
    and keys: "set (ho_keys H (as_keys st)) = as_keys st" "length ?ps < 2 ^ 64"
    using hash_orderD [OF H] f by (simp_all add: snapshot_clients_def snapshot_pairs_def)
  have "parses (read_n (length ?cs) snap_client) ?cs (concat (map encode_client ?cs))"
    using f ids by (intro client_codec.reads_many) (auto simp: snapshot_clients_def)
  moreover have "parses (read_n (length ?ps) snap_pair) ?ps (concat (map encode_pair ?ps))"
    using f keys by (intro pair_codec.reads_many) (auto simp: snapshot_pairs_def)
  ultimately have "parses snap_image (insert_all ?cs, ?ps) ((u64_le (length ?cs) @ concat (map encode_client ?cs)) @
      u64_le (length ?ps) @ concat (map encode_pair ?ps))"
    unfolding snap_image_def [abs_def] using ids(2) keys(2)
    by (intro parses_bind [OF parses_snap_seq] parses_final [OF parses_snap_seq])
  then show ?thesis
    unfolding insert_all_clients [OF H conjunct1 [OF f]]
    by (simp add: build_snapshot_def snapshot_clients_def snapshot_pairs_def comp_def Let_def)
qed

lemma decode_build:
  assumes "hash_order_ok H" "app_fits E st"
  shows "decode_snapshot (build_snapshot E H st @ rest) = Inr (as_dedup st, snapshot_pairs E H st)"
  using parses_ok [OF parses_image [OF assms], of "[]" rest] by (simp add: decode_snapshot_def rdr_def)

section \<open>Installing replaces the whole state\<close>

context reliable_engine
begin

lemma clear_keys_contents:
  "contents (clear_keys E ks db) k = (if k \<in> set ks then None else contents db k)"
proof (induction ks arbitrary: db)
  case (Cons x ks)
  obtain db' where "store_delete E db x = (Inr (), db')" "contents db' = (contents db)(x := None)"
    by (rule delete_value)
  with Cons [of db'] show ?case by (simp add: clear_keys_def)
qed (simp add: clear_keys_def)

lemma load_pairs_contents:
  "load_pairs E (map (\<lambda>k. (k, f k)) ks) db = (db', keys) \<Longrightarrow>
     keys = set ks \<and> contents db' k = (if k \<in> set ks then Some (f k) else contents db k)"
proof (induction ks arbitrary: db' keys rule: rev_induct)
  case (snoc x ks)
  obtain d0 k0 where l: "load_pairs E (map (\<lambda>k. (k, f k)) ks) db = (d0, k0)" by fastforce
  obtain d1 where "store_put E d0 x (f x) = (Inr (), d1)" "contents d1 = (contents d0)(x \<mapsto> f x)"
    by (rule put_value)
  with snoc.prems l snoc.IH [OF l] show ?case by (auto simp: load_pairs_def)
qed (simp add: load_pairs_def)

lemma snapshot_value_ok: "contents db k = Some v \<Longrightarrow> snapshot_value E db k = v"
  by (simp add: snapshot_value_def get_value)

lemma install_build:
  assumes H: "hash_order_ok H" "hash_order_ok H'" and st: "app_fits E st" "keys_ok contents st"
    and st': "finite (as_keys st')" "keys_ok contents st'"
  shows "machine_of contents (install_snapshot E H' (build_snapshot E H st) st') = machine_of contents st"
    and "keys_ok contents (install_snapshot E H' (build_snapshot E H st) st')"
proof -
  let ?ks = "ho_keys H (as_keys st)" and ?old = "ho_keys H' (as_keys st')"
  have keys: "set ?ks = dom (contents (as_store st))" "set ?old = dom (contents (as_store st'))"
    using hash_orderD(2) [OF H(1)] hash_orderD(2) [OF H(2) st'(1)] st st'
    by (simp_all add: app_fits_def keys_ok_def)
  obtain db ks where l: "load_pairs E (snapshot_pairs E H st) (clear_keys E ?old (as_store st')) = (db, ks)"
    by fastforce
  from load_pairs_contents [OF l [unfolded snapshot_pairs_def]] keys
  have ks: "ks = dom (contents (as_store st))"
    and "contents db k = contents (as_store st) k" for k
    by (auto simp: clear_keys_contents snapshot_value_ok split: if_splits)
  then have "contents db = contents (as_store st)" by blast
  with l ks decode_build [OF H(1) st(1), of "[]"]
  show "machine_of contents (install_snapshot E H' (build_snapshot E H st) st') = machine_of contents st"
    "keys_ok contents (install_snapshot E H' (build_snapshot E H st) st')"
    by (simp_all add: install_snapshot_def machine_of_def keys_ok_def)
qed

end

section \<open>Properties\<close>

text \<open>A sample state, and an iteration order.\<close>

definition sorted_order :: hash_order where
  "sorted_order = \<lparr>ho_ids = (\<lambda>m. sorted_list_of_set (dom m)), ho_keys = sorted_list_of_set\<rparr>"

lemma sorted_order_ok: "hash_order_ok sorted_order"
  by (simp add: hash_order_ok_def sorted_order_def)

definition sample_app :: "kv app_state" where
  "sample_app = app_apply mem_engine (command_append [1] [2] 7 1) (app_new Map.empty)"

lemma sample_app_parts:
  "as_store sample_app = [[1] \<mapsto> [2]]" "as_keys sample_app = {[1]}"
  "as_dedup sample_app = [7 \<mapsto> \<lparr>la_seq = 1, la_outcome = OutValue (Some [2])\<rparr>]"
  by (simp_all add: sample_app_def app_apply_def apply_committed_def app_run_def is_mutation_def command_defs
      op_try_from_def app_new_def store_get_def store_put_def mem_engine_def Let_def)

lemma sample_app_ok: "app_fits mem_engine sample_app" "keys_ok (\<lambda>db. db) sample_app"
  by (simp_all add: app_fits_def keys_ok_def sample_app_parts client_fits_def pair_fits_def outcome_fits_def
      snapshot_value_def mem.get_value)

text \<open>
  C15. Snapshots transfer the whole state machine: on engines that do not fail, installing
  the image of one node's state on another replaces its key-value contents, its table of
  clients and its key directory by the first node's, whatever it held before and in
  whatever order either node iterates its hash tables.
\<close>

theorem snapshot_transfers_state:
  assumes "reliable_engine E contents" "hash_order_ok H" "hash_order_ok H'"
    and "app_fits E st" "keys_ok contents st" "finite (as_keys st')" "keys_ok contents st'"
  shows "machine_of contents (install_snapshot E H' (build_snapshot E H st) st') = machine_of contents st \<and>
    keys_ok contents (install_snapshot E H' (build_snapshot E H st) st')"
  using reliable_engine.install_build [OF assms] by blast

theorem snapshot_transfers_state_witness:
  "as_store (install_snapshot mem_engine sorted_order (build_snapshot mem_engine sorted_order sample_app)
     (app_apply mem_engine (command_put [9] [9] 0 0) (app_new Map.empty))) = [[1] \<mapsto> [2]]"
proof -
  let ?st = "app_apply mem_engine (command_put [9] [9] 0 0) (app_new Map.empty)"
  have "as_store ?st = [[9] \<mapsto> [9]]" "as_keys ?st = {[9]}"
    by (simp_all add: app_apply_def apply_committed_def app_run_def is_mutation_def command_defs op_try_from_def
        app_new_def store_put_def mem_engine_def Let_def)
  then have "finite (as_keys ?st)" "keys_ok (\<lambda>db. db) ?st" by (simp_all add: keys_ok_def)
  from snapshot_transfers_state [OF mem.reliable_engine_axioms sorted_order_ok sorted_order_ok sample_app_ok this]
  show ?thesis by (simp add: machine_of_def sample_app_parts)
qed

text \<open>
  C35. A truncated snapshot is never installed in part: on every proper prefix of an image
  the reader reports an error, and the node keeps the state it has.
\<close>

theorem truncated_snapshot_ignored:
  assumes "hash_order_ok H" "app_fits E st" "strict_prefix data (build_snapshot E H st)"
  shows "(\<exists>e. decode_snapshot data = Inl e) \<and> install_snapshot E H' data st' = st'"
proof -
  obtain e where "snap_image (rdr [] data) = Inl e"
    using parses_cut [OF parses_image [OF assms(1,2)] assms(3), of "[]"] by blast
  then show ?thesis by (simp add: install_snapshot_def decode_snapshot_def rdr_def)
qed

theorem truncated_snapshot_ignored_witness:
  "install_snapshot mem_engine sorted_order (butlast (build_snapshot mem_engine sorted_order sample_app))
     (app_new Map.empty) = app_new Map.empty"
proof -
  let ?b = "build_snapshot mem_engine sorted_order sample_app"
  have "length ?b \<noteq> 0" by (simp add: build_snapshot_def Let_def)
  then have "butlast ?b \<noteq> ?b" by (metis length_butlast diff_less neq0_conv less_numeral_extra(1) less_irrefl)
  then have "strict_prefix (butlast ?b) ?b" by (simp add: strict_prefix_def prefixeq_butlast)
  from truncated_snapshot_ignored [OF sorted_order_ok sample_app_ok(1) this, of sorted_order "app_new Map.empty"]
  show ?thesis by blast
qed


end
