(* ===== verification/Kv_Api.thy ===== *)
theory Kv_Api
  imports Kv_Snapshot Raft_Node
begin

text \<open>
  The client-facing messages of \<^verbatim>\<open>proto/kv.proto\<close> and the statuses a call can fail with, as
  far as the servers set them and the client inspects them.
\<close>

section \<open>Statuses\<close>

datatype status_code = FailedPrecondition | Unavailable | Internal | OtherCode nat

record status =
  status_code :: status_code
  status_message :: string
  status_metadata :: "(string \<times> string) list"

definition metadata_insert :: "string \<Rightarrow> string \<Rightarrow> status \<Rightarrow> status" where
  "metadata_insert k v s = s\<lparr>status_metadata := (k, v) # filter (\<lambda>p. fst p \<noteq> k) (status_metadata s)\<rparr>"

definition status_new :: "status_code \<Rightarrow> string \<Rightarrow> status" where
  "status_new code msg = \<lparr>status_code = code, status_message = msg, status_metadata = []\<rparr>"

section \<open>Messages\<close>

record get_response =
  gr_found :: bool
  gr_value :: bytes

record put_request =
  pr_key :: bytes
  pr_value :: bytes
  pr_client_id :: nat
  pr_seq :: nat

type_synonym append_request = put_request

record delete_request =
  dr_key :: bytes
  dr_client_id :: nat
  dr_seq :: nat

section \<open>Registration\<close>

text \<open>
  Both services hand out \<open>fastrand::u64(1..=u64::MAX)\<close>; the generator is a parameter, given
  the bounds of the range.
\<close>

definition register_client :: "(nat \<Rightarrow> nat \<Rightarrow> nat) \<Rightarrow> nat" where
  "register_client rng = rng 1 (2 ^ 64 - 1)"

end
