(* ===== verification/Kv_Service.thy ===== *)
theory Kv_Service
  imports Kv_Api
begin

unbundle bit_operations_syntax

text \<open>
  The replicated service of \<^verbatim>\<open>src/app.rs\<close> (\<open>Inner\<close>, \<open>KvService\<close>, \<open>run_apply_loop\<close>, \<open>start\<close>): a request
  becomes a command with a nonce of its own, is proposed to the local Raft node, and its
  caller waits on a one-shot channel until the apply loop has applied the entry.
\<close>

section \<open>State\<close>

text \<open>
  \<open>sv_chans\<close> counts the one-shot channels created so far; a channel is known by its number.
\<close>

record ('s, 'db) kv_service =
  sv_node :: "'s node"
  sv_node_id :: nat
  sv_state :: "'db app_state"
  sv_nonce :: "64 word"
  sv_chans :: nat

definition app_start ::
  "draw \<Rightarrow> ((nat \<times> string) list \<Rightarrow> transport_error + 'e peer_clients) \<Rightarrow> cluster_config \<Rightarrow>
   's dyn_storage \<Rightarrow> timing \<Rightarrow> nat \<Rightarrow> 'db \<Rightarrow> start_error + ('s, 'db) kv_service \<times> 'e peer_clients" where
  "app_start rng connect config storage tim now store =
     (let node_id = cc_id config in
      res_bind (start_node rng connect config storage tim now) (\<lambda>(node, clients).
        Inr (\<lparr>sv_node = node, sv_node_id = node_id, sv_state = app_new store, sv_nonce = 0, sv_chans = 0\<rparr>,
             clients)))"

definition service_is_leader :: "('s, 'db) kv_service \<Rightarrow> bool" where
  "service_is_leader sv = is_leader (nd_core (sv_node sv))"

definition service_leader_id :: "('s, 'db) kv_service \<Rightarrow> nat option" where
  "service_leader_id sv = cm_leader_id (nd_core (sv_node sv))"

section \<open>Nonces\<close>

definition nonce_of :: "nat \<Rightarrow> 64 word \<Rightarrow> 64 word" where
  "nonce_of node_id counter = push_bit 48 (word_of_nat node_id) OR (counter AND (push_bit 48 1 - 1))"

definition next_nonce :: "('s, 'db) kv_service \<Rightarrow> ('s, 'db) kv_service \<times> 64 word" where
  "next_nonce sv =
     (let counter = sv_nonce sv
      in (sv\<lparr>sv_nonce := counter + 1\<rparr>, nonce_of (sv_node_id sv) counter))"

section \<open>Requests\<close>

definition not_leader :: "('s, 'db) kv_service \<Rightarrow> status" where
  "not_leader sv =
     (let status = status_new FailedPrecondition ''not leader'' in
      case service_leader_id sv of
        None \<Rightarrow> status
      | Some leader \<Rightarrow> metadata_insert ''x-leader-id'' (show_nat leader) status)"

definition set_waiter :: "64 word \<Rightarrow> nat option \<Rightarrow> ('s, 'db) kv_service \<Rightarrow> ('s, 'db) kv_service" where
  "set_waiter nonce tx sv =
     sv\<lparr>sv_state := (sv_state sv)\<lparr>as_waiters := (as_waiters (sv_state sv))(nonce := tx)\<rparr>\<rparr>"

text \<open>
  \<open>execute\<close> up to the point where it starts to wait, and from the point where the wait is
  over: the channel has an outcome, or the time is up (or the sender was dropped).
\<close>

definition execute_begin ::
  "'e prost \<Rightarrow> command \<Rightarrow> ('s, 'db) kv_service \<Rightarrow> ('s, 'db) kv_service \<times> (status + 64 word \<times> nat)" where
  "execute_begin W command sv =
     (case next_nonce sv of
        (sv, nonce) \<Rightarrow>
          (let command = command\<lparr>cmd_nonce := nonce\<rparr>;
               rx = sv_chans sv;
               sv = set_waiter nonce (Some rx) (sv\<lparr>sv_chans := rx + 1\<rparr>)
           in case node_propose (command_encode W command) (sv_node sv) of
                (node, None) \<Rightarrow>
                  (let sv = set_waiter nonce None (sv\<lparr>sv_node := node\<rparr>) in (sv, Inl (not_leader sv)))
              | (node, Some _) \<Rightarrow> (sv\<lparr>sv_node := node\<rparr>, Inr (nonce, rx))))"

definition execute_end ::
  "64 word \<times> nat \<Rightarrow> ('s, 'db) kv_service \<Rightarrow> ('s, 'db) kv_service \<times> (status + outcome)" where
  "execute_end = (\<lambda>(nonce, rx) sv.
     (case as_chan (sv_state sv) rx of
        Some outcome \<Rightarrow> (sv, Inr outcome)
      | None \<Rightarrow> (set_waiter nonce None sv,
                 Inl (status_new Unavailable ''command not committed in time; retry''))))"

section \<open>Handlers\<close>

text \<open>
  Each handler builds its command, executes it, and turns what comes back into a response.
\<close>

definition service_register :: "(nat \<Rightarrow> nat \<Rightarrow> nat) \<Rightarrow> status + nat" where
  "service_register rng = Inr (register_client rng)"

definition get_command :: "bytes \<Rightarrow> command" where
  "get_command key = command_get key"

definition put_command :: "put_request \<Rightarrow> command" where
  "put_command req = command_put (pr_key req) (pr_value req) (pr_client_id req) (pr_seq req)"

definition append_command :: "append_request \<Rightarrow> command" where
  "append_command req = command_append (pr_key req) (pr_value req) (pr_client_id req) (pr_seq req)"

definition delete_command :: "delete_request \<Rightarrow> command" where
  "delete_command req = command_delete (dr_key req) (dr_client_id req) (dr_seq req)"

fun get_reply :: "outcome \<Rightarrow> status + get_response" where
  "get_reply (OutValue (Some value)) = Inr \<lparr>gr_found = True, gr_value = value\<rparr>"
| "get_reply (OutValue None) = Inr \<lparr>gr_found = False, gr_value = []\<rparr>"
| "get_reply (OutFailed msg) = Inl (status_new Internal msg)"
| "get_reply OutDone = Inr \<lparr>gr_found = False, gr_value = []\<rparr>"

fun put_reply :: "outcome \<Rightarrow> status + unit" where
  "put_reply OutDone = Inr ()"
| "put_reply (OutFailed msg) = Inl (status_new Internal msg)"
| "put_reply (OutValue _) = Inr ()"

fun append_reply :: "outcome \<Rightarrow> status + bytes" where
  "append_reply (OutValue (Some value)) = Inr value"
| "append_reply (OutValue None) = Inr []"
| "append_reply (OutFailed msg) = Inl (status_new Internal msg)"
| "append_reply OutDone = Inr []"

fun delete_reply :: "outcome \<Rightarrow> status + unit" where
  "delete_reply OutDone = Inr ()"
| "delete_reply (OutFailed msg) = Inl (status_new Internal msg)"
| "delete_reply (OutValue _) = Inr ()"

lemmas request_commands = get_command_def put_command_def append_command_def delete_command_def

section \<open>The apply loop\<close>

definition SNAPSHOT_THRESHOLD :: nat where
  "SNAPSHOT_THRESHOLD = 64"

text \<open>
  One item of the apply stream. \<open>None\<close> is the panic inside \<open>control.snapshot\<close>. The loop
  shares the core with the driver, so other accesses may come between two items.
\<close>

definition loop_command :: "'db sable \<Rightarrow> 'e prost \<Rightarrow> applied \<Rightarrow> 'db app_state \<Rightarrow> 'db app_state" where
  "loop_command E W entry st =
     (case command_decode W (ap_command entry) of Inr command \<Rightarrow> app_apply E command st | Inl _ \<Rightarrow> st)"

definition loop_item ::
  "'db sable \<Rightarrow> 'e prost \<Rightarrow> hash_order \<Rightarrow> apply_item \<Rightarrow> ('s, 'db) kv_service \<Rightarrow> ('s, 'db) kv_service option" where
  "loop_item E W H item sv =
     (case item of
        ApplyCommand entry \<Rightarrow>
          (let st = loop_command E W entry (sv_state sv); sv = sv\<lparr>sv_state := st\<rparr> in
           if raft_log_len (nd_core (sv_node sv)) \<ge> SNAPSHOT_THRESHOLD
           then map_option (\<lambda>node. sv\<lparr>sv_node := node\<rparr>)
                  (control_snapshot (ap_index entry) (build_snapshot E H st) (sv_node sv))
           else Some sv)
      | ApplySnapshot snapshot \<Rightarrow>
          Some (sv\<lparr>sv_state := install_snapshot E H (sn_data snapshot) (sv_state sv)\<rparr>))"

text \<open>What an item does to the state machine alone.\<close>

fun app_item :: "'db sable \<Rightarrow> 'e prost \<Rightarrow> hash_order \<Rightarrow> apply_item \<Rightarrow> 'db app_state \<Rightarrow> 'db app_state" where
  "app_item E W H (ApplyCommand entry) st = loop_command E W entry st"
| "app_item E W H (ApplySnapshot snapshot) st = install_snapshot E H (sn_data snapshot) st"

lemma loop_item_state: "loop_item E W H item sv = Some sv' \<Longrightarrow> sv_state sv' = app_item E W H item (sv_state sv)"
  by (cases item) (auto simp: loop_item_def Let_def split: if_splits)

lemma loop_item_frame [frame]:
  assumes "loop_item E W H item sv = Some sv'"
  shows "sv_node_id sv' = sv_node_id sv" "sv_nonce sv' = sv_nonce sv" "sv_chans sv' = sv_chans sv"
  using assms by (auto simp: loop_item_def Let_def split: if_splits apply_item.splits)

section \<open>Nonces tell proposals apart\<close>

lemma nonce_parts: "nonce_of n c = push_bit 48 (word_of_nat n) OR take_bit 48 c"
proof -
  have "push_bit 48 1 - 1 = (mask 48 :: 64 word)" by (simp add: mask_eq_exp_minus_1)
  then show ?thesis unfolding nonce_of_def by (simp only: take_bit_eq_mask)
qed

lemma nonce_low: "take_bit 48 (nonce_of n c) = take_bit 48 c"
  by (rule bit_word_eqI) (auto simp: nonce_parts bit_simps)

lemma nonce_high: "drop_bit 48 (nonce_of n c) = take_bit 16 (word_of_nat n)"
  by (rule bit_word_eqI) (auto simp: nonce_parts bit_simps)

lemma small_word_inj:
  assumes "m < 2 ^ k" "n < 2 ^ k" "k \<le> 64" "take_bit k (word_of_nat m :: 64 word) = take_bit k (word_of_nat n)"
  shows "m = n"
proof -
  have "unat (take_bit k (word_of_nat x :: 64 word)) = x" if "x < 2 ^ k" for x
    using that assms(3) by (simp add: unsigned_take_bit_eq unsigned_of_nat take_bit_nat_eq_self min_def)
  with assms show ?thesis by metis
qed

text \<open>Two proposals with the same nonce are one, as long as ids and counters are small.\<close>

lemma nonce_inj:
  assumes "m < 2 ^ 16" "n < 2 ^ 16" "i < 2 ^ 48" "j < 2 ^ 48"
    and "nonce_of m (word_of_nat i) = nonce_of n (word_of_nat j)"
  shows "m = n \<and> i = j"
  using small_word_inj [OF assms(1,2)] small_word_inj [OF assms(3,4)]
    nonce_low [of m "word_of_nat i"] nonce_low [of n "word_of_nat j"]
    nonce_high [of m "word_of_nat i"] nonce_high [of n "word_of_nat j"] assms(5)
  by simp

lemma nonce_own_inj:
  assumes "i < 2 ^ 48" "j < 2 ^ 48" "nonce_of n (word_of_nat i) = nonce_of n (word_of_nat j)"
  shows "i = j"
  using small_word_inj [OF assms(1,2)] nonce_low [of n "word_of_nat i"] nonce_low [of n "word_of_nat j"] assms(3)
  by simp



text \<open>
  Beyond those bounds they are not: two nodes whose ids agree in the low 16 bits use the
  same nonces, and a node repeats its own after \<open>2 ^ 48\<close> proposals.
\<close>

lemma nonces_can_collide:
  "nonce_of 1 c = nonce_of 65537 c \<and> nonce_of n c = nonce_of n (c + word_of_nat (2 ^ 48))"
proof
  have "push_bit 48 (word_of_nat 65537 :: 64 word) = push_bit 48 (word_of_nat 1)" by simp
  then show "nonce_of 1 c = nonce_of 65537 c" unfolding nonce_parts by (simp only:)
  have "take_bit 48 (c + word_of_nat (2 ^ 48)) = take_bit 48 c"
    by transfer (simp add: take_bit_eq_mod mod_mod_cancel)
  then show "nonce_of n c = nonce_of n (c + word_of_nat (2 ^ 48))" by (simp only: nonce_parts)
qed

section \<open>Requests and the apply loop together\<close>

text \<open>
  A service in operation: handlers that start and end, the apply loop, and everything else
  that happens to the node. Beside the service there are the calls that wait (what
  \<open>execute_begin\<close> returned) and, as history, the nonce and the outcome of every command the
  loop has applied.
\<close>

type_synonym pending = "(64 word \<times> nat) set"
type_synonym history = "(64 word \<times> outcome) list"

fun applied_outcome :: "'db sable \<Rightarrow> 'e prost \<Rightarrow> apply_item \<Rightarrow> 'db app_state \<Rightarrow> history" where
  "applied_outcome E W (ApplyCommand entry) st =
     (case command_decode W (ap_command entry) of
        Inr c \<Rightarrow> [(cmd_nonce c, snd (apply_committed E c st))] | Inl _ \<Rightarrow> [])"
| "applied_outcome E W (ApplySnapshot s) st = []"

inductive service_step ::
  "'db sable \<Rightarrow> 'e prost \<Rightarrow> ('s, 'db) kv_service \<times> pending \<times> history \<Rightarrow>
   ('s, 'db) kv_service \<times> pending \<times> history \<Rightarrow> bool"
  for E W where
  accepted: "execute_begin W command sv = (sv', Inr t) \<Longrightarrow> service_step E W (sv, P, A) (sv', insert t P, A)"
| refused: "execute_begin W command sv = (sv', Inl st) \<Longrightarrow> service_step E W (sv, P, A) (sv', P, A)"
| applies: "loop_item E W H item sv = Some sv' \<Longrightarrow>
    service_step E W (sv, P, A) (sv', P, A @ applied_outcome E W item (sv_state sv))"
| finishes: "t \<in> P \<Longrightarrow> execute_end t sv = (sv', r) \<Longrightarrow> service_step E W (sv, P, A) (sv', P - {t}, A)"
| elsewhere: "service_step E W (sv, P, A) (sv\<lparr>sv_node := nd\<rparr>, P, A)"

definition service_start :: "('s, 'db) kv_service \<Rightarrow> bool" where
  "service_start sv \<longleftrightarrow>
     sv_nonce sv = 0 \<and> sv_chans sv = 0 \<and> as_waiters (sv_state sv) = Map.empty \<and> as_chan (sv_state sv) = Map.empty"

inductive service_reach ::
  "'db sable \<Rightarrow> 'e prost \<Rightarrow> ('s, 'db) kv_service \<times> pending \<times> history \<Rightarrow> bool" for E W where
  start: "service_start sv \<Longrightarrow> service_reach E W (sv, {}, [])"
| step: "service_reach E W x \<Longrightarrow> service_step E W x y \<Longrightarrow> service_reach E W y"

lemma app_start_starts:
  assumes "app_start rng connect config storage tim now store = Inr (sv, clients)"
  shows "service_start sv"
  using assms by (auto simp: app_start_def Let_def res_bind_Inr_iff service_start_def app_new_def)

text \<open>
  Every waiter and every waiting call knows the nonce of its channel's number, and what is
  in a channel is the outcome of an applied command with that nonce.
\<close>

definition ticket :: "('s, 'db) kv_service \<Rightarrow> 64 word \<Rightarrow> nat \<Rightarrow> bool" where
  "ticket sv nonce rx \<longleftrightarrow> nonce = nonce_of (sv_node_id sv) (word_of_nat rx) \<and> rx < sv_chans sv"

definition service_inv :: "('s, 'db) kv_service \<Rightarrow> pending \<Rightarrow> history \<Rightarrow> bool" where
  "service_inv sv P A \<longleftrightarrow>
     sv_nonce sv = word_of_nat (sv_chans sv) \<and>
     (\<forall>n rx. as_waiters (sv_state sv) n = Some rx \<longrightarrow> ticket sv n rx) \<and>
     (\<forall>n rx. (n, rx) \<in> P \<longrightarrow> ticket sv n rx) \<and>
     (\<forall>rx out. as_chan (sv_state sv) rx = Some out \<longrightarrow>
        rx < sv_chans sv \<and> (nonce_of (sv_node_id sv) (word_of_nat rx), out) \<in> set A)"

text \<open>No waiting call is forgotten: its waiter is registered or its outcome is there.\<close>

definition none_lost :: "('s, 'db) kv_service \<Rightarrow> pending \<Rightarrow> bool" where
  "none_lost sv P \<longleftrightarrow> (\<forall>n rx. (n, rx) \<in> P \<longrightarrow>
     as_waiters (sv_state sv) n = Some rx \<or> as_chan (sv_state sv) rx \<noteq> None)"

lemma service_invD:
  assumes "service_inv sv P A"
  shows "sv_nonce sv = word_of_nat (sv_chans sv)"
    and "as_waiters (sv_state sv) n = Some rx \<Longrightarrow> ticket sv n rx"
    and "(n, rx) \<in> P \<Longrightarrow> ticket sv n rx"
    and "as_chan (sv_state sv) rx = Some out \<Longrightarrow> rx < sv_chans sv"
    and "as_chan (sv_state sv) rx = Some out \<Longrightarrow> (nonce_of (sv_node_id sv) (word_of_nat rx), out) \<in> set A"
  using assms unfolding service_inv_def by blast+

text \<open>What the first half of a request changes.\<close>

lemma execute_begin_effect:
  assumes "execute_begin W command sv = (sv', r)"
  shows "sv_nonce sv' = sv_nonce sv + 1" "sv_chans sv' = sv_chans sv + 1" "sv_node_id sv' = sv_node_id sv"
    and "as_chan (sv_state sv') = as_chan (sv_state sv)"
    and "r = Inr t \<Longrightarrow> t = (nonce_of (sv_node_id sv) (sv_nonce sv), sv_chans sv)"
    and "as_waiters (sv_state sv') = (as_waiters (sv_state sv))
      (nonce_of (sv_node_id sv) (sv_nonce sv) := (case r of Inl _ \<Rightarrow> None | Inr _ \<Rightarrow> Some (sv_chans sv)))"
  using assms
  by (auto simp: execute_begin_def next_nonce_def set_waiter_def Let_def split: prod.splits option.splits)

lemma install_snapshot_frame [frame]:
  "as_waiters (install_snapshot E H data st) = as_waiters st"
  "as_chan (install_snapshot E H data st) = as_chan st"
  by (auto simp: install_snapshot_def split: sum.splits prod.splits)

lemma loop_item_wakes:
  assumes "loop_item E W H item sv = Some sv'"
  obtains (quiet) "applied_outcome E W item (sv_state sv) = []"
      "as_waiters (sv_state sv') = as_waiters (sv_state sv)" "as_chan (sv_state sv') = as_chan (sv_state sv)"
    | (wakes) n out where "applied_outcome E W item (sv_state sv) = [(n, out)]"
      "as_waiters (sv_state sv') = (as_waiters (sv_state sv))(n := None)"
      "as_chan (sv_state sv') = (case as_waiters (sv_state sv) n of None \<Rightarrow> as_chan (sv_state sv)
         | Some tx \<Rightarrow> (as_chan (sv_state sv))(tx \<mapsto> out))"
proof (cases item)
  case (ApplyCommand entry)
  then show thesis
    using that loop_item_state [OF assms]
    by (cases "command_decode W (ap_command entry)") (simp_all add: loop_command_def app_apply_wakes)
next
  case (ApplySnapshot s)
  then show thesis using quiet loop_item_state [OF assms] by (simp add: frame)
qed

lemma ticket_mono: "ticket sv n rx \<Longrightarrow> sv_node_id sv' = sv_node_id sv \<Longrightarrow> sv_chans sv \<le> sv_chans sv' \<Longrightarrow> ticket sv' n rx"
  by (simp add: ticket_def)

lemma begin_inv:
  assumes inv: "service_inv sv P A" and run: "execute_begin W command sv = (sv', r)"
  shows "service_inv sv' (case r of Inl _ \<Rightarrow> P | Inr t \<Rightarrow> insert t P) A"
proof -
  note e = execute_begin_effect [OF run] and d = service_invD [OF inv]
  have new: "ticket sv' (nonce_of (sv_node_id sv) (sv_nonce sv)) (sv_chans sv)"
    using e(2,3) d(1) by (simp add: ticket_def)
  have old: "ticket sv' n rx" if "ticket sv n rx" for n rx
    using ticket_mono [OF that e(3)] e(2) by simp
  show ?thesis unfolding service_inv_def
  proof (intro conjI allI impI)
    show "sv_nonce sv' = word_of_nat (sv_chans sv')" using e(1,2) d(1) by simp
    show "ticket sv' n rx" if "as_waiters (sv_state sv') n = Some rx" for n rx
      using that e(6) new old d(2) by (cases r) (auto split: if_splits)
    show "ticket sv' n rx" if "(n, rx) \<in> (case r of Inl _ \<Rightarrow> P | Inr t \<Rightarrow> insert t P)" for n rx
      using that e(5) new old d(3) by (cases r) auto
    show "rx < sv_chans sv'" if "as_chan (sv_state sv') rx = Some out" for rx out
      using that e(2,4) d(4) by fastforce
    show "(nonce_of (sv_node_id sv') (word_of_nat rx), out) \<in> set A"
      if "as_chan (sv_state sv') rx = Some out" for rx out
      using that e(3,4) d(5) by simp
  qed
qed

lemma item_inv:
  assumes inv: "service_inv sv P A" and run: "loop_item E W H item sv = Some sv'"
  shows "service_inv sv' P (A @ applied_outcome E W item (sv_state sv))"
proof -
  note d = service_invD [OF inv] and f = loop_item_frame [OF run]
  have same: "ticket sv' = ticket sv" using f by (simp add: ticket_def fun_eq_iff)
  from run show ?thesis
  proof (cases rule: loop_item_wakes)
    case quiet
    with inv f same show ?thesis by (simp add: service_inv_def)
  next
    case (wakes n out)
    have "rx < sv_chans sv \<and> (nonce_of (sv_node_id sv) (word_of_nat rx), o') \<in> set (A @ [(n, out)])"
      if "as_chan (sv_state sv') rx = Some o'" for rx o'
      using that wakes(3) d(2) [of n] d(4,5)
      by (cases "as_waiters (sv_state sv) n") (auto simp: ticket_def split: if_splits)
    with wakes d f same show ?thesis by (auto simp: service_inv_def split: if_splits)
  qed
qed

lemma end_inv:
  assumes "service_inv sv P A" "execute_end t sv = (sv', r)"
  shows "service_inv sv' (P - {t}) A" "sv_chans sv' = sv_chans sv"
  using assms
  by (auto simp: service_inv_def execute_end_def set_waiter_def ticket_def split: prod.splits option.splits if_splits)

lemma service_reach_inv: "service_reach E W (sv, P, A) \<Longrightarrow> service_inv sv P A"
proof (induction "(sv, P, A)" arbitrary: sv P A rule: service_reach.induct)
  case (start sv)
  then show ?case by (simp add: service_start_def service_inv_def)
next
  case (step x sv P A)
  obtain sv0 P0 A0 where x: "x = (sv0, P0, A0)" by (cases x)
  note inv = step(2) [OF x]
  from step(3) [unfolded x] show ?case
  proof cases
    case (accepted command t)
    with begin_inv [OF inv accepted(3)] show ?thesis by simp
  next
    case (refused command st)
    with begin_inv [OF inv refused(3)] show ?thesis by simp
  next
    case (applies H item)
    with item_inv [OF inv applies(3)] show ?thesis by simp
  next
    case (finishes t r)
    with end_inv [OF inv finishes(4)] show ?thesis by simp
  next
    case (elsewhere nd)
    with inv show ?thesis by (simp add: service_inv_def ticket_def)
  qed
qed

text \<open>With fewer than \<open>2 ^ 48\<close> requests no two waiting calls share a nonce.\<close>

lemma tickets_differ:
  assumes "ticket sv n rx" "ticket sv n rx'" "sv_chans sv \<le> 2 ^ 48"
  shows "rx = rx'"
  using assms nonce_own_inj [of rx rx' "sv_node_id sv"] by (auto simp: ticket_def)

lemma begin_none_lost:
  assumes inv: "service_inv sv P A" and none: "none_lost sv P"
    and run: "execute_begin W command sv = (sv', r)" and few: "sv_chans sv' \<le> 2 ^ 48"
  shows "none_lost sv' (case r of Inl _ \<Rightarrow> P | Inr t \<Rightarrow> insert t P)"
proof -
  note e = execute_begin_effect [OF run] and d = service_invD [OF inv]
  let ?n = "nonce_of (sv_node_id sv) (sv_nonce sv)"
  have new: "ticket sv' ?n (sv_chans sv)" using e(2,3) d(1) by (simp add: ticket_def)
  have "n \<noteq> ?n" if "(n, rx) \<in> P" for n rx
    using tickets_differ [OF ticket_mono [OF d(3) [OF that] e(3)] _ few] new d(3) [OF that] e(2)
    by (auto simp: ticket_def)
  then have old: "as_waiters (sv_state sv') n = Some rx \<or> as_chan (sv_state sv') rx \<noteq> None"
    if "(n, rx) \<in> P" for n rx
    using none that e(4,6) unfolding none_lost_def by auto
  show ?thesis
  proof (cases r)
    case (Inl st)
    with old show ?thesis by (simp add: none_lost_def)
  next
    case (Inr t)
    with e(5) [OF Inr] e(6) old show ?thesis by (auto simp: none_lost_def)
  qed
qed

lemma item_none_lost:
  assumes none: "none_lost sv P" and run: "loop_item E W H item sv = Some sv'"
  shows "none_lost sv' P"
  using run
proof (cases rule: loop_item_wakes)
  case quiet
  with none show ?thesis by (simp add: none_lost_def)
next
  case (wakes n out)
  have "as_waiters (sv_state sv') k = Some rx \<or> as_chan (sv_state sv') rx \<noteq> None" if "(k, rx) \<in> P" for k rx
    using none [unfolded none_lost_def, rule_format, OF that] wakes(2,3)
    by (cases "as_waiters (sv_state sv) n"; cases "k = n") auto
  then show ?thesis by (simp add: none_lost_def)
qed

lemma end_none_lost:
  assumes inv: "service_inv sv P A" and none: "none_lost sv P" and t: "t \<in> P"
    and run: "execute_end t sv = (sv', r)" and few: "sv_chans sv \<le> 2 ^ 48"
  shows "none_lost sv' (P - {t})"
proof -
  obtain n rx where n: "t = (n, rx)" by (cases t)
  have "as_waiters (sv_state sv') k = Some rx' \<or> as_chan (sv_state sv') rx' \<noteq> None"
    if k: "(k, rx') \<in> P" "(k, rx') \<noteq> t" for k rx'
  proof -
    have "k \<noteq> n" using tickets_differ [OF _ _ few] service_invD(3) [OF inv] k t n by blast
    with none [unfolded none_lost_def, rule_format, OF k(1)] run n show ?thesis
      by (auto simp: execute_end_def set_waiter_def split: option.splits)
  qed
  then show ?thesis by (auto simp: none_lost_def)
qed

lemma service_step_chans: "service_step E W (sv, P, A) (sv', P', A') \<Longrightarrow> sv_chans sv \<le> sv_chans sv'"
  by (cases rule: service_step.cases)
    (auto dest: execute_begin_effect(2) loop_item_frame(3) simp: execute_end_def set_waiter_def
      split: prod.splits option.splits)

lemma service_reach_none_lost:
  "service_reach E W (sv, P, A) \<Longrightarrow> sv_chans sv \<le> 2 ^ 48 \<Longrightarrow> none_lost sv P"
proof (induction "(sv, P, A)" arbitrary: sv P A rule: service_reach.induct)
  case (start sv)
  then show ?case by (simp add: none_lost_def)
next
  case (step x sv P A)
  obtain sv0 P0 A0 where x: "x = (sv0, P0, A0)" by (cases x)
  note inv = service_reach_inv [OF step(1) [unfolded x]]
  have few: "sv_chans sv0 \<le> 2 ^ 48" using service_step_chans step(3,4) x by fastforce
  note none = step(2) [OF x few]
  from step(3) [unfolded x] show ?case
  proof cases
    case (accepted command t)
    with begin_none_lost [OF inv none accepted(3) step(4)] show ?thesis by simp
  next
    case (refused command st)
    with begin_none_lost [OF inv none refused(3) step(4)] show ?thesis by simp
  next
    case (applies H item)
    with item_none_lost [OF none applies(3)] show ?thesis by simp
  next
    case (finishes t r)
    with end_none_lost [OF inv none finishes(3,4) few] show ?thesis by simp
  next
    case (elsewhere nd)
    with none show ?thesis by (simp add: none_lost_def)
  qed
qed

section \<open>Properties\<close>

lemma submit_extends_log:
  assumes "submit_command bs cm = (cm', Some idx)"
  shows "cm_role cm = Leader" "cm_log cm' = fst (log_append (cm_log cm) (log_entry_new (cm_current_term cm) bs))"
    "idx = last_index (cm_log cm')"
  using assms
  by (auto simp: submit_command_def log_append_def Let_def maybe_advance_commit_def frame split: if_splits)

lemma leader_accepts:
  assumes "service_is_leader sv"
  obtains sv' where "execute_begin W command sv = (sv', Inr (nonce_of (sv_node_id sv) (sv_nonce sv), sv_chans sv))"
proof -
  obtain cm' idx where "submit_command bs (nd_core (sv_node sv)) = (cm' bs, Some (idx bs))" for bs
    using assms by (auto simp: submit_command_def service_is_leader_def is_leader_def log_append_def Let_def)
  then show thesis
    using that by (simp add: execute_begin_def next_nonce_def set_waiter_def node_propose_def Let_def)
qed

text \<open>A service of one node that leads its cluster of one, and a first request to it.\<close>

definition lone :: "(persistent_state, kv) kv_service" where
  "lone =
     (case app_start (\<lambda>lo hi. lo) (\<lambda>_. Inr Map.empty :: transport_error + string peer_clients)
             \<lparr>cc_id = 1, cc_peers = []\<rparr> in_memory_new quick 0 Map.empty of
        Inr (sv, _) \<Rightarrow>
          (let core = fst (start_pre_election (\<lambda>lo hi. lo) 1 (nd_core (sv_node sv)))
           in sv\<lparr>sv_node := fst (decide_step (\<lambda>lo hi. lo) 1 ((sv_node sv)\<lparr>nd_core := core\<rparr>))\<rparr>))"

definition first_put :: command where
  "first_put = command_put [1] [2] 7 1"

lemma lone_leads: "service_is_leader lone"
  by code_simp

lemma lone_start: "service_start lone" "sv_node_id lone = 1" "sv_state lone = app_new Map.empty"
  by (auto simp: lone_def app_start_def start_node_def cm_new_def storage_load_def in_memory_new_def
      in_memory_load_def Let_def service_start_def app_new_def)

lemma lone_request:
  obtains sv where "execute_begin plain first_put lone = (sv, Inr (nonce_of 1 0, 0))"
    "service_reach mem_engine plain (sv, {(nonce_of 1 0, 0)}, [])" "sv_chans sv = 1"
proof -
  obtain sv where sv: "execute_begin plain first_put lone = (sv, Inr (nonce_of 1 0, 0))"
    using leader_accepts [OF lone_leads, of plain first_put] lone_start by (auto simp: service_start_def)
  from service_reach.step [OF service_reach.start [OF lone_start(1)] service_step.accepted [OF sv]]
    execute_begin_effect(2) [OF sv] lone_start(1) sv that show thesis by (auto simp: service_start_def)
qed

text \<open>The entry of that request when it comes back committed.\<close>

definition first_entry :: applied where
  "first_entry = \<lparr>ap_index = 1, ap_term = 1, ap_command = command_encode plain (first_put\<lparr>cmd_nonce := nonce_of 1 0\<rparr>)\<rparr>"

lemma first_entry_decodes: "command_decode plain (ap_command first_entry) = Inr (first_put\<lparr>cmd_nonce := nonce_of 1 0\<rparr>)"
  unfolding first_entry_def applied.select_convs
  by (rule plain.command_round_trip) (simp add: cmd_fits_def first_put_def command_put_def)

text \<open>
  C24. An accepted request is in the log: when a handler starts to wait, the node is leader,
  its log has grown by one entry, that entry decodes to the request's command with the
  nonce the handler waits under, and the waiter is already registered.
\<close>

theorem accepted_request_is_logged:
  assumes "prost_message W" "cmd_fits command" "execute_begin W command sv = (sv', Inr (nonce, rx))"
  shows "service_is_leader sv \<and> as_waiters (sv_state sv') nonce = Some rx \<and>
    (\<exists>e. cm_log (nd_core (sv_node sv')) = fst (log_append (cm_log (nd_core (sv_node sv))) e) \<and>
       command_decode W (le_command e) = Inr (command\<lparr>cmd_nonce := nonce\<rparr>))"
proof -
  note e = execute_begin_effect(5,6) [OF assms(3)]
  let ?bs = "command_encode W (command\<lparr>cmd_nonce := nonce\<rparr>)"
  obtain cm' idx where r: "submit_command ?bs (nd_core (sv_node sv)) = (cm', Some idx)"
    and "nd_core (sv_node sv') = cm'"
    using assms(3) e(1)
    by (auto simp: execute_begin_def next_nonce_def set_waiter_def node_propose_def Let_def
        split: prod.splits option.splits)
  moreover have "command_decode W ?bs = Inr (command\<lparr>cmd_nonce := nonce\<rparr>)"
    by (rule prost_message.command_round_trip [OF assms(1)]) (use assms(2) in \<open>simp add: cmd_fits_def\<close>)
  ultimately show ?thesis
    using submit_extends_log [OF r] e
    by (auto simp: service_is_leader_def is_leader_def log_entry_new_def intro!: exI [of _ "log_entry_new _ ?bs"])
qed

theorem accepted_request_is_logged_witness:
  "\<exists>sv nonce rx e. execute_begin plain first_put lone = (sv, Inr (nonce, rx)) \<and>
     cm_log (nd_core (sv_node sv)) = fst (log_append (cm_log (nd_core (sv_node lone))) e)"
proof -
  have "cmd_fits first_put" by (simp add: cmd_fits_def first_put_def command_put_def)
  moreover obtain sv where sv: "execute_begin plain first_put lone = (sv, Inr (nonce_of 1 0, 0))"
    by (rule lone_request)
  ultimately show ?thesis
    using accepted_request_is_logged [OF plain.prost_message_axioms _ sv] by blast
qed

text \<open>
  In every run of a service, what a waiting call returns is the outcome of an applied
  command that carries the nonce the call was given.
\<close>

lemma answer_is_own_outcome:
  assumes "service_reach E W (sv, P, A)" "(nonce, rx) \<in> P" "execute_end (nonce, rx) sv = (sv', Inr out)"
  shows "(nonce, out) \<in> set A"
proof -
  note d = service_invD [OF service_reach_inv [OF assms(1)]]
  have "as_chan (sv_state sv) rx = Some out"
    using assms(3) by (simp add: execute_end_def split: option.splits)
  with d(5) d(3) [OF assms(2)] show ?thesis by (simp add: ticket_def)
qed


text \<open>The request of the lone service, committed and applied.\<close>

lemma lone_applied:
  obtains sv sv' :: "(persistent_state, kv) kv_service"
  where "service_reach mem_engine plain (sv, {(nonce_of 1 0, 0)}, [])" "sv_chans sv = 1"
    "loop_item mem_engine plain sorted_order (ApplyCommand first_entry) sv = Some sv'"
    "service_reach mem_engine plain (sv', {(nonce_of 1 0, 0)}, [(nonce_of 1 0, OutDone)])"
    "execute_end (nonce_of 1 0, 0) sv' = (sv', Inr OutDone)"
proof -
  obtain sv where sv: "execute_begin plain first_put lone = (sv, Inr (nonce_of 1 0, 0))"
    "service_reach mem_engine plain (sv, {(nonce_of 1 0, 0)}, [])" "sv_chans sv = 1"
    by (rule lone_request)
  have "raft_log_len (nd_core (sv_node lone)) = 0" by code_simp
  with submit_extends_log(2) sv(1) have "raft_log_len (nd_core (sv_node sv)) = 1"
    by (fastforce simp: execute_begin_def next_nonce_def set_waiter_def node_propose_def Let_def
        raft_log_len_def log_len_def log_append_def split: prod.splits option.splits)
  then obtain sv' where item: "loop_item mem_engine plain sorted_order (ApplyCommand first_entry) sv = Some sv'"
    by (simp add: loop_item_def SNAPSHOT_THRESHOLD_def Let_def)
  have "as_dedup (sv_state sv) = Map.empty"
    using sv(1) lone_start(3)
    by (auto simp: execute_begin_def next_nonce_def set_waiter_def Let_def app_new_def split: prod.splits option.splits)
  then have out: "applied_outcome mem_engine plain (ApplyCommand first_entry) (sv_state sv) = [(nonce_of 1 0, OutDone)]"
    by (simp add: first_entry_decodes apply_committed_def app_run_def is_mutation_def first_put_def command_put_def
        op_try_from_def store_put_def mem_engine_def Let_def)
  have "as_chan (sv_state sv') 0 = Some OutDone"
    using item
  proof (cases rule: loop_item_wakes)
    case (wakes n o')
    moreover have "as_waiters (sv_state sv) (nonce_of 1 0) = Some 0"
      using execute_begin_effect(6) [OF sv(1)] lone_start(1,2) by (simp add: service_start_def)
    ultimately show ?thesis using out by simp
  qed (use out in simp)
  then have "execute_end (nonce_of 1 0, 0) sv' = (sv', Inr OutDone)" by (simp add: execute_end_def)
  moreover have "service_reach mem_engine plain (sv', {(nonce_of 1 0, 0)}, [(nonce_of 1 0, OutDone)])"
    using service_reach.step [OF sv(2) service_step.applies [OF item]] out by simp
  ultimately show thesis using that [OF sv(2,3) item] by blast
qed


text \<open>
  C34. A node that does not lead redirects: the request is refused with a failed precondition
  that names the leader the node knows of, nothing is proposed, and no waiter is left behind.
\<close>

theorem follower_redirects:
  assumes "\<not> service_is_leader sv" "service_reach E W (sv, P, A)" "sv_chans sv < 2 ^ 48"
  shows "\<exists>sv' st. execute_begin W command sv = (sv', Inl st) \<and> status_code st = FailedPrecondition \<and>
    map_of (status_metadata st) ''x-leader-id'' = map_option show_nat (service_leader_id sv) \<and>
    sv_node sv' = sv_node sv \<and> as_waiters (sv_state sv') (nonce_of (sv_node_id sv) (sv_nonce sv)) = None \<and>
    (\<forall>t \<in> P. as_waiters (sv_state sv') (fst t) = as_waiters (sv_state sv) (fst t))"
proof -
  have "node_propose bs (sv_node sv) = (sv_node sv, None)" for bs
    using assms(1) by (simp add: node_propose_def submit_command_def service_is_leader_def is_leader_def)
  then obtain sv' st where run: "execute_begin W command sv = (sv', Inl st)" "sv_node sv' = sv_node sv"
    "st = not_leader sv'" "service_leader_id sv' = service_leader_id sv"
    by (simp add: execute_begin_def next_nonce_def set_waiter_def service_leader_id_def Let_def)
  note e = execute_begin_effect [OF run(1)] and d = service_invD [OF service_reach_inv [OF assms(2)]]
  have "fst t \<noteq> nonce_of (sv_node_id sv) (sv_nonce sv)" if "t \<in> P" for t
    using d(3) [of "fst t" "snd t"] that d(1) nonce_own_inj [of "snd t" "sv_chans sv" "sv_node_id sv"] assms(3)
    by (auto simp: ticket_def)
  with run e(6) show ?thesis
    by (auto simp: not_leader_def metadata_insert_def status_new_def Let_def split: option.splits)
qed

theorem follower_redirects_witness:
  "\<exists>(sv :: (persistent_state, kv) kv_service) sv' st. execute_begin plain first_put sv = (sv', Inl st) \<and> status_code st = FailedPrecondition \<and>
     map_of (status_metadata st) ''x-leader-id'' = Some ''2''"
proof -
  let ?core = "(nd_core (sv_node lone))\<lparr>cm_role := Follower, cm_leader_id := Some 2\<rparr>"
  let ?sv = "lone\<lparr>sv_node := (sv_node lone)\<lparr>nd_core := ?core\<rparr>\<rparr>"
  have "service_reach mem_engine plain (?sv, {}, [])"
    by (rule service_reach.step [OF service_reach.start [OF lone_start(1)] service_step.elsewhere])
  moreover have "\<not> service_is_leader ?sv" "service_leader_id ?sv = Some 2" "sv_chans ?sv < 2 ^ 48"
    using lone_start(1) by (simp_all add: service_is_leader_def is_leader_def service_leader_id_def service_start_def)
  moreover have "show_nat 2 = ''2''" by code_simp
  ultimately show ?thesis
    using follower_redirects [of ?sv mem_engine plain "{}" "[]" first_put] by auto
qed

end
