(* ===== verification/Kv_Server.thy ===== *)
theory Kv_Server
  imports Kv_Service
begin

text \<open>
  The unreplicated service of \<^verbatim>\<open>src/server.rs\<close>: the same API straight on the local store,
  without identities or deduplication. It is proved to answer like the replicated state
  machine does for unidentified requests.
\<close>

section \<open>Handlers\<close>

fun internal_error :: "store_error + 'a \<Rightarrow> status + 'a" where
  "internal_error (Inl e) = Inl (status_new Internal (store_error_text e))"
| "internal_error (Inr x) = Inr x"

definition server_register :: "(nat \<Rightarrow> nat \<Rightarrow> nat) \<Rightarrow> status + nat" where
  "server_register rng = Inr (register_client rng)"

definition server_get :: "'db sable \<Rightarrow> bytes \<Rightarrow> 'db \<Rightarrow> 'db \<times> (status + get_response)" where
  "server_get E key db =
     (db, res_bind (internal_error (store_get E db key)) (\<lambda>found.
        Inr (case found of Some value \<Rightarrow> \<lparr>gr_found = True, gr_value = value\<rparr>
             | None \<Rightarrow> \<lparr>gr_found = False, gr_value = []\<rparr>)))"

definition server_put :: "'db sable \<Rightarrow> put_request \<Rightarrow> 'db \<Rightarrow> 'db \<times> (status + unit)" where
  "server_put E req db =
     (case store_put E db (pr_key req) (pr_value req) of
        (r, db) \<Rightarrow> (db, res_bind (internal_error r) (\<lambda>_. Inr ())))"

definition server_append :: "'db sable \<Rightarrow> append_request \<Rightarrow> 'db \<Rightarrow> 'db \<times> (status + bytes)" where
  "server_append E req db =
     (case internal_error (store_get E db (pr_key req)) of
        Inl s \<Rightarrow> (db, Inl s)
      | Inr found \<Rightarrow>
          (let current = (case found of None \<Rightarrow> [] | Some v \<Rightarrow> v) @ pr_value req in
           case store_put E db (pr_key req) current of
             (r, db) \<Rightarrow> (db, res_bind (internal_error r) (\<lambda>_. Inr current))))"

definition server_delete :: "'db sable \<Rightarrow> delete_request \<Rightarrow> 'db \<Rightarrow> 'db \<times> (status + unit)" where
  "server_delete E req db =
     (case store_delete E db (dr_key req) of
        (r, db) \<Rightarrow> (db, res_bind (internal_error r) (\<lambda>_. Inr ())))"

lemmas server_defs = server_get_def server_put_def server_append_def server_delete_def

section \<open>Agreement with the replicated service\<close>

text \<open>A request as either service sees it.\<close>

datatype request =
    GetRequest bytes
  | PutRequest put_request
  | AppendRequest append_request
  | DeleteRequest delete_request

datatype response = GetResponse get_response | AppendResponse bytes | EmptyResponse

fun request_command :: "request \<Rightarrow> command" where
  "request_command (GetRequest key) = get_command key"
| "request_command (PutRequest r) = put_command r"
| "request_command (AppendRequest r) = append_command r"
| "request_command (DeleteRequest r) = delete_command r"

fun outcome_response :: "request \<Rightarrow> outcome \<Rightarrow> status + response" where
  "outcome_response (GetRequest key) out = map_sum id GetResponse (get_reply out)"
| "outcome_response (PutRequest r) out = map_sum id (\<lambda>_. EmptyResponse) (put_reply out)"
| "outcome_response (AppendRequest r) out = map_sum id AppendResponse (append_reply out)"
| "outcome_response (DeleteRequest r) out = map_sum id (\<lambda>_. EmptyResponse) (delete_reply out)"

fun serve_direct :: "'db sable \<Rightarrow> request \<Rightarrow> 'db \<Rightarrow> 'db \<times> (status + response)" where
  "serve_direct E (GetRequest key) db = map_prod id (map_sum id GetResponse) (server_get E key db)"
| "serve_direct E (PutRequest r) db = map_prod id (map_sum id (\<lambda>_. EmptyResponse)) (server_put E r db)"
| "serve_direct E (AppendRequest r) db = map_prod id (map_sum id AppendResponse) (server_append E r db)"
| "serve_direct E (DeleteRequest r) db = map_prod id (map_sum id (\<lambda>_. EmptyResponse)) (server_delete E r db)"

lemma serve_direct_run:
  assumes "app_run E (op_try_from (cmd_op (request_command r))) (request_command r) st = (st', out)"
  shows "serve_direct E r (as_store st) = (as_store st', outcome_response r out)"
  using assms
  by (cases r)
    (auto simp: app_run_def server_defs request_commands command_defs op_try_from_def Let_def
      split: sum.splits prod.splits option.splits)

text \<open>
  C32. One contract, two services: on any engine, failing ones included, the unreplicated
  service changes the store and answers exactly as the replicated one does when it applies
  the request's command, unless that command is recognised as a retry.
\<close>

theorem direct_service_agrees:
  assumes "\<not> replayed (as_dedup st) (request_command r)"
  shows "serve_direct E r (as_store st) =
    (as_store (fst (apply_committed E (request_command r) st)),
     outcome_response r (snd (apply_committed E (request_command r) st)))"
proof -
  obtain st' out where run: "app_run E (op_try_from (cmd_op (request_command r))) (request_command r) st = (st', out)"
    by fastforce
  show ?thesis using serve_direct_run [OF run] apply_fresh [OF assms run] by simp
qed

theorem direct_service_agrees_witness:
  "snd (serve_direct (flaky_engine [1]) (PutRequest \<lparr>pr_key = [1], pr_value = [2], pr_client_id = 7, pr_seq = 1\<rparr>)
     (Map.empty, False)) = Inl (status_new Internal ''sable engine error: io'')"
proof -
  let ?r = "PutRequest \<lparr>pr_key = [1], pr_value = [2], pr_client_id = 7, pr_seq = 1\<rparr>"
  let ?st = "app_new (Map.empty, False)"
  have "\<not> replayed (as_dedup ?st) (request_command ?r)" by (simp add: replayed_def app_new_def)
  from direct_service_agrees [OF this, of "flaky_engine [1]"] show ?thesis
    by (simp add: app_new_def request_commands command_defs apply_committed_def app_run_def is_mutation_def
        op_try_from_def store_put_def flaky_engine_def Let_def)
qed

end
