(* ===== verification/Kv_System.thy ===== *)
theory Kv_System
  imports Kv_Service Raft_Scenario
begin

text \<open>
  The whole system: a cluster of Raft nodes, on each node a key-value service whose apply
  loop consumes the node's apply stream and hands its node snapshots, and callers that wait
  for their answers. Everything interleaves; nodes are killed and restarted.
\<close>

section \<open>State\<close>

text \<open>
  \<open>sy_read\<close> counts the items a node's apply loop has taken from the stream; \<open>sy_pending\<close> and
  \<open>sy_history\<close> are the waiting calls and the outcomes of \<open>Kv_Service\<close>, per node. The node inside
  a service is the cluster's node.
\<close>

record ('s, 'db) system =
  sy_raft :: "'s cluster"
  sy_service :: "nat \<Rightarrow> ('s, 'db) kv_service"
  sy_read :: "nat \<Rightarrow> nat"
  sy_pending :: "nat \<Rightarrow> pending"
  sy_history :: "nat \<Rightarrow> history"

definition node_at :: "('s, 'db) system \<Rightarrow> nat \<Rightarrow> 's node" where
  "node_at y n = cl_node (sy_raft y) n"

definition service_at :: "('s, 'db) system \<Rightarrow> nat \<Rightarrow> ('s, 'db) kv_service" where
  "service_at y n = (sy_service y n)\<lparr>sv_node := node_at y n\<rparr>"

definition put_service :: "nat \<Rightarrow> ('s, 'db) kv_service \<Rightarrow> ('s, 'db) system \<Rightarrow> ('s, 'db) system" where
  "put_service n sv y =
     y\<lparr>sy_raft := set_node n (sv_node sv) (sy_raft y), sy_service := (sy_service y)(n := sv)\<rparr>"

section \<open>Steps\<close>

text \<open>
  A restarted node begins with an empty engine: on the engine it had, it would apply the log
  a second time. The state of an applied item is one whose sizes fit the snapshot format. A
  request's command is a value of the Rust type.
\<close>

inductive system_step ::
  "'db sable \<Rightarrow> ('db \<Rightarrow> kv) \<Rightarrow> 'e prost \<Rightarrow> (persistent_state \<Rightarrow> bool) \<Rightarrow> peer list \<Rightarrow> timing \<Rightarrow>
   ('s, 'db) system \<Rightarrow> ('s, 'db) system \<Rightarrow> bool"
  for E contents W fits ms tim where
  raft: "driver_step fits ms (sy_raft y) c \<Longrightarrow> system_step E contents W fits ms tim y (y\<lparr>sy_raft := c\<rparr>)"
| request: "n \<in> ids ms \<Longrightarrow> nd_running (node_at y n) \<Longrightarrow>
    execute_begin W command (service_at y n) = (sv, r) \<Longrightarrow> fits (persistent_of (nd_core (sv_node sv))) \<Longrightarrow>
    cmd_fits command \<Longrightarrow>
    system_step E contents W fits ms tim y
      ((put_service n sv y)\<lparr>sy_pending := (sy_pending y)
          (n := (case r of Inr t \<Rightarrow> insert t (sy_pending y n) | Inl _ \<Rightarrow> sy_pending y n))\<rparr>)"
| answer: "n \<in> ids ms \<Longrightarrow> nd_running (node_at y n) \<Longrightarrow> t \<in> sy_pending y n \<Longrightarrow>
    execute_end t (service_at y n) = (sv, r) \<Longrightarrow>
    system_step E contents W fits ms tim y
      ((put_service n sv y)\<lparr>sy_pending := (sy_pending y)(n := sy_pending y n - {t})\<rparr>)"
| applies: "n \<in> ids ms \<Longrightarrow> nd_running (node_at y n) \<Longrightarrow> sy_read y n < length (nd_applied (node_at y n)) \<Longrightarrow>
    item = nd_applied (node_at y n) ! sy_read y n \<Longrightarrow> hash_order_ok H \<Longrightarrow>
    loop_item E W H item (service_at y n) = Some sv \<Longrightarrow>
    fits (persistent_of (nd_core (sv_node sv))) \<Longrightarrow> app_fits E (sv_state sv) \<Longrightarrow>
    system_step E contents W fits ms tim y
      ((put_service n sv y)\<lparr>sy_read := (sy_read y)(n := sy_read y n + 1),
         sy_history := (sy_history y)(n := sy_history y n @ applied_outcome E W item (sv_state (service_at y n)))\<rparr>)"
| restart: "n \<in> ids ms \<Longrightarrow> \<not> nd_running (node_at y n) \<Longrightarrow> contents db = Map.empty \<Longrightarrow>
    app_start rng connect (config_for ms n) (cm_storage (nd_core (node_at y n))) tim now db =
      Inr (sv, clients :: string peer_clients) \<Longrightarrow>
    system_step E contents W fits ms tim y
      ((put_service n sv y)\<lparr>sy_read := (sy_read y)(n := 0), sy_pending := (sy_pending y)(n := {}),
         sy_history := (sy_history y)(n := [])\<rparr>)"

definition system_start ::
  "('db \<Rightarrow> kv) \<Rightarrow> (nat \<Rightarrow> 's dyn_storage) \<Rightarrow> peer list \<Rightarrow> timing \<Rightarrow> ('s, 'db) system \<Rightarrow> bool" where
  "system_start contents disk ms tim y \<longleftrightarrow>
     cl_calls (sy_raft y) = {} \<and> cl_replies (sy_raft y) = {} \<and>
     (\<forall>n \<in> ids ms. storage_load (disk n) = Inr persistent_default \<and>
        sy_read y n = 0 \<and> sy_pending y n = {} \<and> sy_history y n = [] \<and>
        (\<exists>rng connect now clients db. contents db = Map.empty \<and>
           app_start rng connect (config_for ms n) (disk n) tim now db =
             Inr (service_at y n, clients :: string peer_clients)))"

inductive system_reach ::
  "'db sable \<Rightarrow> ('db \<Rightarrow> kv) \<Rightarrow> 'e prost \<Rightarrow> (persistent_state \<Rightarrow> bool) \<Rightarrow> (nat \<Rightarrow> 's dyn_storage) \<Rightarrow>
   peer list \<Rightarrow> timing \<Rightarrow> ('s, 'db) system \<Rightarrow> bool"
  for E contents W fits disk ms tim where
  start: "system_start contents disk ms tim y \<Longrightarrow> system_reach E contents W fits disk ms tim y"
| step: "system_reach E contents W fits disk ms tim y \<Longrightarrow> system_step E contents W fits ms tim y y' \<Longrightarrow>
    system_reach E contents W fits disk ms tim y'"

section \<open>The cluster and the services inside\<close>

lemma service_at_sel [simp]:
  "sv_node (service_at y n) = node_at y n"
  "sv_state (service_at y n) = sv_state (sy_service y n)"
  by (simp_all add: service_at_def)

lemma put_service_sel [simp]:
  "cl_calls (sy_raft (put_service n sv y)) = cl_calls (sy_raft y)"
  "cl_replies (sy_raft (put_service n sv y)) = cl_replies (sy_raft y)"
  "sy_read (put_service n sv y) = sy_read y"
  "sy_pending (put_service n sv y) = sy_pending y"
  "sy_history (put_service n sv y) = sy_history y"
  "node_at (put_service n sv y) v = (if v = n then sv_node sv else node_at y v)"
  "service_at (put_service n sv y) v = (if v = n then sv else service_at y v)"
  by (simp_all add: put_service_def set_node_def service_at_def node_at_def)

lemma at_update [simp]:
  "node_at (y\<lparr>sy_read := r\<rparr>) = node_at y" "service_at (y\<lparr>sy_read := r\<rparr>) = service_at y"
  "node_at (y\<lparr>sy_pending := p\<rparr>) = node_at y" "service_at (y\<lparr>sy_pending := p\<rparr>) = service_at y"
  "node_at (y\<lparr>sy_history := A\<rparr>) = node_at y" "service_at (y\<lparr>sy_history := A\<rparr>) = service_at y"
  "node_at (y\<lparr>sy_raft := c\<rparr>) = cl_node c" "sv_state (service_at (y\<lparr>sy_raft := c\<rparr>) n) = sv_state (service_at y n)"
  by (simp_all add: node_at_def service_at_def fun_eq_iff)

lemma core_at: "core_of (sy_raft y) n = nd_core (node_at y n)"
  by (simp add: core_of_def node_at_def)

lemma app_start_node:
  assumes "app_start rng connect config st tim now db = Inr (sv, clients)"
  shows "start_node rng connect config st tim now = Inr (sv_node sv, clients)"
    and "sv_state sv = app_new db" "service_start sv"
  using assms by (auto simp: app_start_def Let_def res_bind_Inr_iff service_start_def app_new_def)

lemma execute_begin_node:
  assumes "execute_begin W command sv = (sv', r)"
  shows "\<exists>bs res. node_propose bs (sv_node sv) = (sv_node sv', res)"
  using assms
  by (auto simp: execute_begin_def next_nonce_def set_waiter_def Let_def split: prod.splits option.splits) blast+

lemma execute_end_node: "execute_end t sv = (sv', r) \<Longrightarrow> sv_node sv' = sv_node sv"
  by (auto simp: execute_end_def set_waiter_def split: prod.splits option.splits)

lemma loop_item_node:
  assumes "loop_item E W H item sv = Some sv'"
  shows "sv_node sv' = sv_node sv \<or>
    (\<exists>entry. item = ApplyCommand entry \<and>
       control_snapshot (ap_index entry) (build_snapshot E H (sv_state sv')) (sv_node sv) = Some (sv_node sv'))"
  using assms by (auto simp: loop_item_def Let_def split: apply_item.splits if_splits)

lemma set_same_node: "sv_node sv = node_at y n \<Longrightarrow> sy_raft (put_service n sv y) = sy_raft y"
  by (simp add: put_service_def set_node_def node_at_def)

lemma system_step_cluster:
  assumes "system_step E contents W fits ms tim y y'"
  shows "cluster_step fits ms tim (sy_raft y) (sy_raft y') \<or> sy_raft y' = sy_raft y"
  using assms
proof cases
  case (raft c)
  then show ?thesis by (simp add: driver)
next
  case (request n command sv r)
  obtain bs res where "node_propose bs (cl_node (sy_raft y) n) = (sv_node sv, res)"
    using execute_begin_node [OF request(4)] by (auto simp: node_at_def)
  from propose [where fits = fits and c = "sy_raft y" and n = n, OF request(2) _ this request(5)] request(1,3) show ?thesis
    by (simp add: put_service_def node_at_def)
next
  case (answer n t sv r)
  with execute_end_node [OF answer(5)] show ?thesis by (simp add: set_same_node)
next
  case (applies n item H sv)
  from loop_item_node [OF applies(7)] show ?thesis
  proof
    assume "sv_node sv = sv_node (service_at y n)"
    with applies(1) show ?thesis by (simp add: set_same_node)
  next
    assume "\<exists>entry. item = ApplyCommand entry \<and>
      control_snapshot (ap_index entry) (build_snapshot E H (sv_state sv)) (sv_node (service_at y n)) = Some (sv_node sv)"
    then obtain index data where "control_snapshot index data (cl_node (sy_raft y) n) = Some (sv_node sv)"
      by (auto simp: node_at_def)
    from snapshot [where fits = fits and c = "sy_raft y" and n = n, OF applies(2) _ this applies(8)] applies(1,3) show ?thesis
      by (simp add: put_service_def node_at_def)
  qed
next
  case (restart n db rng connect now sv clients)
  from cluster_step.restart [OF restart(2), of "sy_raft y" rng connect tim now "sv_node sv" clients fits]
    app_start_node(1) [OF restart(5)] restart(1,3) show ?thesis
    by (simp add: put_service_def node_at_def core_of_def)
qed

lemma system_start_cluster: "system_start contents disk ms tim y \<Longrightarrow> cluster_start disk ms tim (sy_raft y)"
  unfolding system_start_def cluster_start_def using app_start_node(1) by (fastforce simp: node_at_def)

text \<open>Each node's service runs as \<open>Kv_Service\<close> describes, the rest of the system happening elsewhere.\<close>

lemma system_service:
  assumes "system_reach E contents W fits disk ms tim y" "n \<in> ids ms"
  shows "service_reach E W (service_at y n, sy_pending y n, sy_history y n)"
  using assms(1)
proof induction
  case (start y)
  then obtain rng connect now clients db where
    "app_start rng connect (config_for ms n) (disk n) tim now db = Inr (service_at y n, clients :: string peer_clients)"
    "sy_pending y n = {}" "sy_history y n = []"
    using assms(2) unfolding system_start_def by blast
  with app_start_node(3) service_reach.start show ?case by metis
next
  case (step y y')
  have "service_step E W (service_at y n, sy_pending y n, sy_history y n) (service_at y' n, sy_pending y' n, sy_history y' n)
      \<or> service_at y' n = service_at y n \<and> sy_pending y' n = sy_pending y n \<and> sy_history y' n = sy_history y n
      \<or> service_start (service_at y' n) \<and> sy_pending y' n = {} \<and> sy_history y' n = []"
    using step.hyps(2)
  proof cases
    case (raft c)
    have "service_at y' n = (service_at y n)\<lparr>sv_node := node_at y' n\<rparr>" by (simp add: raft service_at_def)
    with service_step.elsewhere [of E W "service_at y n" "sy_pending y n" "sy_history y n" "node_at y' n"] raft
    show ?thesis by simp
  next
    case (request v command sv r)
    with service_step.accepted [of W command "service_at y n"] service_step.refused [of W command "service_at y n"]
    show ?thesis by (cases "v = n"; cases r) (simp_all add: service_at_def node_at_def put_service_def set_node_def)
  next
    case (answer v t sv r)
    with service_step.finishes [of t "sy_pending y n" "service_at y n" sv r E W "sy_history y n"]
    show ?thesis by (cases "v = n") (simp_all add: service_at_def node_at_def put_service_def set_node_def)
  next
    case (applies v item H sv)
    with service_step.applies [of E W H item "service_at y n" sv "sy_pending y n" "sy_history y n"]
    show ?thesis by (cases "v = n") (simp_all add: service_at_def node_at_def put_service_def set_node_def)
  next
    case (restart v db rng connect now sv clients)
    with app_start_node(3) [OF restart(5)] show ?thesis
      by (cases "v = n") (simp_all add: service_at_def node_at_def put_service_def set_node_def service_start_def)
  qed
  with step.IH service_reach.intros show ?case by metis
qed

text \<open>An answer is an outcome that the apply loop of the node has reported.\<close>

lemma answer_in_history:
  assumes "system_reach E contents W fits disk ms tim y" "n \<in> ids ms"
    and "(nonce, rx) \<in> sy_pending y n" "execute_end (nonce, rx) (service_at y n) = (sv, Inr out)"
  shows "(nonce, out) \<in> set (sy_history y n)"
  by (rule answer_is_own_outcome [OF system_service [OF assms(1,2)] assms(3,4)])

end
