(* ===== verification/Kv_Replicated.thy ===== *)
theory Kv_Replicated
  imports Kv_System Raft_Stream
begin

text \<open>
  What the whole system promises: there is one growing sequence of commands such that every
  node's key-value contents and table of clients are the result of a prefix of it, whether
  the node applied the commands itself or got there through snapshots, and such that every
  answer a caller gets is the outcome of its command at its place in the sequence.
\<close>

section \<open>The meaning of a log\<close>

definition machine_empty :: machine where
  "machine_empty = \<lparr>mc_kv = Map.empty, mc_dedup = Map.empty\<rparr>"

text \<open>A command that does not decode is skipped, as the apply loop does.\<close>

definition run_command :: "'e prost \<Rightarrow> bytes \<Rightarrow> machine \<Rightarrow> machine" where
  "run_command W b m = (case command_decode W b of Inr c \<Rightarrow> fst (machine_apply c m) | Inl _ \<Rightarrow> m)"

definition run_log :: "'e prost \<Rightarrow> bytes list \<Rightarrow> machine" where
  "run_log W bs = fold (run_command W) bs machine_empty"

text \<open>The outcome that a command with a given nonce has at position \<open>i\<close> of a log.\<close>

definition outcome_in :: "'e prost \<Rightarrow> bytes list \<Rightarrow> 64 word \<Rightarrow> outcome \<Rightarrow> nat \<Rightarrow> bool" where
  "outcome_in W bs nonce out i \<longleftrightarrow> i < length bs \<and>
     (\<exists>c. command_decode W (bs ! i) = Inr c \<and> cmd_nonce c = nonce \<and>
        out = snd (machine_apply c (run_log W (take i bs))))"

lemma run_log_Nil [simp]: "run_log W [] = machine_empty"
  by (simp add: run_log_def)

lemma run_log_take_Suc:
  "i < length bs \<Longrightarrow> run_log W (take (Suc i) bs) = run_command W (bs ! i) (run_log W (take i bs))"
  by (simp add: run_log_def take_Suc_conv_app_nth)

text \<open>The commands of a log, without what does not decode.\<close>

definition decoded :: "'e prost \<Rightarrow> bytes list \<Rightarrow> command list" where
  "decoded W bs = concat (map (\<lambda>b. case command_decode W b of Inr c \<Rightarrow> [c] | Inl _ \<Rightarrow> []) bs)"

lemma run_log_decoded: "run_log W bs = fold (\<lambda>c m. fst (machine_apply c m)) (decoded W bs) machine_empty"
proof -
  have "fold (run_command W) bs m = fold (\<lambda>c m. fst (machine_apply c m)) (decoded W bs) m" for m
    by (induction bs arbitrary: m) (simp_all add: decoded_def run_command_def split: sum.splits)
  then show ?thesis by (simp add: run_log_def)
qed

lemma run_log_effective:
  "mc_kv (run_log W bs) = fold (\<lambda>c kv. fst (effect c kv)) (effective Map.empty (decoded W bs)) Map.empty"
proof -
  have "seen_of (mc_dedup machine_empty) = Map.empty" by (simp add: seen_of_def machine_empty_def fun_eq_iff)
  then show ?thesis by (simp add: run_log_decoded machine_effective) (simp add: machine_empty_def)
qed

lemma outcome_in_prefix:
  assumes "outcome_in W (take k bs) nonce out i"
  shows "outcome_in W bs nonce out i"
  using assms by (auto simp: outcome_in_def min_def split: if_splits)

section \<open>What the protocol has settled\<close>

abbreviation commands :: "log_entry list \<Rightarrow> bytes list" where
  "commands \<equiv> map le_command"

definition result_at :: "'e prost \<Rightarrow> peer list \<Rightarrow> proto \<Rightarrow> nat \<Rightarrow> machine \<Rightarrow> bool" where
  "result_at W ms g k m \<longleftrightarrow>
     (\<exists>v \<in> ids ms. settled (majority ms) g v k \<and> m = run_log W (commands (take k (pl g v))))"

definition answer_at :: "'e prost \<Rightarrow> peer list \<Rightarrow> proto \<Rightarrow> 64 word \<times> outcome \<Rightarrow> bool" where
  "answer_at W ms g a \<longleftrightarrow>
     (\<exists>v \<in> ids ms. \<exists>k i. settled (majority ms) g v k \<and>
        outcome_in W (commands (take k (pl g v))) (fst a) (snd a) i)"

definition image_at ::
  "'db sable \<Rightarrow> ('db \<Rightarrow> kv) \<Rightarrow> 'e prost \<Rightarrow> peer list \<Rightarrow> proto \<Rightarrow> nat \<Rightarrow> bytes \<Rightarrow> bool" where
  "image_at E contents W ms g k data \<longleftrightarrow>
     (\<exists>st H. hash_order_ok H \<and> app_fits E st \<and> keys_ok contents st \<and> data = build_snapshot E H st \<and>
        result_at W ms g k (machine_of contents st))"

text \<open>\<open>h\<close> comes later than \<open>g\<close>: what is settled stays.\<close>

definition later :: "peer list \<Rightarrow> proto \<Rightarrow> proto \<Rightarrow> bool" where
  "later ms g h \<longleftrightarrow> (\<forall>v k. settled (majority ms) g v k \<longrightarrow>
     settled (majority ms) h v k \<and> take k (pl h v) = take k (pl g v))"

lemma later_refl [simp]: "later ms g g"
  by (simp add: later_def)

lemma later_trans: "later ms g h \<Longrightarrow> later ms h f \<Longrightarrow> later ms g f"
  by (simp add: later_def)

lemma later_steps: "psteps ms n g h \<Longrightarrow> proto_inv (majority ms) g \<Longrightarrow> later ms g h"
  using members.steps_settled by (simp add: later_def)

lemma laterD:
  assumes "later ms g h"
  shows "result_at W ms g k m \<Longrightarrow> result_at W ms h k m"
    and "answer_at W ms g a \<Longrightarrow> answer_at W ms h a"
    and "image_at E contents W ms g k data \<Longrightarrow> image_at E contents W ms h k data"
proof -
  show r: "result_at W ms g k m \<Longrightarrow> result_at W ms h k m" for k m
    using assms unfolding result_at_def later_def by metis
  show "answer_at W ms g a \<Longrightarrow> answer_at W ms h a"
    using assms unfolding answer_at_def later_def by metis
  show "image_at E contents W ms g k data \<Longrightarrow> image_at E contents W ms h k data"
    using r unfolding image_at_def by blast
qed

lemma result_here:
  assumes "proto_inv (majority ms) g" "result_at W ms g k m" "settled (majority ms) g n k"
  shows "m = run_log W (commands (take k (pl g n)))"
  using assms members.settled_agree unfolding result_at_def by metis

lemma result_start: "n \<in> ids ms \<Longrightarrow> result_at W ms g 0 machine_empty"
  by (auto simp: result_at_def settled_def)

text \<open>One log holds everything that is settled anywhere.\<close>

lemma settled_log:
  assumes inv: "proto_inv (majority ms) g"
  obtains L where
    "\<And>v k. v \<in> ids ms \<Longrightarrow> settled (majority ms) g v k \<Longrightarrow> k \<le> length L \<and> take k (pl g v) = take k L"
    "L = [] \<or> (\<exists>v \<in> ids ms. settled (majority ms) g v (length L) \<and> L = take (length L) (pl g v))"
proof -
  let ?S = "insert 0 (\<Union>v \<in> ids ms. {k. settled (majority ms) g v k})"
  have "{k. settled (majority ms) g v k} \<subseteq> {..length (pl g v)}" for v by (auto simp: settled_def)
  then have "finite {k. settled (majority ms) g v k}" for v using finite_subset by blast
  then have fin: "finite ?S" by simp
  have top: "Max ?S \<in> ?S" "\<And>k. k \<in> ?S \<Longrightarrow> k \<le> Max ?S" using Max_in [OF fin] Max_ge [OF fin] by blast+
  show thesis
  proof (cases "Max ?S = 0")
    case True
    with top(2) have "k = 0" if "v \<in> ids ms" "settled (majority ms) g v k" for v k using that by force
    then show thesis using that [of "[]"] by fastforce
  next
    case False
    with top(1) obtain v where v: "v \<in> ids ms" "settled (majority ms) g v (Max ?S)" by auto
    let ?L = "take (Max ?S) (pl g v)"
    have len: "length ?L = Max ?S" using v(2) by (simp add: settled_def)
    have "k \<le> length ?L \<and> take k (pl g w) = take k ?L" if w: "w \<in> ids ms" "settled (majority ms) g w k" for w k
    proof -
      have k: "k \<le> Max ?S" using w top(2) by blast
      then have "settled (majority ms) g v k" by (rule settled_le [OF v(2)])
      then have "take k (pl g w) = take k (pl g v)" by (rule members.settled_agree [OF inv w(2)])
      with k len show ?thesis by (simp add: min_absorb1)
    qed
    with that [of ?L] v len show thesis by metis
  qed
qed

section \<open>The invariant of the system\<close>

text \<open>Every snapshot in a core is the image of the machine at its index.\<close>

definition snap_rel ::
  "'db sable \<Rightarrow> ('db \<Rightarrow> kv) \<Rightarrow> 'e prost \<Rightarrow> peer list \<Rightarrow> proto \<Rightarrow> 's consensus_module \<Rightarrow> bool" where
  "snap_rel E contents W ms g cm \<longleftrightarrow>
     (\<forall>data. cm_snapshot cm = Some data \<longrightarrow> image_at E contents W ms g (lg_snapshot_index (cm_log cm)) data) \<and>
     (\<forall>s. cm_pending_snapshot cm = Some s \<longrightarrow>
        sn_last_included_index s = cm_last_applied cm \<and> image_at E contents W ms g (cm_last_applied cm) (sn_data s))"

text \<open>The stream of a node leads to where its core has applied, through such images.\<close>

definition feed_rel ::
  "'db sable \<Rightarrow> ('db \<Rightarrow> kv) \<Rightarrow> 'e prost \<Rightarrow> peer list \<Rightarrow> proto \<Rightarrow> 's node \<Rightarrow> bool" where
  "feed_rel E contents W ms g nd \<longleftrightarrow>
     fed nd \<and>
     (\<forall>s. ApplySnapshot s \<in> set (nd_applied nd) \<longrightarrow>
        image_at E contents W ms g (sn_last_included_index s) (sn_data s))"

definition log_position :: "('s, 'db) system \<Rightarrow> nat \<Rightarrow> nat" where
  "log_position y n = stream_end 0 (take (sy_read y n) (nd_applied (node_at y n)))"

text \<open>A state machine is where its apply loop has read to.\<close>

definition app_rel ::
  "('db \<Rightarrow> kv) \<Rightarrow> 'e prost \<Rightarrow> peer list \<Rightarrow> proto \<Rightarrow> nat \<Rightarrow> 'db app_state \<Rightarrow> bool" where
  "app_rel contents W ms g k st \<longleftrightarrow>
     result_at W ms g k (machine_of contents st) \<and> keys_ok contents st \<and> finite (as_keys st)"

definition system_rel ::
  "'db sable \<Rightarrow> ('db \<Rightarrow> kv) \<Rightarrow> 'e prost \<Rightarrow> peer list \<Rightarrow> proto \<Rightarrow> ('s, 'db) system \<Rightarrow> bool" where
  "system_rel E contents W ms g y \<longleftrightarrow>
     (\<forall>n \<in> ids ms. snap_rel E contents W ms g (nd_core (node_at y n)) \<and> feed_rel E contents W ms g (node_at y n) \<and>
        sy_read y n \<le> length (nd_applied (node_at y n)) \<and>
        app_rel contents W ms g (log_position y n) (sv_state (service_at y n)) \<and>
        (\<forall>a \<in> set (sy_history y n). answer_at W ms g a)) \<and>
     (\<forall>src p a. (src, CallInstall p a) \<in> cl_calls (sy_raft y) \<longrightarrow>
        image_at E contents W ms g (is_last_included_index a) (is_data a))"

lemma system_relD:
  assumes "system_rel E contents W ms g y"
  shows "n \<in> ids ms \<Longrightarrow> snap_rel E contents W ms g (nd_core (node_at y n))"
    and "n \<in> ids ms \<Longrightarrow> feed_rel E contents W ms g (node_at y n)"
    and "n \<in> ids ms \<Longrightarrow> sy_read y n \<le> length (nd_applied (node_at y n))"
    and "n \<in> ids ms \<Longrightarrow> app_rel contents W ms g (log_position y n) (sv_state (service_at y n))"
    and "n \<in> ids ms \<Longrightarrow> a \<in> set (sy_history y n) \<Longrightarrow> answer_at W ms g a"
    and "(src, CallInstall p b) \<in> cl_calls (sy_raft y) \<Longrightarrow>
      image_at E contents W ms g (is_last_included_index b) (is_data b)"
  using assms unfolding system_rel_def by blast+

lemma rel_later:
  assumes "later ms g h"
  shows "snap_rel E contents W ms g cm \<Longrightarrow> snap_rel E contents W ms h cm"
    and "feed_rel E contents W ms g nd \<Longrightarrow> feed_rel E contents W ms h nd"
    and "app_rel contents W ms g k st \<Longrightarrow> app_rel contents W ms h k st"
  using laterD(1,3) [OF assms] unfolding snap_rel_def feed_rel_def app_rel_def by meson+

lemma system_later:
  assumes "later ms g h" "system_rel E contents W ms g y"
  shows "system_rel E contents W ms h y"
  unfolding system_rel_def
  by (intro conjI ballI allI impI rel_later [OF assms(1)] laterD [OF assms(1)])
    (use system_relD [OF assms(2)] in blast)+

lemma snap_rel_view:
  "snap_view cm' = snap_view cm \<Longrightarrow> snap_rel E contents W ms g cm' = snap_rel E contents W ms g cm"
  by (simp add: snap_view_def snap_rel_def)

lemma feed_rel_view:
  "snap_view (nd_core nd') = snap_view (nd_core nd) \<Longrightarrow> nd_applied nd' = nd_applied nd \<Longrightarrow>
   feed_rel E contents W ms g nd' = feed_rel E contents W ms g nd"
  using fed_view [of nd' nd] by (simp add: feed_rel_def)

subsection \<open>Draining and installing\<close>

lemma drain_rel:
  assumes "cm_inv cm" "represents L (cm_log cm)" "take_applies cm = Some (cm', items)"
    and "snap_rel E contents W ms g cm" "feed_rel E contents W ms g nd" "nd_core nd = cm"
    and "nd_core nd' = cm'" "nd_applied nd' = nd_applied nd @ items"
  shows "snap_rel E contents W ms g cm' \<and> feed_rel E contents W ms g nd'"
proof -
  let ?cs = "map (apply_of L) [Suc (cm_last_applied cm) ..< Suc (cm_commit_index cm)]"
  have cm': "cm' = cm\<lparr>cm_pending_snapshot := None, cm_last_applied := cm_commit_index cm\<rparr>"
    and items: "items = (case cm_pending_snapshot cm of None \<Rightarrow> [] | Some s \<Rightarrow> [ApplySnapshot s]) @ ?cs"
    using take_applies_inv [OF assms(1,2)] assms(3) by simp_all
  have "ApplySnapshot s \<notin> set ?cs" for s by (auto simp: apply_of_def)
  then have "ApplySnapshot s \<in> set items \<longleftrightarrow> cm_pending_snapshot cm = Some s" for s
    unfolding items by (auto split: option.splits simp del: upt_Suc)
  with fed_drain [OF assms(1-3) _ assms(6-8)] assms(4-8) cm' show ?thesis
    by (auto simp: snap_rel_def feed_rel_def)
qed

lemma install_rel:
  assumes "cm_inv cm" "snap_rel E contents W ms g cm" "feed_rel E contents W ms g nd" "nd_core nd = cm"
    and "image_at E contents W ms g (is_last_included_index a) (is_data a)"
    and "nd_core nd' = fst (handle_install_snapshot rng now a cm)" "nd_applied nd' = nd_applied nd"
  shows "snap_rel E contents W ms g (nd_core nd') \<and> feed_rel E contents W ms g nd'"
proof (cases "is_term a < cm_current_term cm \<or>
    is_last_included_index a \<le> cm_commit_index (yield_to_leader rng now (is_term a) (is_leader_id a) cm)")
  case True
  then have "snap_view (nd_core nd') = snap_view cm"
    by (auto simp: assms(6) handle_install_snapshot_def snap_view_def Let_def)
  with assms(2-4,7) show ?thesis by (metis snap_rel_view feed_rel_view)
next
  case False
  then have "lg_snapshot_index (cm_log (nd_core nd')) = is_last_included_index a"
    "cm_snapshot (nd_core nd') = Some (is_data a)" "cm_last_applied (nd_core nd') = is_last_included_index a"
    "\<exists>t. cm_pending_snapshot (nd_core nd') = Some \<lparr>sn_last_included_index = is_last_included_index a,
       sn_last_included_term = t, sn_data = is_data a\<rparr>"
    using cm_invD(3,4) [OF assms(1)]
    by (simp_all add: assms(6) handle_install_snapshot_def install_image_def Let_def compact_snapshot_index)
  with fed_install [OF assms(1) _ assms(4,6,7)] assms(3,5,7) show ?thesis by (auto simp: snap_rel_def feed_rel_def)
qed

subsection \<open>Drivers\<close>

lemma raft_keeps:
  assumes step: "driver_step fits ms (sy_raft y) c" and rel: "cluster_rel ms g (sy_raft y)"
    and sys: "system_rel E contents W ms h y"
  shows "system_rel E contents W ms h (y\<lparr>sy_raft := c\<rparr>)"
proof -
  note S = system_relD [OF sys]
  have node: "snap_rel E contents W ms h (nd_core (cl_node c v)) \<and> feed_rel E contents W ms h (cl_node c v) \<and>
      (\<exists>more. nd_applied (cl_node c v) = nd_applied (node_at y v) @ more)" if v: "v \<in> ids ms" for v
  proof -
    note R = node_relD(5,8) [OF cluster_relD(2) [OF rel v], unfolded core_at]
    from step show ?thesis
    proof (cases rule: driver_view [where v = v])
      case 1
      with S(1,2) [OF v] show ?thesis
        by (metis append_Nil2 core_of_def node_at_def feed_rel_view snap_rel_view)
    next
      case (2 items)
      with drain_rel [OF R _ S(1,2) [OF v] refl] show ?thesis by (auto simp: core_of_def node_at_def)
    next
      case (3 src p a rng now)
      with install_rel [OF R(1) S(1,2) [OF v] refl S(6) [OF 3(2)]] show ?thesis by (auto simp: core_of_def node_at_def)
    qed
  qed
  have "image_at E contents W ms h (is_last_included_index a) (is_data a)" if "(src, CallInstall p a) \<in> cl_calls c" for src p a
    using driver_installs [OF step that] S(6) S(1) [of src] by (auto simp: snap_rel_def core_at)
  moreover have "sy_read y v \<le> length (nd_applied (cl_node c v)) \<and>
      log_position (y\<lparr>sy_raft := c\<rparr>) v = log_position y v" if v: "v \<in> ids ms" for v
    using node [OF v] S(3) [OF v] by (auto simp: log_position_def)
  ultimately show ?thesis using node S(4,5) by (auto simp: system_rel_def)
qed

subsection \<open>The apply loop\<close>

lemma command_result:
  assumes inv: "proto_inv (majority ms) g" and n: "n \<in> ids ms" and s: "settled (majority ms) g n (Suc k)"
    and m: "result_at W ms g k m" and b: "b = le_command (pl g n ! k)"
  shows "result_at W ms g (Suc k) (run_command W b m)"
    and "command_decode W b = Inr c \<Longrightarrow> answer_at W ms g (cmd_nonce c, snd (machine_apply c m))"
proof -
  let ?bs = "commands (take (Suc k) (pl g n))"
  have k: "k < length (pl g n)" using s by (simp add: settled_def)
  have m': "m = run_log W (take k ?bs)"
    using result_here [OF inv m settled_le [OF s]] by (simp add: take_map min_absorb1)
  have b': "b = ?bs ! k" "k < length ?bs" using k by (simp_all add: b)
  have "run_log W ?bs = run_command W b m"
    using run_log_take_Suc [OF b'(2)] b'(1) m' by simp
  then show "result_at W ms g (Suc k) (run_command W b m)" unfolding result_at_def using n s by metis
  assume "command_decode W b = Inr c"
  then have "outcome_in W ?bs (cmd_nonce c) (snd (machine_apply c m)) k" using b' m' by (simp add: outcome_in_def)
  then show "answer_at W ms g (cmd_nonce c, snd (machine_apply c m))"
    unfolding answer_at_def using n s by (metis fst_conv snd_conv)
qed

context reliable_engine
begin

lemma loop_command_refines:
  "machine_of contents (loop_command E W a st) = run_command W (ap_command a) (machine_of contents st)"
  "keys_ok contents st \<Longrightarrow> keys_ok contents (loop_command E W a st)"
  by (auto simp: loop_command_def run_command_def app_apply_refines split: sum.splits)

lemma install_refines:
  assumes "image_at E contents W ms g k data" "hash_order_ok H" "keys_ok contents st" "finite (as_keys st)"
  shows "result_at W ms g k (machine_of contents (install_snapshot E H data st)) \<and>
    keys_ok contents (install_snapshot E H data st)"
  using assms install_build unfolding image_at_def by metis

text \<open>One item: the state machine moves to the item's index, and what it answered is right.\<close>

lemma item_refines:
  assumes inv: "proto_inv (majority ms) g" and n: "n \<in> ids ms" and st: "app_rel contents W ms g k st"
    and cmd: "\<And>a. item = ApplyCommand a \<Longrightarrow> ap_index a = Suc k \<and> settled (majority ms) g n (Suc k) \<and>
      ap_command a = le_command (pl g n ! k)"
    and snap: "\<And>s. item = ApplySnapshot s \<Longrightarrow> image_at E contents W ms g (sn_last_included_index s) (sn_data s)"
    and H: "hash_order_ok H"
  shows "result_at W ms g (item_index item) (machine_of contents (app_item E W H item st)) \<and>
    keys_ok contents (app_item E W H item st) \<and> (\<forall>a \<in> set (applied_outcome E W item st). answer_at W ms g a)"
proof (cases item)
  case (ApplyCommand a)
  note a = cmd [OF ApplyCommand] and r = st [unfolded app_rel_def]
  have out: "snd (apply_committed E c st) = snd (machine_apply c (machine_of contents st))" for c
    using apply_committed_refines(1) [of c st] by (metis prod.collapse snd_conv)
  have "result_at W ms g (Suc k) (run_command W (ap_command a) (machine_of contents st))"
    by (rule command_result(1) [OF inv n]) (use a r in blast)+
  moreover have "answer_at W ms g (cmd_nonce c, snd (machine_apply c (machine_of contents st)))"
    if "command_decode W (ap_command a) = Inr c" for c
    by (rule command_result(2) [OF inv n _ _ _ that]) (use a r in blast)+
  ultimately show ?thesis
    using a r by (auto simp: ApplyCommand loop_command_refines out split: sum.splits)
next
  case (ApplySnapshot s)
  with install_refines [OF snap [OF ApplySnapshot] H] st show ?thesis by (simp add: app_rel_def)
qed

end

subsection \<open>One node changes\<close>

text \<open>What has to be shown of the node whose service took a step.\<close>

lemma service_keeps:
  assumes sys: "system_rel E contents W ms g y" and n: "n \<in> ids ms"
    and node: "snap_rel E contents W ms g (nd_core (sv_node sv))" "feed_rel E contents W ms g (sv_node sv)"
    and app: "read \<le> length (nd_applied (sv_node sv))"
      "app_rel contents W ms g (stream_end 0 (take read (nd_applied (sv_node sv)))) (sv_state sv)"
    and hist: "\<And>a. a \<in> set A \<Longrightarrow> answer_at W ms g a"
    and y': "node_at y' = (node_at y)(n := sv_node sv)" "service_at y' = (service_at y)(n := sv)"
      "cl_calls (sy_raft y') = cl_calls (sy_raft y)"
      "sy_read y' = (sy_read y)(n := read)" "sy_history y' = (sy_history y)(n := A)"
  shows "system_rel E contents W ms g y'"
proof -
  have "log_position y' v = (if v = n then stream_end 0 (take read (nd_applied (sv_node sv))) else log_position y v)" for v
    by (simp add: log_position_def y')
  with system_relD [OF sys] node app hist show ?thesis unfolding system_rel_def by (simp add: y')
qed

lemma put_service_at: "node_at (put_service n sv y) = (node_at y)(n := sv_node sv)"
  "service_at (put_service n sv y) = (service_at y)(n := sv)"
  by (simp_all add: fun_eq_iff)

text \<open>Requests and answers only touch the waiters and the log.\<close>

lemma execute_keeps_app:
  "execute_begin W command sv = (sv', r) \<Longrightarrow>
     as_store (sv_state sv') = as_store (sv_state sv) \<and> as_dedup (sv_state sv') = as_dedup (sv_state sv) \<and>
     as_keys (sv_state sv') = as_keys (sv_state sv)"
  "execute_end t sv = (sv', r') \<Longrightarrow>
     as_store (sv_state sv') = as_store (sv_state sv) \<and> as_dedup (sv_state sv') = as_dedup (sv_state sv) \<and>
     as_keys (sv_state sv') = as_keys (sv_state sv)"
  by (auto simp: execute_begin_def execute_end_def next_nonce_def set_waiter_def Let_def
      split: prod.splits option.splits)

lemma app_rel_cong:
  "as_store st' = as_store st \<and> as_dedup st' = as_dedup st \<and> as_keys st' = as_keys st \<Longrightarrow>
   app_rel contents W ms g k st' = app_rel contents W ms g k st"
  by (simp add: app_rel_def machine_of_def keys_ok_def)

lemma propose_view:
  assumes "node_propose bs nd = (nd', res)"
  shows "snap_view (nd_core nd') = snap_view (nd_core nd)" "nd_applied nd' = nd_applied nd"
  using assms exec_snap_view [of "SubmitCommand bs" "nd_core nd"]
  by (auto simp: node_propose_def split: prod.splits)

lemma begin_keeps:
  assumes sys: "system_rel E contents W ms g y" and n: "n \<in> ids ms"
    and run: "execute_begin W command (service_at y n) = (sv, r)"
  shows "system_rel E contents W ms g ((put_service n sv y)\<lparr>sy_pending := p\<rparr>)"
proof -
  note S = system_relD [OF sys]
  obtain bs res where "node_propose bs (node_at y n) = (sv_node sv, res)"
    using execute_begin_node [OF run] by auto
  note v = propose_view [OF this]
  show ?thesis
    by (rule service_keeps [OF sys n, where read = "sy_read y n" and A = "sy_history y n"])
      (use S(1-5) [OF n] in \<open>simp_all add: put_service_at log_position_def v snap_rel_view [OF v(1)] feed_rel_view [OF v]
        app_rel_cong [OF execute_keeps_app(1) [OF run]]\<close>)
qed

lemma end_keeps:
  assumes sys: "system_rel E contents W ms g y" and n: "n \<in> ids ms"
    and run: "execute_end t (service_at y n) = (sv, r)"
  shows "system_rel E contents W ms g ((put_service n sv y)\<lparr>sy_pending := p\<rparr>)"
proof -
  note S = system_relD [OF sys] and nd = execute_end_node [OF run]
  show ?thesis
    by (rule service_keeps [OF sys n, where read = "sy_read y n" and A = "sy_history y n"])
      (use S(1-5) [OF n] in \<open>simp_all add: put_service_at log_position_def nd
        app_rel_cong [OF execute_keeps_app(2) [OF run]]\<close>)
qed

text \<open>A restarted node starts over, from the snapshot it has on disk if there is one.\<close>

lemma restart_keeps:
  assumes sys: "system_rel E contents W ms g y" and n: "n \<in> ids ms" and rel: "cluster_rel ms g (sy_raft y)"
    and disk: "mirrored (nd_core (node_at y n))" and db: "contents db = Map.empty"
    and run: "app_start rng connect (config_for ms n) (cm_storage (nd_core (node_at y n))) tim now db =
      Inr (sv, clients :: string peer_clients)"
  shows "system_rel E contents W ms g ((put_service n sv y)\<lparr>sy_read := (sy_read y)(n := 0),
    sy_pending := p, sy_history := (sy_history y)(n := [])\<rparr>)"
proof -
  note S = system_relD [OF sys] and start = app_start_node [OF run]
  let ?cm = "nd_core (node_at y n)" and ?new = "nd_core (sv_node sv)"
  have new: "cm_new rng n (peers_of ms n) (cm_storage ?cm) tim now = Inr ?new" "nd_applied (sv_node sv) = []"
    using start_node_config [OF start(1)] by blast+
  have inv: "cm_inv ?cm" using node_relD(5) [OF cluster_relD(2) [OF rel n]] by (simp add: core_at)
  have "storage_load (cm_storage ?cm) = Inr (persistent_of ?cm)" using disk by (simp add: mirrored_def)
  note v = cm_new_snapshot [OF new(1) this, unfolded persistent_of_def persistent_state.select_convs]
  have "snap_rel E contents W ms g ?new" using S(1) [OF n] v by (auto simp: snap_rel_def)
  moreover have "feed_rel E contents W ms g (sv_node sv)"
    using v new(2) cm_invD(2) [OF inv] by (auto simp: feed_rel_def fed_def split: option.splits)
  moreover have "app_rel contents W ms g 0 (sv_state sv)"
    using result_start [OF n, of W g] db start(2)
    by (simp add: app_rel_def app_new_def machine_of_def machine_empty_def keys_ok_def)
  ultimately show ?thesis
    by (intro service_keeps [OF sys n, where read = 0 and A = "[]"]) (simp_all add: put_service_at new(2))
qed

text \<open>A node takes the snapshot its state machine has built.\<close>

lemma snapshot_keeps:
  assumes run: "control_snapshot i data nd = Some nd'" and inv: "cm_inv (nd_core nd)"
    and rel: "snap_rel E contents W ms g (nd_core nd)" "feed_rel E contents W ms g nd"
    and data: "image_at E contents W ms g i data"
  shows "snap_rel E contents W ms g (nd_core nd') \<and> feed_rel E contents W ms g nd' \<and> nd_applied nd' = nd_applied nd"
proof -
  obtain L where L: "represents L (cm_log (nd_core nd))" by (rule cm_inv_represents [OF inv])
  from run obtain cm' where nd': "nd' = nd\<lparr>nd_core := cm'\<rparr>"
    and core: "cm_take_snapshot i data (nd_core nd) = Some cm'"
    by (auto simp: control_snapshot_def)
  consider "cm' = nd_core nd"
    | "lg_snapshot_index (cm_log cm') = i" "cm_snapshot cm' = Some data"
      "cm_pending_snapshot cm' = cm_pending_snapshot (nd_core nd)" "cm_last_applied cm' = cm_last_applied (nd_core nd)"
    using core take_snapshot_inv [OF inv L, of i data] by (auto simp: compact_snapshot_index split: if_splits)
  then show ?thesis
    using rel data by cases (auto simp: nd' snap_rel_def feed_rel_def fed_def split: option.splits)
qed

context reliable_engine
begin

lemma applies_keeps:
  assumes sys: "system_rel E contents W ms g y" and n: "n \<in> ids ms"
    and rel: "cluster_rel ms g (sy_raft y)" "stream_rel ms g (sy_raft y)"
    and more: "sy_read y n < length (nd_applied (node_at y n))" "item = nd_applied (node_at y n) ! sy_read y n"
    and H: "hash_order_ok H" and run: "loop_item E W H item (service_at y n) = Some sv"
    and fits: "app_fits E (sv_state sv)"
  shows "system_rel E contents W ms g ((put_service n sv y)\<lparr>sy_read := (sy_read y)(n := sy_read y n + 1),
    sy_history := (sy_history y)(n := sy_history y n @ applied_outcome E W item (sv_state (service_at y n)))\<rparr>)"
proof -
  note S = system_relD [OF sys] and inv = cluster_relD(1) [OF rel(1)]
  let ?k = "log_position y n" and ?st = "sv_state (service_at y n)"
  have mem: "item \<in> set (nd_applied (node_at y n))" using more by simp
  have "in_order 0 (nd_applied (node_at y n))" using S(2) [OF n] by (simp add: feed_rel_def fed_def)
  then have idx: "ap_index a = Suc ?k" if "item = ApplyCommand a" for a
    using in_order_nth more that by (simp add: log_position_def)
  have cmd: "ap_index a = Suc ?k \<and> settled (majority ms) g n (Suc ?k) \<and> ap_command a = le_command (pl g n ! ?k)"
    if a: "item = ApplyCommand a" for a
    using bspec [OF rel(2) [unfolded stream_rel_def] n] mem idx [OF a] a
    by (metis (no_types, lifting) apply_item.inject(1) apply_of_def applied.select_convs(3) diff_Suc_1 node_at_def)
  have snap: "image_at E contents W ms g (sn_last_included_index s) (sn_data s)" if "item = ApplySnapshot s" for s
    using S(2) [OF n] mem that by (simp add: feed_rel_def)
  have st: "sv_state sv = app_item E W H item ?st" by (rule loop_item_state [OF run])
  have new: "result_at W ms g (item_index item) (machine_of contents (sv_state sv))" "keys_ok contents (sv_state sv)"
    and out: "\<And>a. a \<in> set (applied_outcome E W item ?st) \<Longrightarrow> answer_at W ms g a"
    using item_refines [OF inv n S(4) [OF n] cmd snap H] st by auto
  have image: "image_at E contents W ms g (item_index item) (build_snapshot E H (sv_state sv))"
    unfolding image_at_def using H fits new by blast
  have node: "snap_rel E contents W ms g (nd_core (sv_node sv)) \<and> feed_rel E contents W ms g (sv_node sv) \<and>
      nd_applied (sv_node sv) = nd_applied (node_at y n)"
    using loop_item_node [OF run] snapshot_keeps [OF _ _ S(1,2) [OF n]] S(1,2) [OF n] image
      node_relD(5) [OF cluster_relD(2) [OF rel(1) n]] by (auto simp: core_at)
  moreover have "finite (as_keys (sv_state sv))" using fits by (simp add: app_fits_def)
  ultimately have "app_rel contents W ms g (stream_end 0 (take (Suc (sy_read y n)) (nd_applied (sv_node sv)))) (sv_state sv)"
    using new more by (simp add: app_rel_def stream_end_take_Suc)
  with node out S(5) [OF n] more(1) show ?thesis
    by (intro service_keeps [OF sys n, where read = "Suc (sy_read y n)" and
        A = "sy_history y n @ applied_outcome E W item ?st"]) (auto simp: put_service_at)
qed

lemma system_step_keeps:
  assumes step: "system_step E contents W fits ms tim y y'" and sys: "system_rel E contents W ms g y"
    and rel: "cluster_rel ms g (sy_raft y)" "stream_rel ms g (sy_raft y)"
    and disk: "\<And>n. n \<in> ids ms \<Longrightarrow> mirrored (core_of (sy_raft y) n)"
  shows "system_rel E contents W ms g y'"
  using step
proof cases
  case (raft c)
  with raft_keeps [OF _ rel(1) sys] show ?thesis by simp
next
  case (request n command sv r)
  with begin_keeps [OF sys] show ?thesis by simp
next
  case (answer n t sv r)
  with end_keeps [OF sys] show ?thesis by simp
next
  case (applies n item H sv)
  with applies_keeps [OF sys applies(2) rel applies(4,5,6,7,9)] show ?thesis by simp
next
  case (restart n db rng connect now sv clients)
  with restart_keeps [OF sys restart(2) rel(1) disk [OF restart(2), unfolded core_at] restart(4,5)] show ?thesis by simp
qed

end

lemma system_start_rel:
  assumes "system_start contents disk ms tim y"
  shows "system_rel E contents W ms g y"
proof -
  have node: "snap_rel E contents W ms g (nd_core (node_at y n)) \<and> feed_rel E contents W ms g (node_at y n) \<and>
      nd_applied (node_at y n) = [] \<and> app_rel contents W ms g 0 (sv_state (service_at y n))" if n: "n \<in> ids ms" for n
  proof -
    from assms n obtain rng connect now clients db where load: "storage_load (disk n) = Inr persistent_default"
      and db: "contents db = Map.empty" and run: "app_start rng connect (config_for ms n) (disk n) tim now db =
        Inr (service_at y n, clients :: string peer_clients)" unfolding system_start_def by blast
    note start = app_start_node [OF run]
    note new = start_node_config [OF start(1), unfolded service_at_sel]
    show ?thesis
      using cm_new_snapshot [OF new(1) load] new(3) db start(2) result_start [OF n, of W g]
      by (auto simp: snap_rel_def feed_rel_def fed_def app_rel_def app_new_def machine_of_def machine_empty_def
          keys_ok_def persistent_default_def log_new_def)
  qed
  with assms show ?thesis by (auto simp: system_rel_def system_start_def log_position_def)
qed

section \<open>Reachable systems\<close>

definition system_inv ::
  "('s \<Rightarrow> storage_error + persistent_state) \<Rightarrow>
   ('s \<Rightarrow> persistent_state \<Rightarrow> (storage_error + unit) \<times> 's) \<Rightarrow> ('s \<Rightarrow> bool) \<Rightarrow> 'db sable \<Rightarrow> ('db \<Rightarrow> kv) \<Rightarrow>
   'e prost \<Rightarrow> peer list \<Rightarrow> proto \<Rightarrow> ('s, 'db) system \<Rightarrow> bool" where
  "system_inv load save sound E contents W ms g y \<longleftrightarrow>
     cluster_rel ms g (sy_raft y) \<and> stream_rel ms g (sy_raft y) \<and> system_rel E contents W ms g y \<and>
     (\<forall>n \<in> ids ms. boxed load save sound (cm_storage (core_of (sy_raft y) n)) \<and> mirrored (core_of (sy_raft y) n))"

lemma system_inv_step:
  assumes rs: "reliable_storage load save sound fits" and re: "reliable_engine E contents"
    and step: "system_step E contents W fits ms tim y y'" and inv: "system_inv load save sound E contents W ms g y"
  shows "\<exists>h. later ms g h \<and> system_inv load save sound E contents W ms h y'"
proof -
  from inv have g: "cluster_rel ms g (sy_raft y)" "stream_rel ms g (sy_raft y)" "system_rel E contents W ms g y"
    and disk: "\<And>n. n \<in> ids ms \<Longrightarrow>
      boxed load save sound (cm_storage (core_of (sy_raft y) n)) \<and> mirrored (core_of (sy_raft y) n)"
    by (auto simp: system_inv_def)
  have sys: "system_rel E contents W ms g y'"
    by (rule reliable_engine.system_step_keeps [OF re step g(3,1,2)]) (use disk in blast)
  from system_step_cluster [OF step] show ?thesis
  proof
    assume "cluster_step fits ms tim (sy_raft y) (sy_raft y')"
    then obtain h n where "psteps ms n g h" "cluster_rel ms h (sy_raft y')" "stream_rel ms h (sy_raft y')"
      "\<And>n. n \<in> ids ms \<Longrightarrow> boxed load save sound (cm_storage (core_of (sy_raft y') n)) \<and> mirrored (core_of (sy_raft y') n)"
      by (rule reliable_storage.step_keeps [OF rs _ g(1,2) disk]) blast+
    with later_steps [OF _ cluster_relD(1) [OF g(1)]] system_later [OF _ sys] show ?thesis
      unfolding system_inv_def by blast
  next
    assume "sy_raft y' = sy_raft y"
    with inv sys have "system_inv load save sound E contents W ms g y'" by (simp add: system_inv_def)
    then show ?thesis using later_refl by blast
  qed
qed

lemma system_inv_run:
  assumes rs: "reliable_storage load save sound fits" and re: "reliable_engine E contents"
    and run: "(system_step E contents W fits ms tim)\<^sup>*\<^sup>* y y'" and inv: "system_inv load save sound E contents W ms g y"
  shows "\<exists>h. later ms g h \<and> system_inv load save sound E contents W ms h y'"
  using run
proof (induction rule: rtranclp_induct)
  case base
  with inv later_refl show ?case by blast
next
  case (step a b)
  with system_inv_step [OF rs re] later_trans show ?case by meson
qed

text \<open>
  The standing hypotheses: reliable storage and engines, a membership without duplicates,
  and a state reached from empty disks.
\<close>

definition system_on ::
  "('s \<Rightarrow> storage_error + persistent_state) \<Rightarrow>
   ('s \<Rightarrow> persistent_state \<Rightarrow> (storage_error + unit) \<times> 's) \<Rightarrow> ('s \<Rightarrow> bool) \<Rightarrow>
   (persistent_state \<Rightarrow> bool) \<Rightarrow> 'db sable \<Rightarrow> ('db \<Rightarrow> kv) \<Rightarrow> 'e prost \<Rightarrow> (nat \<Rightarrow> 's dyn_storage) \<Rightarrow>
   peer list \<Rightarrow> timing \<Rightarrow> ('s, 'db) system \<Rightarrow> bool" where
  "system_on load save sound fits E contents W disk ms tim y \<longleftrightarrow>
     reliable_storage load save sound fits \<and> reliable_engine E contents \<and> members_ok ms \<and>
     (\<forall>n \<in> ids ms. boxed load save sound (disk n)) \<and> system_reach E contents W fits disk ms tim y"

lemma system_onD:
  assumes "system_on load save sound fits E contents W disk ms tim y"
  shows "reliable_storage load save sound fits" "reliable_engine E contents" "members_ok ms"
    and "system_reach E contents W fits disk ms tim y"
    and "n \<in> ids ms \<Longrightarrow> boxed load save sound (disk n)"
  using assms by (auto simp: system_on_def)

lemma system_on_inv:
  assumes "system_on load save sound fits E contents W disk ms tim y"
  shows "\<exists>g. system_inv load save sound E contents W ms g y"
  using system_onD(4) [OF assms]
proof induction
  case (start y)
  from start_rel [OF system_onD(3) [OF assms] system_start_cluster [OF start]] system_onD(5) [OF assms]
    system_start_rel [OF start]
  have "system_inv load save sound E contents W ms proto_init y" unfolding system_inv_def by fastforce
  then show ?case ..
next
  case (step y y')
  with system_inv_step [OF system_onD(1,2) [OF assms]] show ?case by blast
qed

section \<open>One log explains the system\<close>

definition explains ::
  "('db \<Rightarrow> kv) \<Rightarrow> 'e prost \<Rightarrow> peer list \<Rightarrow> ('s, 'db) system \<Rightarrow> bytes list \<Rightarrow> bool" where
  "explains contents W ms y L \<longleftrightarrow>
     (\<forall>n \<in> ids ms. log_position y n \<le> length L \<and>
        machine_of contents (sv_state (service_at y n)) = run_log W (take (log_position y n) L) \<and>
        (\<forall>a \<in> set (sy_history y n). \<exists>i. outcome_in W L (fst a) (snd a) i))"

definition settled_commands :: "peer list \<Rightarrow> proto \<Rightarrow> bytes list \<Rightarrow> bool" where
  "settled_commands ms g bs \<longleftrightarrow>
     (\<forall>v \<in> ids ms. \<forall>k. settled (majority ms) g v k \<longrightarrow> k \<le> length bs \<and> commands (take k (pl g v)) = take k bs) \<and>
     (bs = [] \<or> (\<exists>v \<in> ids ms. settled (majority ms) g v (length bs)))"

lemma settled_commands_ex:
  assumes "proto_inv (majority ms) g"
  obtains bs where "settled_commands ms g bs"
proof -
  obtain L where L:
    "\<And>v k. v \<in> ids ms \<Longrightarrow> settled (majority ms) g v k \<Longrightarrow> k \<le> length L \<and> take k (pl g v) = take k L"
    "L = [] \<or> (\<exists>v \<in> ids ms. settled (majority ms) g v (length L) \<and> L = take (length L) (pl g v))"
    using settled_log [OF assms] by blast
  then have "settled_commands ms g (commands L)"
    unfolding settled_commands_def by (auto simp: take_map)
  then show thesis by (rule that)
qed

lemma settled_commands_explain:
  assumes "system_rel E contents W ms g y" "settled_commands ms g bs"
  shows "explains contents W ms y bs"
proof -
  have "log_position y n \<le> length bs \<and>
      machine_of contents (sv_state (service_at y n)) = run_log W (take (log_position y n) bs)" if "n \<in> ids ms" for n
    using system_relD(4) [OF assms(1) that] assms(2)
    unfolding app_rel_def result_at_def settled_commands_def by metis
  moreover have "\<exists>i. outcome_in W bs (fst a) (snd a) i" if "n \<in> ids ms" "a \<in> set (sy_history y n)" for n a
    using system_relD(5) [OF assms(1) that] assms(2) outcome_in_prefix
    unfolding answer_at_def settled_commands_def by metis
  ultimately show ?thesis unfolding explains_def by blast
qed

lemma settled_commands_grow:
  assumes "settled_commands ms g bs" "settled_commands ms h bs'" "later ms g h"
  shows "prefix bs bs'"
proof (cases "bs = []")
  case False
  then obtain v where v: "v \<in> ids ms" "settled (majority ms) g v (length bs)"
    using assms(1) by (auto simp: settled_commands_def)
  then have "settled (majority ms) h v (length bs)" "take (length bs) (pl h v) = take (length bs) (pl g v)"
    using assms(3) by (auto simp: later_def)
  then have "bs = take (length bs) bs'"
    using assms(1,2) v unfolding settled_commands_def by (metis order_refl take_all)
  then show ?thesis by (metis take_is_prefix)
qed simp

lemma one_log:
  assumes on: "system_on load save sound fits E contents W disk ms tim y"
    and run: "(system_step E contents W fits ms tim)\<^sup>*\<^sup>* y y'"
  obtains L L' where "prefix L L'" "explains contents W ms y L" "explains contents W ms y' L'"
proof -
  obtain g where g: "system_inv load save sound E contents W ms g y" using system_on_inv [OF on] by blast
  obtain h where h: "later ms g h" "system_inv load save sound E contents W ms h y'"
    using system_inv_run [OF system_onD(1,2) [OF on] run g] by blast
  have p: "proto_inv (majority ms) g" "proto_inv (majority ms) h"
    using g h(2) cluster_relD(1) by (auto simp: system_inv_def)
  obtain bs bs' where b: "settled_commands ms g bs" "settled_commands ms h bs'"
    using settled_commands_ex [OF p(1)] settled_commands_ex [OF p(2)] by metis
  show thesis
    by (rule that [OF settled_commands_grow [OF b h(1)] settled_commands_explain [OF _ b(1)]
          settled_commands_explain [OF _ b(2)], of E])
      (use g h(2) in \<open>auto simp: system_inv_def\<close>)
qed

end
