(* ===== verification/Kv_Scenario.thy ===== *)
theory Kv_Scenario
  imports Kv_Replicated
begin

text \<open>
  Runs of the whole system as executable scripts, and one such run: a single node accepts a
  write, is killed before it has applied it, and comes back to serve a read.
\<close>

section \<open>Scripts\<close>

datatype deed =
    DoTick nat nat
  | DoDrain nat
  | DoRequest nat command
  | DoKill nat
  | DoRestart nat nat

abbreviation no_peers :: "(nat \<times> string) list \<Rightarrow> transport_error + string peer_clients" where
  "no_peers \<equiv> (\<lambda>_. Inr Map.empty)"

text \<open>One deed, with the guards of the corresponding step; timers always draw the minimum.\<close>

fun perform :: "'e prost \<Rightarrow> peer list \<Rightarrow> timing \<Rightarrow> deed \<Rightarrow> ('s, kv) system \<Rightarrow> ('s, kv) system option" where
  "perform W ms tim (DoTick n now) y =
     (if n \<in> ids ms \<and> nd_running (node_at y n)
      then (case decide_step (\<lambda>lo hi. lo) now (node_at y n) of (nd, st) \<Rightarrow>
              Some (y\<lparr>sy_raft := (set_node n nd (sy_raft y))
                \<lparr>cl_calls := cl_calls (sy_raft y) \<union> Pair n ` set (spawn_calls (nd_peer_ids nd) st)\<rparr>\<rparr>))
      else None)"
| "perform W ms tim (DoDrain n) y =
     (if n \<in> ids ms \<and> nd_running (node_at y n)
      then map_option (\<lambda>nd. y\<lparr>sy_raft := set_node n nd (sy_raft y)\<rparr>) (drain_tick (node_at y n)) else None)"
| "perform W ms tim (DoRequest n command) y =
     (if n \<in> ids ms \<and> nd_running (node_at y n)
      then (case execute_begin W command (service_at y n) of (sv, r) \<Rightarrow>
              Some ((put_service n sv y)\<lparr>sy_pending := (sy_pending y)
                (n := (case r of Inr t \<Rightarrow> insert t (sy_pending y n) | Inl _ \<Rightarrow> sy_pending y n))\<rparr>))
      else None)"
| "perform W ms tim (DoKill n) y =
     (if n \<in> ids ms then Some (y\<lparr>sy_raft := set_node n (node_kill (node_at y n)) (sy_raft y)\<rparr>) else None)"
| "perform W ms tim (DoRestart n now) y =
     (if n \<in> ids ms \<and> \<not> nd_running (node_at y n)
      then (case app_start (\<lambda>lo hi. lo) no_peers (config_for ms n) (cm_storage (nd_core (node_at y n))) tim now Map.empty of
              Inl e \<Rightarrow> None
            | Inr (sv, _) \<Rightarrow>
                Some ((put_service n sv y)\<lparr>sy_read := (sy_read y)(n := 0), sy_pending := (sy_pending y)(n := {}),
                  sy_history := (sy_history y)(n := [])\<rparr>))
      else None)"

fun performs :: "'e prost \<Rightarrow> peer list \<Rightarrow> timing \<Rightarrow> deed list \<Rightarrow> ('s, kv) system \<Rightarrow> ('s, kv) system option" where
  "performs W ms tim [] y = Some y"
| "performs W ms tim (d # ds) y = (case perform W ms tim d y of None \<Rightarrow> None | Some y \<Rightarrow> performs W ms tim ds y)"

abbreviation mem_step :: "'e prost \<Rightarrow> peer list \<Rightarrow> timing \<Rightarrow> ('s, kv) system \<Rightarrow> ('s, kv) system \<Rightarrow> bool" where
  "mem_step W \<equiv> system_step mem_engine (\<lambda>db. db) W (\<lambda>_. True)"

text \<open>The commands of a script are values of the Rust type.\<close>

definition deed_ok :: "deed \<Rightarrow> bool" where
  "deed_ok d = (case d of DoRequest n command \<Rightarrow> cmd_fits command | _ \<Rightarrow> True)"

lemma perform_step:
  assumes "perform W ms tim d y = Some y'" "deed_ok d"
  shows "mem_step W ms tim y y'"
proof (cases d)
  case (DoTick n now)
  with assms show ?thesis
    by (auto simp: node_at_def split: if_splits prod.splits intro!: raft driver_step.tick)
next
  case (DoDrain n)
  with assms show ?thesis
    by (auto simp: node_at_def split: if_splits intro!: raft driver_step.drain)
next
  case (DoRequest n command)
  with assms show ?thesis
    by (auto simp: deed_ok_def split: if_splits prod.splits intro!: request)
next
  case (DoKill n)
  with assms show ?thesis
    by (auto simp: node_at_def split: if_splits intro!: raft driver_step.kill)
next
  case (DoRestart n now)
  let ?run = "app_start (\<lambda>lo hi. lo) no_peers (config_for ms n) (cm_storage (nd_core (node_at y n))) tim now (Map.empty :: kv)"
  from DoRestart assms have g: "n \<in> ids ms" "\<not> nd_running (node_at y n)" by (simp_all split: if_splits)
  show ?thesis
  proof (cases ?run)
    case (Inr r)
    obtain sv clients where r: "r = (sv, clients)" by fastforce
    have "mem_step W ms tim y ((put_service n sv y)\<lparr>sy_read := (sy_read y)(n := 0), sy_pending := (sy_pending y)(n := {}),
       sy_history := (sy_history y)(n := [])\<rparr>)"
      by (rule system_step.restart [OF g _ Inr [unfolded r]]) simp
    with assms g Inr r DoRestart show ?thesis by simp
  qed (use assms g DoRestart in simp)
qed

lemma performs_run: "performs W ms tim ds y = Some y' \<Longrightarrow> list_all deed_ok ds \<Longrightarrow> (mem_step W ms tim)\<^sup>*\<^sup>* y y'"
proof (induction ds arbitrary: y)
  case (Cons d ds)
  then obtain y1 where y1: "perform W ms tim d y = Some y1" "performs W ms tim ds y1 = Some y'"
    by (auto split: option.splits)
  show ?case by (rule converse_rtranclp_into_rtranclp [OF perform_step [OF y1(1)] Cons.IH [OF y1(2)]]) (use Cons.prems(2) in simp_all)
qed simp

section \<open>One node, two lives\<close>

definition solo :: "peer list" where
  "solo = [\<lparr>peer_id = 1, peer_addr = ''a:1''\<rparr>]"

definition solo_service :: "(persistent_state, kv) kv_service" where
  "solo_service =
     (case app_start (\<lambda>lo hi. lo) no_peers (config_for solo 1) in_memory_new quick 0 Map.empty of Inr (sv, _) \<Rightarrow> sv)"

definition solo_start :: "(persistent_state, kv) system" where
  "solo_start =
     \<lparr>sy_raft = \<lparr>cl_node = (\<lambda>_. sv_node solo_service), cl_calls = {}, cl_replies = {}\<rparr>,
      sy_service = (\<lambda>_. solo_service), sy_read = (\<lambda>_. 0), sy_pending = (\<lambda>_. {}), sy_history = (\<lambda>_. [])\<rparr>"

text \<open>The node becomes leader and logs an append; killed and restarted it leads again.\<close>

definition solo_script :: "deed list" where
  "solo_script =
     [DoTick 1 1, DoTick 1 2, DoRequest 1 (append_command \<lparr>pr_key = [1], pr_value = [2], pr_client_id = 7, pr_seq = 1\<rparr>),
      DoKill 1, DoRestart 1 10, DoTick 1 11, DoTick 1 12]"

definition solo_read :: "deed list" where
  "solo_read = [DoRequest 1 (get_command [9]), DoDrain 1]"

definition old_command :: command where
  "old_command = (append_command \<lparr>pr_key = [1], pr_value = [2], pr_client_id = 7, pr_seq = 1\<rparr>)\<lparr>cmd_nonce := nonce_of 1 0\<rparr>"

definition new_command :: command where
  "new_command = (get_command [9])\<lparr>cmd_nonce := nonce_of 1 0\<rparr>"

lemma solo_deeds_ok: "list_all deed_ok (solo_script @ solo_read)"
  by (simp add: deed_ok_def solo_script_def solo_read_def cmd_fits_def append_command_def get_command_def command_defs)

lemma solo_restarted:
  "map_option (\<lambda>y. (is_leader (nd_core (node_at y 1)), sv_nonce (service_at y 1), sv_node_id (service_at y 1),
       sv_chans (service_at y 1)))
     (performs (W :: decode_error prost) solo quick solo_script solo_start) = Some (True, 0, 1, 0)"
  by code_simp

lemma solo_drained:
  "map_option (\<lambda>y. (nd_running (node_at y 1), sy_read y 1, nd_applied (node_at y 1),
       raft_log_len (nd_core (node_at y 1)), as_waiters (sv_state (service_at y 1)) (nonce_of 1 0),
       (nonce_of 1 0, 0) \<in> sy_pending y 1))
     (performs (W :: decode_error prost) solo quick (solo_script @ solo_read) solo_start) =
   Some (True, 0, [ApplyCommand \<lparr>ap_index = 1, ap_term = 1, ap_command = prost_encode W old_command\<rparr>,
       ApplyCommand \<lparr>ap_index = 2, ap_term = 2, ap_command = prost_encode W new_command\<rparr>], 2, Some 0, True)"
  by code_simp

abbreviation on_solo :: "(persistent_state, kv) system \<Rightarrow> bool" where
  "on_solo \<equiv> system_on in_memory_load in_memory_save (\<lambda>_. True) (\<lambda>_. True) mem_engine (\<lambda>db. db) plain
     (\<lambda>_. in_memory_new) solo quick"

lemma solo_begins: "system_start (\<lambda>db. db) (\<lambda>_. in_memory_new) solo quick solo_start"
proof -
  have "app_start (\<lambda>lo hi. lo) no_peers (config_for solo 1) in_memory_new quick 0 Map.empty =
      Inr (service_at solo_start 1, Map.empty)"
    by (simp add: solo_start_def service_at_def node_at_def solo_service_def app_start_def start_node_def cm_new_def
        storage_load_def in_memory_new_def in_memory_load_def Let_def)
  moreover have "ids solo = {1}" by (simp add: ids_def solo_def)
  moreover have "storage_load in_memory_new = Inr persistent_default"
    by (simp add: storage_load_def in_memory_new_def in_memory_load_def)
  moreover have "sy_read solo_start n = 0" "sy_pending solo_start n = {}" "sy_history solo_start n = []"
    "cl_calls (sy_raft solo_start) = {}" "cl_replies (sy_raft solo_start) = {}" for n
    by (simp_all add: solo_start_def)
  ultimately show ?thesis unfolding system_start_def by (metis singletonD)
qed

lemma solo_started: "on_solo solo_start"
proof -
  have "boxed in_memory_load in_memory_save (\<lambda>_. True) in_memory_new" by (simp add: boxed_def in_memory_new_def)
  moreover have "members_ok solo" by (simp add: members_ok_def solo_def)
  ultimately show ?thesis
    unfolding system_on_def
    using in_memory.reliable_storage_axioms mem.reliable_engine_axioms system_reach.start [OF solo_begins] by blast
qed

lemma system_on_run:
  assumes "system_on load save sound fits E contents W disk ms tim y" "(system_step E contents W fits ms tim)\<^sup>*\<^sup>* y y'"
  shows "system_on load save sound fits E contents W disk ms tim y'"
proof -
  have "system_reach E contents W fits disk ms tim y'"
    using assms(2) system_onD(4) [OF assms(1)] by induction (blast intro: system_reach.step)+
  with assms(1) show ?thesis by (simp add: system_on_def)
qed

lemma performs_append:
  "performs W ms tim (ds @ es) y = Option.bind (performs W ms tim ds y) (performs W ms tim es)"
  by (induction ds arbitrary: y) (auto split: option.splits)

text \<open>
  A call waits for the nonce 0, and the append is next in the stream.
\<close>

definition stalled :: "(persistent_state, kv) system \<Rightarrow> bool" where
  "stalled z \<longleftrightarrow> on_solo z \<and> (nonce_of 1 0, 0) \<in> sy_pending z 1 \<and> nd_running (node_at z 1) \<and> sy_read z 1 = 0 \<and>
     raft_log_len (nd_core (node_at z 1)) \<le> 2 \<and> as_waiters (sv_state (service_at z 1)) (nonce_of 1 0) = Some 0 \<and>
     nd_applied (node_at z 1) \<noteq> [] \<and>
     nd_applied (node_at z 1) ! 0 = ApplyCommand \<lparr>ap_index = 1, ap_term = 1, ap_command = command_encode plain old_command\<rparr>"

lemma solo_run:
  obtains y sv z where "on_solo y" "stalled z"
    "execute_begin plain (get_command [9]) (service_at y 1) = (sv, Inr (nonce_of 1 0, 0))"
    "(mem_step plain solo quick)\<^sup>*\<^sup>*
       ((put_service 1 sv y)\<lparr>sy_pending := (sy_pending y)(1 := insert (nonce_of 1 0, 0) (sy_pending y 1))\<rparr>) z"
proof -
  from solo_restarted [of plain] obtain y where y: "performs plain solo quick solo_script solo_start = Some y"
    "is_leader (nd_core (node_at y 1))" "sv_nonce (service_at y 1) = 0" "sv_node_id (service_at y 1) = 1"
    "sv_chans (service_at y 1) = 0" by auto
  from solo_drained [of plain] obtain z where z: "performs plain solo quick (solo_script @ solo_read) solo_start = Some z"
    "on_solo z \<longrightarrow> stalled z"
    by (auto simp: stalled_def command_encode_def)
  from leader_accepts [of "service_at y 1" plain "get_command [9]"] y(2-5)
  obtain sv where sv: "execute_begin plain (get_command [9]) (service_at y 1) = (sv, Inr (nonce_of 1 0, 0))"
    by (auto simp: service_is_leader_def)
  let ?x = "(put_service 1 sv y)\<lparr>sy_pending := (sy_pending y)(1 := insert (nonce_of 1 0, 0) (sy_pending y 1))\<rparr>"
  have "performs plain solo quick solo_read y = Some z" using z(1) y(1) by (simp add: performs_append)
  then have "performs plain solo quick [DoDrain 1] ?x = Some z"
    unfolding solo_read_def by (simp add: sv split: if_splits del: One_nat_def performs.simps(1))
  then have "(mem_step plain solo quick)\<^sup>*\<^sup>* ?x z" by (rule performs_run) (simp add: deed_ok_def)
  moreover have "on_solo y" "on_solo z"
    using system_on_run [OF solo_started performs_run [OF _ _]] y(1) z(1) solo_deeds_ok by (auto simp: list_all_append)
  ultimately show thesis using that [OF _ _ sv] z(2) by blast
qed

lemma old_command_decodes: "command_decode plain (command_encode plain old_command) = Inr old_command"
  by (rule plain.command_round_trip) (simp add: cmd_fits_def old_command_def append_command_def command_append_def)

lemma old_command_applied:
  assumes "as_store st = Map.empty" "as_dedup st = Map.empty" "as_keys st = {}" "as_waiters st (nonce_of 1 0) = Some rx"
  shows "as_store (app_apply mem_engine old_command st) = [[1] \<mapsto> [2]]"
    and "as_keys (app_apply mem_engine old_command st) = {[1]}"
    and "as_dedup (app_apply mem_engine old_command st) = [7 \<mapsto> \<lparr>la_seq = 1, la_outcome = OutValue (Some [2])\<rparr>]"
    and "as_chan (app_apply mem_engine old_command st) rx = Some (OutValue (Some [2]))"
  using assms
  by (simp_all add: app_apply_def apply_committed_def app_run_def is_mutation_def old_command_def append_command_def
      command_defs op_try_from_def store_get_def store_put_def mem_engine_def Let_def)

lemma unread_service:
  assumes "on_solo z" "sy_read z 1 = 0"
  shows "as_store (sv_state (service_at z 1)) = Map.empty" "as_dedup (sv_state (service_at z 1)) = Map.empty"
    and "as_keys (sv_state (service_at z 1)) = {}"
proof -
  obtain g where "system_rel mem_engine (\<lambda>db. db) plain solo g z"
    using system_on_inv [OF assms(1)] by (auto simp: system_inv_def)
  then have "app_rel (\<lambda>db. db) plain solo g (log_position z 1) (sv_state (service_at z 1))"
    by (rule system_relD(4)) (simp add: ids_def solo_def)
  then show "as_store (sv_state (service_at z 1)) = Map.empty" "as_dedup (sv_state (service_at z 1)) = Map.empty"
    "as_keys (sv_state (service_at z 1)) = {}"
    using assms(2)
    by (auto simp: app_rel_def result_at_def log_position_def machine_of_def machine_empty_def keys_ok_def)
qed

text \<open>The apply loop takes the old entry, and the new caller is answered.\<close>

lemma stalled_answered:
  assumes "stalled z"
  obtains z' where "mem_step plain solo quick z z'" "on_solo z'" "log_position z' 1 = 1"
    "as_store (sv_state (service_at z' 1)) = [[1] \<mapsto> [2]]" "(nonce_of 1 0, 0) \<in> sy_pending z' 1"
    "execute_end (nonce_of 1 0, 0) (service_at z' 1) = (service_at z' 1, Inr (OutValue (Some [2])))"
    "sv_chans (service_at z' 1) = sv_chans (service_at z 1)"
proof -
  note z = assms [unfolded stalled_def]
  let ?item = "nd_applied (node_at z 1) ! sy_read z 1"
  let ?st = "app_apply mem_engine old_command (sv_state (service_at z 1))"
  let ?sv = "(service_at z 1)\<lparr>sv_state := ?st\<rparr>"
  let ?z = "(put_service 1 ?sv z)\<lparr>sy_read := (sy_read z)(1 := sy_read z 1 + 1),
    sy_history := (sy_history z)(1 := sy_history z 1 @ applied_outcome mem_engine plain ?item (sv_state (service_at z 1)))\<rparr>"
  have on: "on_solo z" "sy_read z 1 = 0" "as_waiters (sv_state (service_at z 1)) (nonce_of 1 0) = Some 0" using z by auto
  note st = old_command_applied [OF unread_service [OF on(1,2)] on(3)]
  have run: "loop_item mem_engine plain sorted_order ?item (service_at z 1) = Some ?sv"
    using z by (simp add: loop_item_def loop_command_def old_command_decodes SNAPSHOT_THRESHOLD_def)
  have "app_fits mem_engine (sv_state ?sv)"
    using st by (simp add: app_fits_def client_fits_def pair_fits_def outcome_fits_def snapshot_value_def mem.get_value)
  then have step: "mem_step plain solo quick z ?z"
    using z by (intro applies [OF _ _ _ refl sorted_order_ok run]) (auto simp: ids_def solo_def)
  moreover have "on_solo ?z" by (rule system_on_run [OF on(1)]) (rule r_into_rtranclp, rule step)
  moreover have "log_position ?z 1 = 1" using z by (simp add: log_position_def take_Suc_conv_app_nth)
  ultimately show thesis using that [of ?z] st z by (simp add: execute_end_def)
qed

lemma solo_applied:
  obtains z z' where "on_solo z" "mem_step plain solo quick z z'" "on_solo z'" "log_position z' 1 = 1"
    "as_store (sv_state (service_at z' 1)) = [[1] \<mapsto> [2]]" "(nonce_of 1 0, 0) \<in> sy_pending z' 1"
    "execute_end (nonce_of 1 0, 0) (service_at z' 1) = (service_at z' 1, Inr (OutValue (Some [2])))"
proof -
  obtain z where z: "stalled z" by (rule solo_run)
  then have "on_solo z" by (simp add: stalled_def)
  from stalled_answered [OF z] that [OF this] show thesis by metis
qed

section \<open>Nonces do not survive a restart\<close>


end
