(* ===== verification/Raft_Origin.thy ===== *)
theory Raft_Origin
  imports Raft_Safety
begin

text \<open>
  Where log entries come from: a command in a node's log, or in an AppendEntries call, was
  there before or was proposed. No step of the drivers, the services or the network makes
  a command up.
\<close>

section \<open>Commands in logs and in calls\<close>

definition said :: "'s consensus_module \<Rightarrow> bytes set" where
  "said cm = le_command ` set (lg_entries (cm_log cm))"

definition in_flight :: "'s cluster \<Rightarrow> bytes set" where
  "in_flight c = {b. \<exists>src p a. (src, CallAppend p a) \<in> cl_calls c \<and> b \<in> le_command ` set (ae_entries a)}"

fun op_says :: "cm_op \<Rightarrow> bytes set" where
  "op_says (SubmitCommand b) = {b}"
| "op_says (HandleAppendEntries rng now args) = le_command ` set (ae_entries args)"
| "op_says _ = {}"

section \<open>One node\<close>

lemma splice_entries_subset:
  "set (lg_entries (splice_entries l i es)) \<subseteq> set (lg_entries l) \<union> set es"
proof (induction es arbitrary: l i)
  case (Cons e es)
  let ?l = "truncate_after l i"
  consider "splice_entries l i (e # es) = splice_entries l (Suc i) es"
    | "splice_entries l i (e # es) = splice_entries (l\<lparr>lg_entries := lg_entries l @ [e]\<rparr>) (Suc i) es"
    | "splice_entries l i (e # es) = splice_entries (?l\<lparr>lg_entries := lg_entries ?l @ [e]\<rparr>) (Suc i) es"
    by (cases "Suc i \<le> lg_snapshot_index l"; cases "term_at l (Suc i)"; cases "term_at l (Suc i) = Some (le_term e)")
      (auto simp: Let_def log_append_def)
  then show ?case
  proof cases
    case 1
    with Cons.IH [of l "Suc i"] show ?thesis by auto
  next
    case 2
    with Cons.IH [of "l\<lparr>lg_entries := lg_entries l @ [e]\<rparr>" "Suc i"] show ?thesis by auto
  next
    case 3
    have "set (lg_entries ?l) \<subseteq> set (lg_entries l)" by (simp add: truncate_after_def set_take_subset)
    with 3 Cons.IH [of "?l\<lparr>lg_entries := lg_entries ?l @ [e]\<rparr>" "Suc i"] show ?thesis by auto
  qed
qed simp

lemma compact_subset: "set (lg_entries (compact l li lt)) \<subseteq> set (lg_entries l)"
  by (auto simp: compact_def Let_def dest: in_set_dropD)

lemma said_append_entries:
  "said (fst (handle_append_entries rng now args cm)) \<subseteq> said cm \<union> le_command ` set (ae_entries args)"
  using splice_entries_subset [of "cm_log cm" "ae_prev_log_index args" "ae_entries args"]
  by (auto simp: said_def handle_append_entries_def accept_entries_def Let_def)

lemma said_install: "said (fst (handle_install_snapshot rng now args cm)) \<subseteq> said cm"
  using compact_subset [of "cm_log cm" "is_last_included_index args" "is_last_included_term args"]
  by (auto simp: said_def handle_install_snapshot_def install_image_def Let_def)

lemma exec_said: "cm_exec op cm = Some cm' \<Longrightarrow> said cm' \<subseteq> said cm \<union> op_says op"
proof (cases op)
  case (TakeSnapshot i data)
  moreover assume "cm_exec op cm = Some cm'"
  ultimately show ?thesis
    using subsetD [OF compact_subset [of "cm_log cm" i]]
    by (auto simp: said_def cm_take_snapshot_def split: if_splits option.splits)
next
  case (SubmitCommand b)
  moreover assume "cm_exec op cm = Some cm'"
  ultimately show ?thesis
    by (cases "cm_role cm = Leader") (auto simp: said_def submit_command_def log_append_def log_entry_new_def Let_def)
next
  case (HandleAppendEntries rng now args)
  moreover assume "cm_exec op cm = Some cm'"
  ultimately show ?thesis using said_append_entries [of rng now args cm] by simp
next
  case (HandleInstallSnapshot rng now args)
  moreover assume "cm_exec op cm = Some cm'"
  ultimately show ?thesis using said_install [of rng now args cm] by simp
qed (auto simp: said_def method_defs Let_def split: if_splits option.splits prod.splits)

section \<open>The cluster\<close>

lemma decide_said:
  assumes "decide_step rng now d = (nd, st)"
  shows "said (nd_core nd) \<subseteq> said (nd_core d)"
    and "CallAppend p a \<in> set (spawn_calls ps st) \<Longrightarrow> le_command ` set (ae_entries a) \<subseteq> said (nd_core d)"
proof -
  have "nd_core nd = nd_core d \<or> nd_core nd = fst (start_election rng now (nd_core d)) \<or>
      nd_core nd = fst (start_pre_election rng now (nd_core d))"
    using assms by (auto simp: decide_step_def Let_def case_prod_beta split: if_splits)
  then show "said (nd_core nd) \<subseteq> said (nd_core d)"
    using exec_said [of "StartElection rng now" "nd_core d"] exec_said [of "StartPreElection rng now" "nd_core d"] by auto
  assume a: "CallAppend p a \<in> set (spawn_calls ps st)"
  then have "is_leader (nd_core d)"
    using assms by (auto simp: decide_step_def Let_def case_prod_beta split: if_splits)
  with a assms obtain due m q where "message_for due (nd_core d) q = Some m" "call_of m = CallAppend p a"
    by (auto simp: decide_step_def Let_def map_filter_mem split: if_splits)
  then have "ae_entries a = entries_after (cm_log (nd_core d)) (ae_prev_log_index a)"
    by (auto simp: message_for_def append_args_for_def Let_def split: if_splits)
  then show "le_command ` set (ae_entries a) \<subseteq> said (nd_core d)"
    by (auto simp: said_def entries_after_def dest!: in_set_dropD)
qed

lemma serve_said:
  assumes "serve_call rng now cl cm = (cm', r)"
  shows "said cm' \<subseteq> said cm \<union> (case cl of CallAppend p a \<Rightarrow> le_command ` set (ae_entries a) | _ \<Rightarrow> {})"
proof (cases cl)
  case (CallPreVote p a)
  with assms exec_said [of "HandleRequestVote rng now a" cm] show ?thesis
    by (auto simp: service_request_vote_def split: prod.splits)
next
  case (CallVote p a)
  with assms exec_said [of "HandleRequestVote rng now a" cm] show ?thesis
    by (auto simp: service_request_vote_def split: prod.splits)
next
  case (CallAppend p a)
  with assms said_append_entries [of rng now a cm] show ?thesis
    by (auto simp: service_append_entries_def split: prod.splits)
next
  case (CallInstall p a)
  with assms said_install [of rng now a cm] show ?thesis
    by (auto simp: service_install_snapshot_def split: prod.splits)
qed

lemma fold_said: "said (fold_reply cl r cm) \<subseteq> said cm"
proof (cases "(cl, r, cm)" rule: fold_reply.cases)
  case (1 p args r core)
  with exec_said [of "RecordPreVoteReply p r" core] show ?thesis by simp
next
  case (2 p args r core)
  with exec_said [of "RecordVoteReply p r" core] show ?thesis by simp
next
  case (3 p args r core)
  with exec_said [of "HandleAppendReply p r (ae_prev_log_index args + length (ae_entries args))" core]
  show ?thesis by simp
next
  case (4 p args r core)
  with exec_said [of "HandleInstallSnapshotReply p r (is_last_included_index args)" core]
  show ?thesis by (simp add: Let_def)
qed simp_all

lemma in_flightI: "(src, CallAppend p a) \<in> cl_calls c \<Longrightarrow> le_command ` set (ae_entries a) \<subseteq> in_flight c"
  by (auto simp: in_flight_def)

lemma driver_said:
  assumes "driver_step fits ms c c'"
  shows "said (core_of c' v) \<subseteq> said (core_of c v) \<union> in_flight c"
  using assms
proof cases
  case (tick n rng now nd st)
  with decide_said(1) [OF tick(4)] show ?thesis by (auto simp: set_node_def core_of_def)
next
  case (drain n nd)
  then show ?thesis
    using exec_said [of TakeApplies "core_of c n"] by (auto simp: set_node_def core_of_def drain_tick_def)
next
  case (serve src cl n rng now core r)
  have "said core \<subseteq> said (core_of c n) \<union> in_flight c"
    using serve_said [OF serve(6)] serve(2) by (cases cl) (auto dest!: in_flightI)
  with serve(1) show ?thesis by (simp add: set_node_def core_of_def)
next
  case (fold n cl r core)
  with fold_said [of cl r "core_of c n"] show ?thesis by (auto simp: set_node_def core_of_def)
next
  case (kill n)
  then show ?thesis by (auto simp: set_node_def core_of_def node_kill_def)
qed

lemma driver_in_flight:
  assumes "driver_step fits ms c c'"
  shows "in_flight c' \<subseteq> in_flight c \<union> (\<Union>n \<in> ids ms. said (core_of c n))"
  using assms
proof cases
  case (tick n rng now nd st)
  have "b \<in> in_flight c \<union> said (core_of c n)" if b: "b \<in> in_flight c'" for b
  proof -
    from b obtain src p a where a: "(src, CallAppend p a) \<in> cl_calls c'" "b \<in> le_command ` set (ae_entries a)"
      by (auto simp: in_flight_def)
    then have "(src, CallAppend p a) \<in> cl_calls c \<or> CallAppend p a \<in> set (spawn_calls (nd_peer_ids nd) st)"
      using tick(1) by auto
    then have "le_command ` set (ae_entries a) \<subseteq> in_flight c \<or> le_command ` set (ae_entries a) \<subseteq> said (core_of c n)"
      using decide_said(2) [OF tick(4)] in_flightI unfolding core_of_def by metis
    with a(2) show ?thesis by blast
  qed
  with tick(2) show ?thesis by blast
qed (auto simp: set_node_def in_flight_def)

end
