(* ===== verification/Kv_Order.thy ===== *)
theory Kv_Order
  imports Kv_Scenario Raft_Origin
begin

text \<open>
  The order of operations in real time: a call that begins after another has been answered
  comes after it in the one log that explains the system. Nonces make this an argument
  about freshness: when a call begins, no log and no message contains its nonce, so its
  command can only enter the log behind everything that is settled by then. The nonces of
  a node are fresh within one life of the node only (\<open>restart_confuses_callers\<close>).
\<close>

section \<open>Everything the nodes ever logged\<close>

definition logs_in :: "peer list \<Rightarrow> bytes set \<Rightarrow> proto \<Rightarrow> ('s, 'db) system \<Rightarrow> bool" where
  "logs_in ms P g y \<longleftrightarrow> (\<forall>v \<in> ids ms. le_command ` set (pl g v) \<subseteq> P) \<and> in_flight (sy_raft y) \<subseteq> P"

lemma logs_in_mono: "logs_in ms P g y \<Longrightarrow> P \<subseteq> P' \<Longrightarrow> logs_in ms P' g y"
  by (auto simp: logs_in_def)

lemma logs_in_said:
  assumes "logs_in ms P g y" "cluster_rel ms g (sy_raft y)" "v \<in> ids ms"
  shows "said (core_of (sy_raft y) v) \<subseteq> P"
proof -
  have "represents (pl g v) (cm_log (core_of (sy_raft y) v))" using node_relD(8) cluster_relD(2) assms(2,3) by blast
  then have "set (lg_entries (cm_log (core_of (sy_raft y) v))) \<subseteq> set (pl g v)"
    by (simp add: representsD(2) set_drop_subset)
  with assms(1,3) show ?thesis by (auto simp: logs_in_def said_def)
qed

lemma core_base_settled:
  assumes "cluster_rel ms g c" "v \<in> ids ms" "k \<le> cm_commit_index (core_of c v)"
  shows "settled (majority ms) g v k"
  using assms(3) node_relD(9) [OF cluster_relD(2) [OF assms(1,2)]] by (simp add: pc_settled [OF cluster_relD(1) [OF assms(1)]])

text \<open>
  What a node's log stands for is its entries and the prefix it compacted, and that prefix
  was settled before.
\<close>

lemma logs_in_step:
  assumes rel: "cluster_rel ms h (sy_raft y')" and later: "later ms g h"
    and old: "logs_in ms P g y" "P \<subseteq> P'"
    and new: "\<And>v. v \<in> ids ms \<Longrightarrow> said (core_of (sy_raft y') v) \<subseteq> P'" "in_flight (sy_raft y') \<subseteq> P'"
    and base: "\<And>v. v \<in> ids ms \<Longrightarrow>
      \<exists>u \<in> ids ms. settled (majority ms) g u (lg_snapshot_index (cm_log (core_of (sy_raft y') v)))"
  shows "logs_in ms P' h y'"
proof -
  have "le_command ` set (pl h v) \<subseteq> P'" if v: "v \<in> ids ms" for v
  proof -
    let ?cm = "core_of (sy_raft y') v"
    let ?s = "lg_snapshot_index (cm_log ?cm)"
    have node: "represents (pl h v) (cm_log ?cm)" "cm_inv ?cm" using node_relD(5,8) cluster_relD(2) rel v by blast+
    obtain u where u: "u \<in> ids ms" "settled (majority ms) g u ?s" using base [OF v] by blast
    then have u': "settled (majority ms) h u ?s" "take ?s (pl h u) = take ?s (pl g u)" using later by (auto simp: later_def)
    have "settled (majority ms) h v ?s"
      by (rule core_base_settled [OF rel v]) (use cm_invD(3-5) [OF node(2)] in simp)
    then have "take ?s (pl h v) = take ?s (pl g u)"
      using members.settled_agree [OF cluster_relD(1) [OF rel] _ u'(1)] u'(2) by metis
    moreover have "set (take ?s (pl g u)) \<subseteq> set (pl g u)" by (rule set_take_subset)
    ultimately have "le_command ` set (take ?s (pl h v)) \<subseteq> P'" using old u(1) unfolding logs_in_def by (metis image_mono order_trans)
    moreover have "le_command ` set (drop ?s (pl h v)) \<subseteq> P'"
      using new(1) [OF v] representsD(2) [OF node(1)] by (simp add: said_def)
    ultimately have "le_command ` set (take ?s (pl h v) @ drop ?s (pl h v)) \<subseteq> P'" by (simp only: set_append image_Un Un_least)
    then show ?thesis by simp
  qed
  with new(2) show ?thesis by (simp add: logs_in_def)
qed

section \<open>What a step adds\<close>

lemma settled_image:
  assumes "image_at E contents W ms g k data"
  shows "\<exists>u \<in> ids ms. settled (majority ms) g u k"
  using assms by (auto simp: image_at_def result_at_def)

text \<open>A compacted prefix was settled before the step that compacted it.\<close>

lemma step_base_settled:
  assumes step: "system_step E contents W fits ms tim y y'" and inv: "system_inv load save sound E contents W ms g y"
    and v: "v \<in> ids ms"
  shows "\<exists>u \<in> ids ms. settled (majority ms) g u (lg_snapshot_index (cm_log (core_of (sy_raft y') v)))"
proof -
  let ?c = "core_of (sy_raft y)" and ?c' = "core_of (sy_raft y')"
  have rel: "cluster_rel ms g (sy_raft y)" and sys: "system_rel E contents W ms g y" and disk: "mirrored (?c v)"
    using inv v by (auto simp: system_inv_def)
  have cm: "cm_inv (?c v)" using node_relD(5) cluster_relD(2) [OF rel v] by blast
  have applied: "settled (majority ms) g v k" if "k \<le> cm_last_applied (?c v)" for k
    by (rule core_base_settled [OF rel v]) (use cm_invD(4) [OF cm] that in simp)
  have same: ?thesis if "cm_log (?c' v) = cm_log (?c v) \<or> snap_view (?c' v) = snap_view (?c v)"
    using that applied [OF cm_invD(3) [OF cm]] v by (auto simp: snap_view_def)
  from step show ?thesis
  proof cases
    case (raft c)
    from raft(2) show ?thesis
    proof (rule driver_view [where v = v])
      assume "snap_view (core_of c v) = snap_view (?c v)"
      with raft(1) same show ?thesis by simp
    next
      fix items assume "take_applies (?c v) = Some (core_of c v, items)"
      then have "cm_log (core_of c v) = cm_log (?c v)" by (auto simp: take_applies_def Let_def split: option.splits dest!: sym [of _ "core_of c v"])
      with raft(1) same show ?thesis by simp
    next
      fix src p a rng now
      assume a: "(src, CallInstall p a) \<in> cl_calls (sy_raft y)"
        "core_of c v = fst (handle_install_snapshot rng now a (?c v))"
      have "lg_snapshot_index (cm_log (core_of c v)) = lg_snapshot_index (cm_log (?c v)) \<or>
          lg_snapshot_index (cm_log (core_of c v)) = is_last_included_index a"
        using a(2) by (simp add: handle_install_snapshot_def install_image_def Let_def compact_snapshot_index max_def)
      with raft(1) settled_image [OF system_relD(6) [OF sys a(1)]] applied [OF cm_invD(3) [OF cm]] v
      show ?thesis by auto
    qed
  next
    case (request n command sv r)
    obtain bs res where "node_propose bs (node_at y n) = (sv_node sv, res)" using execute_begin_node [OF request(4)] by auto
    then have "nd_core (sv_node sv) = fst (submit_command bs (nd_core (node_at y n)))"
      by (auto simp: node_propose_def split: prod.splits dest!: sym [of _ "sv_node sv"])
    with exec_snap_view [of "SubmitCommand bs" "nd_core (node_at y n)"]
    have "snap_view (nd_core (sv_node sv)) = snap_view (nd_core (node_at y n))" by simp
    with request(1) have "snap_view (?c' v) = snap_view (?c v)" by (simp add: core_at)
    with same show ?thesis by blast
  next
    case (answer n t sv r)
    with execute_end_node [OF answer(5)] same show ?thesis by (simp add: core_at)
  next
    case (applies n item H sv)
    from loop_item_node [OF applies(7)] show ?thesis
    proof
      assume "sv_node sv = sv_node (service_at y n)"
      with applies(1) same show ?thesis by (simp add: core_at)
    next
      assume "\<exists>entry. item = ApplyCommand entry \<and>
        control_snapshot (ap_index entry) (build_snapshot E H (sv_state sv)) (sv_node (service_at y n)) = Some (sv_node sv)"
      then obtain i data where t: "cm_take_snapshot i data (nd_core (node_at y n)) = Some (nd_core (sv_node sv))"
        by (auto simp: control_snapshot_def dest!: sym [of _ "sv_node sv"])
      then have "nd_core (sv_node sv) = nd_core (node_at y n) \<or>
          lg_snapshot_index (cm_log (nd_core (sv_node sv))) = i \<and> i \<le> cm_last_applied (nd_core (node_at y n))"
        by (auto simp: cm_take_snapshot_def compact_snapshot_index max_def split: if_splits option.splits
            dest!: sym [of _ "nd_core (sv_node sv)"])
      with applies(1) same applied v show ?thesis by (cases "v = n") (auto simp: core_at)
    qed
  next
    case (restart n db rng connect now sv clients)
    have "cm_log (nd_core (sv_node sv)) = cm_log (?c n)" if "v = n"
      using cm_new_snapshot(2) [OF start_node_config(1) [OF app_start_node(1) [OF restart(5)]]] disk that
      by (simp add: mirrored_def persistent_of_def core_at)
    with restart(1) same show ?thesis by (cases "v = n") (auto simp: core_at)
  qed
qed

text \<open>The commands that a step proposes: one with the next nonce of the node that took a request.\<close>

definition issued :: "'e prost \<Rightarrow> peer list \<Rightarrow> ('s, 'db) system \<Rightarrow> ('s, 'db) system \<Rightarrow> bytes set" where
  "issued W ms y y' =
     {b. \<exists>v c. v \<in> ids ms \<and> cmd_fits c \<and> sv_chans (service_at y' v) = Suc (sv_chans (service_at y v)) \<and>
        b = command_encode W (c\<lparr>cmd_nonce := nonce_of (sv_node_id (service_at y v)) (sv_nonce (service_at y v))\<rparr>)}"

lemma begin_said:
  assumes "execute_begin W command sv = (sv', r)"
  shows "said (nd_core (sv_node sv')) \<subseteq> said (nd_core (sv_node sv)) \<union>
    {command_encode W (command\<lparr>cmd_nonce := nonce_of (sv_node_id sv) (sv_nonce sv)\<rparr>)}"
proof -
  let ?b = "command_encode W (command\<lparr>cmd_nonce := nonce_of (sv_node_id sv) (sv_nonce sv)\<rparr>)"
  have "nd_core (sv_node sv') = fst (submit_command ?b (nd_core (sv_node sv)))"
    using assms
    by (auto simp: execute_begin_def next_nonce_def set_waiter_def node_propose_def Let_def split: prod.splits option.splits)
  with exec_said [of "SubmitCommand ?b" "nd_core (sv_node sv)"] show ?thesis by simp
qed

lemma loop_said:
  assumes "loop_item E W H item sv = Some sv'"
  shows "said (nd_core (sv_node sv')) \<subseteq> said (nd_core (sv_node sv))"
proof -
  have snap: "said (nd_core nd) \<subseteq> said (nd_core (sv_node sv))" if "control_snapshot i data (sv_node sv) = Some nd" for i data nd
    using that exec_said [of "TakeSnapshot i data" "nd_core (sv_node sv)" "nd_core nd"] by (auto simp: control_snapshot_def)
  from loop_item_node [OF assms] show ?thesis by (elim disjE exE conjE) (simp_all add: snap)
qed

lemma step_said:
  assumes step: "system_step E contents W fits ms tim y y'" and disk: "mirrored (core_of (sy_raft y) v)"
  shows "said (core_of (sy_raft y') v) \<subseteq> said (core_of (sy_raft y) v) \<union> in_flight (sy_raft y) \<union> issued W ms y y'"
  using step
proof cases
  case (raft c)
  with driver_said [OF raft(2), of v] show ?thesis by auto
next
  case (request n command sv r)
  let ?b = "command_encode W (command\<lparr>cmd_nonce := nonce_of (sv_node_id (service_at y n)) (sv_nonce (service_at y n))\<rparr>)"
  have "sv_chans (service_at y' n) = Suc (sv_chans (service_at y n))"
    using request(1) execute_begin_effect(2) [OF request(4)] by simp
  then have "?b \<in> issued W ms y y'" unfolding issued_def using request(2,6) by blast
  with begin_said [OF request(4)] request(1) show ?thesis by (auto simp: core_at)
next
  case (answer n t sv r)
  with execute_end_node [OF answer(5)] show ?thesis by (auto simp: core_at)
next
  case (applies n item H sv)
  with loop_said [OF applies(7)] show ?thesis by (auto simp: core_at)
next
  case (restart n db rng connect now sv clients)
  have "cm_log (nd_core (sv_node sv)) = cm_log (core_of (sy_raft y) n)" if "v = n"
    using cm_new_snapshot(2) [OF start_node_config(1) [OF app_start_node(1) [OF restart(5)]]] disk that
    by (simp add: mirrored_def persistent_of_def core_at)
  with restart(1) show ?thesis by (auto simp: core_at said_def)
qed

lemma step_in_flight:
  assumes "system_step E contents W fits ms tim y y'"
  shows "in_flight (sy_raft y') \<subseteq> in_flight (sy_raft y) \<union> (\<Union>n \<in> ids ms. said (core_of (sy_raft y) n))"
  using assms
proof cases
  case (raft c)
  with driver_in_flight [OF raft(2)] show ?thesis by simp
qed (auto simp: in_flight_def)

lemma logs_in_after:
  assumes step: "system_step E contents W fits ms tim y y'" and later: "later ms g h"
    and inv: "system_inv load save sound E contents W ms g y" "system_inv load save sound E contents W ms h y'"
    and old: "logs_in ms P g y" "P \<subseteq> P'"
    and new: "\<And>v. v \<in> ids ms \<Longrightarrow>
      said (core_of (sy_raft y') v) \<subseteq> said (core_of (sy_raft y) v) \<union> in_flight (sy_raft y) \<union> P'"
  shows "logs_in ms P' h y'"
proof -
  have rel: "cluster_rel ms g (sy_raft y)" "cluster_rel ms h (sy_raft y')" using inv by (simp_all add: system_inv_def)
  have flight: "in_flight (sy_raft y) \<subseteq> P" using old(1) by (simp add: logs_in_def)
  show ?thesis
  proof (rule logs_in_step [OF rel(2) later old])
    show "said (core_of (sy_raft y') v) \<subseteq> P'" if "v \<in> ids ms" for v
      using new [OF that] logs_in_said [OF old(1) rel(1) that] flight old(2) by blast
    show "in_flight (sy_raft y') \<subseteq> P'"
      using step_in_flight [OF step] logs_in_said [OF old(1) rel(1)] flight old(2) by blast
    show "\<exists>u \<in> ids ms. settled (majority ms) g u (lg_snapshot_index (cm_log (core_of (sy_raft y') v)))"
      if "v \<in> ids ms" for v
      by (rule step_base_settled [OF step inv(1) that])
  qed
qed

section \<open>Nonces\<close>

text \<open>A node's service keeps the id of its node.\<close>

lemma app_start_id:
  assumes "app_start rng connect (config_for ms n) st tim now db = Inr (sv, clients)"
  shows "sv_node_id sv = n" "sv_chans sv = 0"
  using assms by (auto simp: app_start_def Let_def res_bind_Inr_iff config_for_def)

lemma service_node_id:
  assumes "system_reach E contents W fits disk ms tim y" "n \<in> ids ms"
  shows "sv_node_id (service_at y n) = n"
  using assms(1)
proof induction
  case (start y)
  then obtain rng connect now clients db where
    "app_start rng connect (config_for ms n) (disk n) tim now db = Inr (service_at y n, clients :: string peer_clients)"
    using assms(2) unfolding system_start_def by blast
  then show ?case by (rule app_start_id(1))
next
  case (step y y')
  from step.hyps(2) show ?case
  proof cases
    case (raft c)
    with step.IH show ?thesis by (simp add: service_at_def)
  next
    case (request v command sv r)
    with step.IH execute_begin_effect(3) [OF request(4)] show ?thesis by (cases "v = n") simp_all
  next
    case (answer v t sv r)
    with step.IH show ?thesis
      by (auto simp: execute_end_def set_waiter_def split: prod.splits option.splits)
  next
    case (applies v item H sv)
    with step.IH loop_item_frame(1) [OF applies(7)] show ?thesis by (cases "v = n") simp_all
  next
    case (restart v db rng connect now sv clients)
    with step.IH app_start_id(1) [OF restart(5)] show ?thesis by (cases "v = n") simp_all
  qed
qed

lemma service_nonce:
  assumes "system_reach E contents W fits disk ms tim y" "n \<in> ids ms"
  shows "sv_nonce (service_at y n) = word_of_nat (sv_chans (service_at y n))"
  using service_invD(1) [OF service_reach_inv [OF system_service [OF assms]]] by simp

text \<open>The bytes whose nonce, if it is one of node \<open>n\<close>, belongs to a request before number \<open>k\<close>.\<close>

definition before :: "'e prost \<Rightarrow> nat \<Rightarrow> nat \<Rightarrow> bytes set" where
  "before W n k =
     {b. \<forall>c j. command_decode W b = Inr c \<longrightarrow> cmd_nonce c = nonce_of n (word_of_nat j) \<longrightarrow> j < 2 ^ 48 \<longrightarrow> j < k}"

text \<open>The bytes that, if they have the nonce of \<open>command\<close>, are its encoding.\<close>

definition only_as :: "'e prost \<Rightarrow> command \<Rightarrow> bytes set" where
  "only_as W command = {b. \<forall>c. command_decode W b = Inr c \<longrightarrow> cmd_nonce c = cmd_nonce command \<longrightarrow> c = command}"

lemma before_mono: "k \<le> k' \<Longrightarrow> before W n k \<subseteq> before W n k'"
  by (fastforce simp: before_def)

lemma before_only:
  assumes "k < 2 ^ 48" "cmd_nonce command = nonce_of n (word_of_nat k)"
  shows "before W n k \<subseteq> only_as W command"
  using assms by (fastforce simp: before_def only_as_def)

lemma nonce_node:
  assumes "m < 2 ^ 16" "n < 2 ^ 16" "nonce_of m a = nonce_of n b"
  shows "m = n"
  using small_word_inj [OF assms(1,2)] nonce_high [of m a] nonce_high [of n b] assms(3) by simp

lemma issued_decodes:
  assumes reach: "system_reach E contents W fits disk ms tim y" and W: "prost_message W" and b: "b \<in> issued W ms y y'"
  obtains v c where "v \<in> ids ms" "sv_chans (service_at y' v) = Suc (sv_chans (service_at y v))"
    "command_decode W b = Inr c" "cmd_nonce c = nonce_of v (word_of_nat (sv_chans (service_at y v)))"
proof -
  from b obtain v c where v: "v \<in> ids ms" "cmd_fits c" "sv_chans (service_at y' v) = Suc (sv_chans (service_at y v))"
    and b: "b = command_encode W (c\<lparr>cmd_nonce := nonce_of v (word_of_nat (sv_chans (service_at y v)))\<rparr>)"
    using service_node_id [OF reach] service_nonce [OF reach] unfolding issued_def by auto
  have "cmd_fits (c\<lparr>cmd_nonce := nonce_of v (word_of_nat (sv_chans (service_at y v)))\<rparr>)"
    using v(2) by (simp add: cmd_fits_def)
  with prost_message.command_round_trip [OF W this] v b that show thesis by auto
qed

lemma issued_before:
  assumes reach: "system_reach E contents W fits disk ms tim y" and W: "prost_message W"
    and small: "\<And>m. m \<in> ids ms \<Longrightarrow> m < 2 ^ 16" and n: "n \<in> ids ms"
  shows "issued W ms y y' \<subseteq> before W n (sv_chans (service_at y' n))"
proof
  fix b assume "b \<in> issued W ms y y'"
  then obtain v c where v: "v \<in> ids ms" "sv_chans (service_at y' v) = Suc (sv_chans (service_at y v))"
    and c: "command_decode W b = Inr c" "cmd_nonce c = nonce_of v (word_of_nat (sv_chans (service_at y v)))"
    by (rule issued_decodes [OF reach W])
  have "j < sv_chans (service_at y' n)" if j: "cmd_nonce c = nonce_of n (word_of_nat j)" "j < 2 ^ 48" for j
  proof -
    have "v = n" using nonce_node small v(1) n j(1) c(2) by metis
    with j nonce_own_inj [of "sv_chans (service_at y n)" j n] v(2) c(2) show ?thesis
      by (cases "sv_chans (service_at y n) < 2 ^ 48") auto
  qed
  with c(1) show "b \<in> before W n (sv_chans (service_at y' n))" by (simp add: before_def)
qed

lemma issued_only:
  assumes reach: "system_reach E contents W fits disk ms tim y" and W: "prost_message W"
    and small: "\<And>m. m \<in> ids ms \<Longrightarrow> m < 2 ^ 16" and n: "n \<in> ids ms"
    and command: "cmd_nonce command = nonce_of n (word_of_nat k)" "k < sv_chans (service_at y n)"
    and few: "sv_chans (service_at y' n) \<le> 2 ^ 48"
  shows "issued W ms y y' \<subseteq> only_as W command"
proof
  fix b assume "b \<in> issued W ms y y'"
  then obtain v c where v: "v \<in> ids ms" "sv_chans (service_at y' v) = Suc (sv_chans (service_at y v))"
    and c: "command_decode W b = Inr c" "cmd_nonce c = nonce_of v (word_of_nat (sv_chans (service_at y v)))"
    by (rule issued_decodes [OF reach W])
  have "cmd_nonce c \<noteq> cmd_nonce command"
  proof
    assume eq: "cmd_nonce c = cmd_nonce command"
    then have "v = n" using nonce_node small v(1) n c(2) command(1) by metis
    with eq nonce_own_inj [of "sv_chans (service_at y n)" k n] v(2) c(2) command few show False by auto
  qed
  with c(1) show "b \<in> only_as W command" by (simp add: only_as_def)
qed

section \<open>One life\<close>

text \<open>A step in which node \<open>n\<close> is not restarted, and states reached by such steps.\<close>

definition life_step ::
  "'db sable \<Rightarrow> ('db \<Rightarrow> kv) \<Rightarrow> 'e prost \<Rightarrow> (persistent_state \<Rightarrow> bool) \<Rightarrow> peer list \<Rightarrow> timing \<Rightarrow> nat \<Rightarrow>
   ('s, 'db) system \<Rightarrow> ('s, 'db) system \<Rightarrow> bool" where
  "life_step E contents W fits ms tim n y y' \<longleftrightarrow>
     system_step E contents W fits ms tim y y' \<and> (nd_running (node_at y' n) \<longrightarrow> nd_running (node_at y n))"

definition first_life ::
  "'db sable \<Rightarrow> ('db \<Rightarrow> kv) \<Rightarrow> 'e prost \<Rightarrow> (persistent_state \<Rightarrow> bool) \<Rightarrow> (nat \<Rightarrow> 's dyn_storage) \<Rightarrow>
   peer list \<Rightarrow> timing \<Rightarrow> nat \<Rightarrow> ('s, 'db) system \<Rightarrow> bool" where
  "first_life E contents W fits disk ms tim n y \<longleftrightarrow>
     (\<exists>y0. system_start contents disk ms tim y0 \<and> (life_step E contents W fits ms tim n)\<^sup>*\<^sup>* y0 y)"

lemma life_chans:
  assumes "life_step E contents W fits ms tim n y y'"
  shows "sv_chans (service_at y n) \<le> sv_chans (service_at y' n)"
proof -
  from assms have step: "system_step E contents W fits ms tim y y'"
    and up: "nd_running (node_at y' n) \<Longrightarrow> nd_running (node_at y n)" by (auto simp: life_step_def)
  from step show ?thesis
  proof cases
    case (raft c)
    then show ?thesis by (simp add: service_at_def)
  next
    case (request v command sv r)
    with execute_begin_effect(2) [OF request(4)] show ?thesis by simp
  next
    case (answer v t sv r)
    then show ?thesis by (auto simp: execute_end_def set_waiter_def split: prod.splits option.splits)
  next
    case (applies v item H sv)
    with loop_item_frame(3) [OF applies(7)] show ?thesis by simp
  next
    case (restart v db rng connect now sv clients)
    with up start_node_config(4) [OF app_start_node(1) [OF restart(5)]] show ?thesis by (cases "v = n") auto
  qed
qed

lemma life_chans_run:
  "(life_step E contents W fits ms tim n)\<^sup>*\<^sup>* y y' \<Longrightarrow> sv_chans (service_at y n) \<le> sv_chans (service_at y' n)"
  by (induction rule: rtranclp_induct) (auto intro: order_trans life_chans)

lemma life_run: "(life_step E contents W fits ms tim n)\<^sup>*\<^sup>* y y' \<Longrightarrow> (system_step E contents W fits ms tim)\<^sup>*\<^sup>* y y'"
  by (induction rule: rtranclp_induct) (auto simp: life_step_def)

lemma start_logs: "system_start contents disk ms tim y \<Longrightarrow> logs_in ms {} proto_init y"
  by (simp add: logs_in_def proto_init_def in_flight_def system_start_def)

text \<open>In its first life a node's logged nonces are those of the requests it has counted.\<close>

lemma first_life_logs:
  assumes on: "system_on load save sound fits E contents W disk ms tim y" and life: "first_life E contents W fits disk ms tim n y"
    and W: "prost_message W" and small: "\<And>m. m \<in> ids ms \<Longrightarrow> m < 2 ^ 16" and n: "n \<in> ids ms"
  shows "\<exists>g. system_inv load save sound E contents W ms g y \<and> logs_in ms (before W n (sv_chans (service_at y n))) g y"
proof -
  from life obtain y0 where y0: "system_start contents disk ms tim y0" and run: "(life_step E contents W fits ms tim n)\<^sup>*\<^sup>* y0 y"
    by (auto simp: first_life_def)
  have on0: "system_on load save sound fits E contents W disk ms tim y0"
    using on y0 by (simp add: system_on_def system_reach.start)
  from run show ?thesis
  proof (induction rule: rtranclp_induct)
    case base
    from start_rel [OF system_onD(3) [OF on] system_start_cluster [OF y0]] system_onD(5) [OF on] system_start_rel [OF y0]
    have "system_inv load save sound E contents W ms proto_init y0" unfolding system_inv_def by fastforce
    with logs_in_mono [OF start_logs [OF y0]] show ?case by blast
  next
    case (step a b)
    then obtain g where g: "system_inv load save sound E contents W ms g a"
      "logs_in ms (before W n (sv_chans (service_at a n))) g a" by blast
    from step(2) have ab: "system_step E contents W fits ms tim a b" by (simp add: life_step_def)
    obtain h where h: "later ms g h" "system_inv load save sound E contents W ms h b"
      using system_inv_step [OF system_onD(1,2) [OF on] ab g(1)] by blast
    have reach: "system_reach E contents W fits disk ms tim a"
      by (rule system_onD(4) [OF system_on_run [OF on0 life_run [OF step(1)]]])
    have "logs_in ms (before W n (sv_chans (service_at b n))) h b"
    proof (rule logs_in_after [OF ab h(1) g(1) h(2) g(2) before_mono [OF life_chans [OF step(2)]]])
      fix v assume "v \<in> ids ms"
      then have "mirrored (core_of (sy_raft a) v)" using g(1) by (simp add: system_inv_def)
      with step_said [OF ab] issued_before [OF reach W small n, of b]
      show "said (core_of (sy_raft b) v) \<subseteq> said (core_of (sy_raft a) v) \<union> in_flight (sy_raft a) \<union>
          before W n (sv_chans (service_at b n))" by blast
    qed
    with h(2) show ?case by blast
  qed
qed

section \<open>A call\<close>

text \<open>The system after node \<open>n\<close> has accepted a request, whose handler now waits with ticket \<open>t\<close>.\<close>

abbreviation begun :: "nat \<Rightarrow> ('s, 'db) kv_service \<Rightarrow> 64 word \<times> nat \<Rightarrow> ('s, 'db) system \<Rightarrow> ('s, 'db) system" where
  "begun n sv t y \<equiv> (put_service n sv y)\<lparr>sy_pending := (sy_pending y)(n := insert t (sy_pending y n))\<rparr>"

text \<open>
  \<open>call_run\<close>: in \<open>y\<close>, in the first life of node \<open>n\<close>, the node accepts a request, and \<open>y'\<close> is
  reached from there within the same life and before the nonce counter wraps around.
\<close>

definition call_run ::
  "'db sable \<Rightarrow> ('db \<Rightarrow> kv) \<Rightarrow> 'e prost \<Rightarrow> (persistent_state \<Rightarrow> bool) \<Rightarrow> (nat \<Rightarrow> 's dyn_storage) \<Rightarrow>
   peer list \<Rightarrow> timing \<Rightarrow> nat \<Rightarrow> command \<Rightarrow> 64 word \<times> nat \<Rightarrow> ('s, 'db) system \<Rightarrow> ('s, 'db) system \<Rightarrow> bool" where
  "call_run E contents W fits disk ms tim n command t y y' \<longleftrightarrow>
     n \<in> ids ms \<and> first_life E contents W fits disk ms tim n y \<and> nd_running (node_at y n) \<and> cmd_fits command \<and>
     (\<exists>sv. execute_begin W command (service_at y n) = (sv, Inr t) \<and> fits (persistent_of (nd_core (sv_node sv))) \<and>
        (life_step E contents W fits ms tim n)\<^sup>*\<^sup>* (begun n sv t y) y' \<and> sv_chans (service_at y' n) \<le> 2 ^ 48)"

lemma begun_step:
  assumes "n \<in> ids ms" "nd_running (node_at y n)" "cmd_fits command"
    and "execute_begin W command (service_at y n) = (sv, Inr t)" "fits (persistent_of (nd_core (sv_node sv)))"
  shows "system_step E contents W fits ms tim y (begun n sv t y)"
  using request [of n ms y W command sv "Inr t" fits E contents tim] assms by simp

lemma later_life_logs:
  assumes on: "system_on load save sound fits E contents W disk ms tim y" and W: "prost_message W"
    and small: "\<And>m. m \<in> ids ms \<Longrightarrow> m < 2 ^ 16" and n: "n \<in> ids ms"
    and inv: "system_inv load save sound E contents W ms g y" and logs: "logs_in ms (only_as W command) g y"
    and command: "cmd_nonce command = nonce_of n (word_of_nat k)" "k < sv_chans (service_at y n)"
    and run: "(life_step E contents W fits ms tim n)\<^sup>*\<^sup>* y y'" and few: "sv_chans (service_at y' n) \<le> 2 ^ 48"
  shows "\<exists>h. later ms g h \<and> system_inv load save sound E contents W ms h y' \<and> logs_in ms (only_as W command) h y'"
  using run few
proof (induction rule: rtranclp_induct)
  case base
  with inv logs later_refl show ?case by blast
next
  case (step a b)
  then have "sv_chans (service_at a n) \<le> 2 ^ 48" using life_chans [OF step(2)] by simp
  with step.IH obtain h where h: "later ms g h" "system_inv load save sound E contents W ms h a"
    "logs_in ms (only_as W command) h a" by blast
  from step(2) have ab: "system_step E contents W fits ms tim a b" by (simp add: life_step_def)
  obtain f where f: "later ms h f" "system_inv load save sound E contents W ms f b"
    using system_inv_step [OF system_onD(1,2) [OF on] ab h(2)] by blast
  have reach: "system_reach E contents W fits disk ms tim a"
    by (rule system_onD(4) [OF system_on_run [OF on life_run [OF step(1)]]])
  have k: "k < sv_chans (service_at a n)" using command(2) life_chans_run [OF step(1)] by simp
  have "logs_in ms (only_as W command) f b"
  proof (rule logs_in_after [OF ab f(1) h(2) f(2) h(3) order_refl])
    fix v assume "v \<in> ids ms"
    then have "mirrored (core_of (sy_raft a) v)" using h(2) by (simp add: system_inv_def)
    with step_said [OF ab] issued_only [OF reach W small n command(1) k step.prems]
    show "said (core_of (sy_raft b) v) \<subseteq> said (core_of (sy_raft a) v) \<union> in_flight (sy_raft a) \<union> only_as W command" by blast
  qed
  with f later_trans [OF h(1)] show ?case by blast
qed

lemma call_logs:
  assumes on: "system_on load save sound fits E contents W disk ms tim y" and W: "prost_message W"
    and small: "\<And>m. m \<in> ids ms \<Longrightarrow> m < 2 ^ 16" and call: "call_run E contents W fits disk ms tim n command (nonce, rx) y y'"
  obtains g h where "later ms g h" "system_inv load save sound E contents W ms g y" "system_inv load save sound E contents W ms h y'"
    "logs_in ms (before W n rx) g y" "logs_in ms (only_as W (command\<lparr>cmd_nonce := nonce\<rparr>)) h y'"
    "nonce = nonce_of n (word_of_nat rx)" "rx < 2 ^ 48"
proof -
  let ?c = "command\<lparr>cmd_nonce := nonce\<rparr>"
  from call obtain sv where n: "n \<in> ids ms" and life: "first_life E contents W fits disk ms tim n y"
    and req: "nd_running (node_at y n)" "cmd_fits command" "execute_begin W command (service_at y n) = (sv, Inr (nonce, rx))"
      "fits (persistent_of (nd_core (sv_node sv)))"
    and run: "(life_step E contents W fits ms tim n)\<^sup>*\<^sup>* (begun n sv (nonce, rx) y) y'" and few: "sv_chans (service_at y' n) \<le> 2 ^ 48"
    unfolding call_run_def by blast
  let ?y = "begun n sv (nonce, rx) y"
  note reach = system_onD(4) [OF on]
  have t: "nonce = nonce_of n (word_of_nat rx)" "rx = sv_chans (service_at y n)" "sv_chans sv = Suc rx"
    using execute_begin_effect(2,5) [OF req(3)] service_node_id [OF reach n] service_nonce [OF reach n] by auto
  have rx: "rx < 2 ^ 48" using life_chans_run [OF run] few t(3) by simp
  obtain g where g: "system_inv load save sound E contents W ms g y" "logs_in ms (before W n rx) g y"
    using first_life_logs [OF on life W small n] t(2) by blast
  have step: "system_step E contents W fits ms tim y ?y" by (rule begun_step [where W = W and fits = fits, OF n req])
  obtain h where h: "later ms g h" "system_inv load save sound E contents W ms h ?y"
    using system_inv_step [OF system_onD(1,2) [OF on] step g(1)] by blast
  have c: "command_encode W ?c \<in> only_as W ?c"
    using prost_message.command_round_trip [OF W, of ?c] req(2) by (simp add: only_as_def cmd_fits_def)
  have old: "before W n rx \<subseteq> only_as W ?c" by (rule before_only [OF rx]) (simp add: t(1))
  have logs: "logs_in ms (only_as W ?c) h ?y"
  proof (rule logs_in_after [OF step h(1) g(1) h(2) g(2) old])
    show "said (core_of (sy_raft ?y) v) \<subseteq> said (core_of (sy_raft y) v) \<union> in_flight (sy_raft y) \<union> only_as W ?c" for v
      using begin_said [OF req(3)] c service_node_id [OF reach n] service_nonce [OF reach n] t(1,2)
      by (auto simp: core_at)
  qed
  have on': "system_on load save sound fits E contents W disk ms tim ?y"
    by (rule system_on_run [OF on]) (rule r_into_rtranclp, rule step)
  have "cmd_nonce ?c = nonce_of n (word_of_nat rx)" "rx < sv_chans (service_at ?y n)" using t by simp_all
  from later_life_logs [OF on' W small n h(2) logs this run few] obtain f where
    "later ms h f" "system_inv load save sound E contents W ms f y'" "logs_in ms (only_as W ?c) f y'" by blast
  with that [OF later_trans [OF h(1)] g(1)] g(2) t(1) rx show thesis by blast
qed

lemma call_run_reach:
  assumes "system_on load save sound fits E contents W disk ms tim y" "call_run E contents W fits disk ms tim n command t y y'"
  shows "system_reach E contents W fits disk ms tim y'"
proof -
  from assms(2) obtain sv where "n \<in> ids ms" "nd_running (node_at y n)" "cmd_fits command"
    "execute_begin W command (service_at y n) = (sv, Inr t)" "fits (persistent_of (nd_core (sv_node sv)))"
    and run: "(life_step E contents W fits ms tim n)\<^sup>*\<^sup>* (begun n sv t y) y'"
    unfolding call_run_def by blast
  then have "system_step E contents W fits ms tim y (begun n sv t y)" by (intro begun_step)
  from converse_rtranclp_into_rtranclp [OF this life_run [OF run]] show ?thesis
    using system_onD(4) system_on_run assms(1) by metis
qed

lemma settled_commands_in:
  assumes "settled_commands ms g bs" "logs_in ms P g y"
  shows "set bs \<subseteq> P"
proof (cases "bs = []")
  case False
  then obtain v where v: "v \<in> ids ms" "settled (majority ms) g v (length bs)" using assms(1) by (auto simp: settled_commands_def)
  then have "bs = commands (take (length bs) (pl g v))" using assms(1) by (auto simp: settled_commands_def)
  then have "set bs \<subseteq> le_command ` set (pl g v)" by (metis image_mono list.set_map set_take_subset)
  with assms(2) v(1) show ?thesis by (auto simp: logs_in_def)
qed simp

lemma call_order:
  assumes on: "system_on load save sound fits E contents W disk ms tim y" and W: "prost_message W"
    and small: "\<And>m. m \<in> ids ms \<Longrightarrow> m < 2 ^ 16" and call: "call_run E contents W fits disk ms tim n command (nonce, rx) y y'"
  obtains L L' where "prefix L L'" "explains contents W ms y L" "explains contents W ms y' L'"
    "\<And>i out. outcome_in W L' nonce out i \<Longrightarrow>
       length L \<le> i \<and> command_decode W (L' ! i) = Inr (command\<lparr>cmd_nonce := nonce\<rparr>)"
proof -
  obtain g h where gh: "later ms g h" "system_inv load save sound E contents W ms g y" "system_inv load save sound E contents W ms h y'"
    "logs_in ms (before W n rx) g y" "logs_in ms (only_as W (command\<lparr>cmd_nonce := nonce\<rparr>)) h y'"
    and t: "nonce = nonce_of n (word_of_nat rx)" "rx < 2 ^ 48"
    by (rule call_logs [OF on W small call])
  have p: "proto_inv (majority ms) g" "proto_inv (majority ms) h" "system_rel E contents W ms g y" "system_rel E contents W ms h y'"
    using gh(2,3) cluster_relD(1) by (auto simp: system_inv_def)
  obtain L L' where L: "settled_commands ms g L" "settled_commands ms h L'"
    using settled_commands_ex [OF p(1)] settled_commands_ex [OF p(2)] by metis
  have pre: "prefix L L'" by (rule settled_commands_grow [OF L gh(1)])
  have place: "length L \<le> i \<and> command_decode W (L' ! i) = Inr (command\<lparr>cmd_nonce := nonce\<rparr>)" if out: "outcome_in W L' nonce out i" for i out
  proof -
    from out obtain c where c: "i < length L'" "command_decode W (L' ! i) = Inr c" "cmd_nonce c = nonce"
      by (auto simp: outcome_in_def)
    have "\<not> i < length L"
    proof
      assume i: "i < length L"
      then have "L' ! i = L ! i" using pre by (auto simp: prefix_def nth_append)
      with i settled_commands_in [OF L(1) gh(4)] have "L' ! i \<in> before W n rx" using nth_mem by fastforce
      with c t show False by (auto simp: before_def)
    qed
    moreover have "L' ! i \<in> only_as W (command\<lparr>cmd_nonce := nonce\<rparr>)"
      using settled_commands_in [OF L(2) gh(5)] c(1) by (meson nth_mem subsetD)
    ultimately show ?thesis using c by (simp add: only_as_def)
  qed
  show thesis
    by (rule that [OF pre settled_commands_explain [OF p(3) L(1)] settled_commands_explain [OF p(4) L(2)] place])
qed

section \<open>A call on one node\<close>

lemma perform_life:
  assumes "perform W ms tim d y = Some y'" "deed_ok d" "\<forall>m now. d \<noteq> DoRestart m now"
  shows "life_step mem_engine (\<lambda>db. db) W (\<lambda>_. True) ms tim n y y'"
  using assms perform_step [OF assms(1,2)]
  by (cases d) (auto simp: life_step_def node_at_def set_node_def put_service_def node_kill_def split: if_splits prod.splits)

lemma performs_life:
  "performs W ms tim ds y = Some y' \<Longrightarrow> \<forall>d \<in> set ds. deed_ok d \<and> (\<forall>m now. d \<noteq> DoRestart m now) \<Longrightarrow>
   (life_step mem_engine (\<lambda>db. db) W (\<lambda>_. True) ms tim n)\<^sup>*\<^sup>* y y'"
proof (induction ds arbitrary: y)
  case (Cons d ds)
  then obtain y1 where y1: "perform W ms tim d y = Some y1" "performs W ms tim ds y1 = Some y'"
    by (auto split: option.splits)
  have "life_step mem_engine (\<lambda>db. db) W (\<lambda>_. True) ms tim n y y1" by (rule perform_life [OF y1(1)]) (use Cons.prems(2) in auto)
  moreover have "(life_step mem_engine (\<lambda>db. db) W (\<lambda>_. True) ms tim n)\<^sup>*\<^sup>* y1 y'"
    by (rule Cons.IH [OF y1(2)]) (use Cons.prems(2) in simp)
  ultimately show ?case by (rule converse_rtranclp_into_rtranclp)
qed simp

abbreviation first_append :: command where
  "first_append \<equiv> append_command \<lparr>pr_key = [1], pr_value = [2], pr_client_id = 7, pr_seq = 1\<rparr>"

abbreviation solo_call_run ::
  "command \<Rightarrow> 64 word \<times> nat \<Rightarrow> (persistent_state, kv) system \<Rightarrow> (persistent_state, kv) system \<Rightarrow> bool" where
  "solo_call_run \<equiv> call_run mem_engine (\<lambda>db. db) plain (\<lambda>_. True) (\<lambda>_. in_memory_new) solo quick 1"

lemma solo_leads:
  "map_option (\<lambda>y. (is_leader (nd_core (node_at y 1)), sv_nonce (service_at y 1), sv_node_id (service_at y 1),
       sv_chans (service_at y 1), nd_running (node_at y 1)))
     (performs (W :: decode_error prost) solo quick [DoTick 1 1, DoTick 1 2] solo_start) = Some (True, 0, 1, 0, True)"
  by code_simp

lemma solo_called:
  "map_option (\<lambda>y. (nd_running (node_at y 1), sy_read y 1, nd_applied (node_at y 1), sv_chans (service_at y 1),
       raft_log_len (nd_core (node_at y 1)), as_waiters (sv_state (service_at y 1)) (nonce_of 1 0),
       (nonce_of 1 0, 0) \<in> sy_pending y 1))
     (performs (W :: decode_error prost) solo quick ([DoTick 1 1, DoTick 1 2] @ [DoRequest 1 first_append, DoDrain 1]) solo_start) =
   Some (True, 0, [ApplyCommand \<lparr>ap_index = 1, ap_term = 1, ap_command = prost_encode W old_command\<rparr>], 1, 1, Some 0, True)"
  by code_simp

lemma solo_call:
  obtains y z where "on_solo y" "solo_call_run first_append (nonce_of 1 0, 0) y z" "stalled z" "sv_chans (service_at z 1) = 1"
proof -
  let ?life = "life_step mem_engine (\<lambda>db. db) plain (\<lambda>_. True) solo quick 1"
  from solo_leads [of plain] obtain y where y: "performs plain solo quick [DoTick 1 1, DoTick 1 2] solo_start = Some y"
    "is_leader (nd_core (node_at y 1))" "sv_nonce (service_at y 1) = 0" "sv_node_id (service_at y 1) = 1"
    "sv_chans (service_at y 1) = 0" "nd_running (node_at y 1)" by auto
  from solo_called [of plain] obtain z where z:
    "performs plain solo quick ([DoTick 1 1, DoTick 1 2] @ [DoRequest 1 first_append, DoDrain 1]) solo_start = Some z"
    "on_solo z \<longrightarrow> stalled z" "sv_chans (service_at z 1) = 1"
    by (auto simp: stalled_def command_encode_def)
  have fits: "cmd_fits first_append" by (simp add: cmd_fits_def append_command_def command_append_def)
  have "?life\<^sup>*\<^sup>* solo_start y" by (rule performs_life [OF y(1)]) (simp add: deed_ok_def)
  moreover have start: "system_start (\<lambda>db. db) (\<lambda>_. in_memory_new) solo quick solo_start" by (rule solo_begins)
  ultimately have life: "first_life mem_engine (\<lambda>db. db) plain (\<lambda>_. True) (\<lambda>_. in_memory_new) solo quick 1 y"
    and run: "(mem_step plain solo quick)\<^sup>*\<^sup>* solo_start y"
    unfolding first_life_def using life_run by blast+
  from leader_accepts [of "service_at y 1" plain first_append] y(2-5)
  obtain sv where sv: "execute_begin plain first_append (service_at y 1) = (sv, Inr (nonce_of 1 0, 0))"
    by (auto simp: service_is_leader_def)
  let ?x = "begun 1 sv (nonce_of 1 0, 0) y"
  have "performs plain solo quick [DoRequest 1 first_append, DoDrain 1] y = Some z" using z(1) y(1) by (simp only: performs_append) simp
  then have "performs plain solo quick [DoDrain 1] ?x = Some z"
    by (simp add: sv split: if_splits del: One_nat_def performs.simps(1))
  then have "?life\<^sup>*\<^sup>* ?x z" by (rule performs_life) (simp add: deed_ok_def)
  moreover have "1 \<in> ids solo" by (simp add: ids_def solo_def)
  ultimately have call: "solo_call_run first_append (nonce_of 1 0, 0) y z"
    unfolding call_run_def using life y(6) fits sv z(3) by auto
  have "on_solo y" by (rule system_on_run [OF solo_started run])
  moreover have "on_solo z"
    by (rule system_on_run [OF solo_started performs_run [OF z(1)]]) (use fits in \<open>simp add: deed_ok_def\<close>)
  ultimately show thesis using that call z(2,3) by blast
qed

lemma call_run_more:
  assumes "call_run E contents W fits disk ms tim n command t y z" "life_step E contents W fits ms tim n z z'"
    and "sv_chans (service_at z' n) \<le> 2 ^ 48"
  shows "call_run E contents W fits disk ms tim n command t y z'"
  using assms rtranclp.rtrancl_into_rtrancl unfolding call_run_def by metis

lemma solo_call_answered:
  obtains y z where "on_solo y" "solo_call_run first_append (nonce_of 1 0, 0) y z" "(nonce_of 1 0, 0) \<in> sy_pending z 1"
    "execute_end (nonce_of 1 0, 0) (service_at z 1) = (service_at z 1, Inr (OutValue (Some [2])))"
proof -
  obtain y z where yz: "on_solo y" "solo_call_run first_append (nonce_of 1 0, 0) y z" "stalled z" "sv_chans (service_at z 1) = 1"
    by (rule solo_call)
  obtain z' where z': "mem_step plain solo quick z z'" "(nonce_of 1 0, 0) \<in> sy_pending z' 1"
    "execute_end (nonce_of 1 0, 0) (service_at z' 1) = (service_at z' 1, Inr (OutValue (Some [2])))"
    "sv_chans (service_at z' 1) = sv_chans (service_at z 1)"
    by (rule stalled_answered [OF yz(3)])
  have "nd_running (node_at z 1)" using yz(3) by (simp add: stalled_def)
  with z'(1) have "life_step mem_engine (\<lambda>db. db) plain (\<lambda>_. True) solo quick 1 z z'" by (simp add: life_step_def)
  with call_run_more [OF yz(2)] z'(4) yz(4) have "solo_call_run first_append (nonce_of 1 0, 0) y z'" by simp
  with that yz(1) z'(2,3) show thesis by blast
qed

end
