(* ===== verification/Kv_Clerk.thy ===== *)
theory Kv_Clerk
  imports Kv_Api
begin

text \<open>
  The client library, \<^verbatim>\<open>src/clerk.rs\<close>: it registers once, numbers its operations, and sends each
  one to the nodes in turn, under the same number, until a node answers or the time is up.
\<close>

section \<open>State and surroundings\<close>

text \<open>
  A connected client is opaque. What the network does is a parameter: the result of the
  \<open>k\<close>-th attempt of an operation to connect and to call, and the clock at its deadline check.
\<close>

record 'c net =
  net_start :: nat
  net_clock :: "nat \<Rightarrow> nat"
  net_connect :: "nat \<Rightarrow> string \<Rightarrow> unit + 'c"
  net_register :: "nat \<Rightarrow> 'c \<Rightarrow> status + nat"
  net_get :: "nat \<Rightarrow> 'c \<Rightarrow> bytes \<Rightarrow> status + get_response"
  net_put :: "nat \<Rightarrow> 'c \<Rightarrow> put_request \<Rightarrow> status + unit"
  net_append :: "nat \<Rightarrow> 'c \<Rightarrow> append_request \<Rightarrow> status + bytes"
  net_delete :: "nat \<Rightarrow> 'c \<Rightarrow> delete_request \<Rightarrow> status + unit"

definition RETRY_BUDGET :: nat where
  "RETRY_BUDGET = from_millis 10000"

definition RETRY_PAUSE :: nat where
  "RETRY_PAUSE = from_millis 50"

record 'c clerk =
  ck_endpoints :: "string list"
  ck_clients :: "'c option list"
  ck_leader :: nat
  ck_client_id :: nat
  ck_seq :: nat

datatype clerk_error = NoEndpoints | NoAnswer | TimedOut | CallFailed status

definition retryable :: "status \<Rightarrow> bool" where
  "retryable st \<longleftrightarrow> status_code st = FailedPrecondition \<or> status_code st = Unavailable"

section \<open>One attempt\<close>

definition clerk_current :: "(string \<Rightarrow> unit + 'c) \<Rightarrow> 'c clerk \<Rightarrow> 'c clerk \<times> 'c option" where
  "clerk_current connect ck =
     (let idx = ck_leader ck in
      case ck_clients ck ! idx of
        Some client \<Rightarrow> (ck, Some client)
      | None \<Rightarrow>
          (case connect (''http://'' @ ck_endpoints ck ! idx) of
             Inr client \<Rightarrow> (ck\<lparr>ck_clients := (ck_clients ck)[idx := Some client]\<rparr>, Some client)
           | Inl _ \<Rightarrow> (ck, None)))"

definition clerk_rotate :: "'c clerk \<Rightarrow> 'c clerk" where
  "clerk_rotate ck = ck\<lparr>ck_leader := (ck_leader ck + 1) mod length (ck_endpoints ck)\<rparr>"

text \<open>
  The loop that \<open>connect\<close> and \<open>retry\<close> share: \<open>call\<close> is the RPC, \<open>again\<close> tells which failures
  are worth another attempt. \<open>sent\<close> records the nodes called. \<open>None\<close> is a loop that does
  not end.
\<close>

partial_function (option) attempts ::
  "'c net \<Rightarrow> (nat \<Rightarrow> 'c \<Rightarrow> status + 'a) \<Rightarrow> (status \<Rightarrow> bool) \<Rightarrow> clerk_error \<Rightarrow> nat \<Rightarrow> nat \<Rightarrow> 'c clerk \<Rightarrow> nat list \<Rightarrow>
   ('c clerk \<times> (clerk_error + 'a) \<times> nat list) option" where
  "attempts N call again expired deadline k ck sent =
     (case clerk_current (net_connect N k) ck of
        (ck, client) \<Rightarrow>
          (let sent = (case client of None \<Rightarrow> sent | Some _ \<Rightarrow> sent @ [ck_leader ck]);
               answer = (case client of
                  None \<Rightarrow> None
                | Some client \<Rightarrow>
                    (case call k client of
                       Inr value \<Rightarrow> Some (Inr value)
                     | Inl st \<Rightarrow> if again st then None else Some (Inl (CallFailed st))))
           in case answer of
                Some r \<Rightarrow> Some (ck, r, sent)
              | None \<Rightarrow>
                  if net_clock N k < deadline
                  then attempts N call again expired deadline (k + 1) (clerk_rotate ck) sent
                  else Some (ck, Inl expired, sent)))"

section \<open>Operations\<close>

definition clerk_new :: "string list \<Rightarrow> 'c clerk" where
  "clerk_new endpoints =
     \<lparr>ck_endpoints = endpoints, ck_clients = replicate (length endpoints) None, ck_leader = 0,
      ck_client_id = 0, ck_seq = 0\<rparr>"

definition clerk_connect :: "'c net \<Rightarrow> string list \<Rightarrow> (clerk_error + 'c clerk) option" where
  "clerk_connect N endpoints =
     (if endpoints = [] then Some (Inl NoEndpoints)
      else map_option (\<lambda>(ck, r, sent). res_bind r (\<lambda>client_id. Inr (ck\<lparr>ck_client_id := client_id\<rparr>)))
             (attempts N (net_register N) (\<lambda>_. True) NoAnswer (net_start N + RETRY_BUDGET) 0
                (clerk_new endpoints) []))"

definition retry ::
  "'c net \<Rightarrow> (nat \<Rightarrow> 'c \<Rightarrow> nat \<Rightarrow> nat \<Rightarrow> status + 'a) \<Rightarrow> 'c clerk \<Rightarrow>
   ('c clerk \<times> (clerk_error + 'a) \<times> nat list) option" where
  "retry N op ck =
     (let ck = ck\<lparr>ck_seq := ck_seq ck + 1\<rparr>;
          seq = ck_seq ck;
          client_id = ck_client_id ck;
          deadline = net_start N + RETRY_BUDGET
      in attempts N (\<lambda>k client. op k client client_id seq) retryable TimedOut deadline 0 ck [])"

definition clerk_get ::
  "'c net \<Rightarrow> bytes \<Rightarrow> 'c clerk \<Rightarrow> ('c clerk \<times> (clerk_error + bytes option) \<times> nat list) option" where
  "clerk_get N key ck =
     retry N (\<lambda>k client _ _. res_bind (net_get N k client key) (\<lambda>resp.
       Inr (if gr_found resp then Some (gr_value resp) else None))) ck"

definition clerk_put ::
  "'c net \<Rightarrow> bytes \<Rightarrow> bytes \<Rightarrow> 'c clerk \<Rightarrow> ('c clerk \<times> (clerk_error + unit) \<times> nat list) option" where
  "clerk_put N key value ck =
     retry N (\<lambda>k client client_id seq. res_bind (net_put N k client
       \<lparr>pr_key = key, pr_value = value, pr_client_id = client_id, pr_seq = seq\<rparr>) (\<lambda>_. Inr ())) ck"

definition clerk_append ::
  "'c net \<Rightarrow> bytes \<Rightarrow> bytes \<Rightarrow> 'c clerk \<Rightarrow> ('c clerk \<times> (clerk_error + bytes) \<times> nat list) option" where
  "clerk_append N key value ck =
     retry N (\<lambda>k client client_id seq. net_append N k client
       \<lparr>pr_key = key, pr_value = value, pr_client_id = client_id, pr_seq = seq\<rparr>) ck"

definition clerk_delete ::
  "'c net \<Rightarrow> bytes \<Rightarrow> 'c clerk \<Rightarrow> ('c clerk \<times> (clerk_error + unit) \<times> nat list) option" where
  "clerk_delete N key ck =
     retry N (\<lambda>k client client_id seq. res_bind (net_delete N k client
       \<lparr>dr_key = key, dr_client_id = client_id, dr_seq = seq\<rparr>) (\<lambda>_. Inr ())) ck"

section \<open>Well-formed clerks\<close>

text \<open>The index of the current node is always in range, so no access panics.\<close>

definition clerk_ok :: "'c clerk \<Rightarrow> bool" where
  "clerk_ok ck \<longleftrightarrow> length (ck_clients ck) = length (ck_endpoints ck) \<and> ck_leader ck < length (ck_endpoints ck)"

lemma clerk_new_ok: "endpoints \<noteq> [] \<Longrightarrow> clerk_ok (clerk_new endpoints)"
  by (simp add: clerk_ok_def clerk_new_def)

lemma current_frame:
  assumes "clerk_current connect ck = (ck', client)"
  shows "ck_endpoints ck' = ck_endpoints ck" "ck_leader ck' = ck_leader ck" "ck_client_id ck' = ck_client_id ck"
    "ck_seq ck' = ck_seq ck" "clerk_ok ck' = clerk_ok ck"
  using assms by (auto simp: clerk_current_def clerk_ok_def Let_def split: option.splits sum.splits)

lemma rotate_frame [simp]:
  "ck_endpoints (clerk_rotate ck) = ck_endpoints ck" "ck_clients (clerk_rotate ck) = ck_clients ck"
  "ck_client_id (clerk_rotate ck) = ck_client_id ck" "ck_seq (clerk_rotate ck) = ck_seq ck"
  "ck_leader (clerk_rotate ck) = (ck_leader ck + 1) mod length (ck_endpoints ck)"
  "clerk_ok ck \<Longrightarrow> clerk_ok (clerk_rotate ck)"
  by (auto simp: clerk_rotate_def clerk_ok_def intro!: mod_less_divisor)

section \<open>One turn of the loop\<close>

text \<open>What an attempt decides: \<open>None\<close> asks for another one.\<close>

definition verdict ::
  "(nat \<Rightarrow> 'c \<Rightarrow> status + 'a) \<Rightarrow> (status \<Rightarrow> bool) \<Rightarrow> nat \<Rightarrow> 'c option \<Rightarrow> (clerk_error + 'a) option" where
  "verdict call again k client =
     (case client of
        None \<Rightarrow> None
      | Some client \<Rightarrow>
          (case call k client of
             Inr value \<Rightarrow> Some (Inr value)
           | Inl st \<Rightarrow> if again st then None else Some (Inl (CallFailed st))))"

definition call_log :: "nat \<Rightarrow> 'c option \<Rightarrow> nat list" where
  "call_log idx client = (case client of None \<Rightarrow> [] | Some _ \<Rightarrow> [idx])"

lemma attempts_unfold:
  assumes "clerk_current (net_connect N k) ck = (ck', client)"
  shows "attempts N call again expired deadline k ck sent =
    (case verdict call again k client of
       Some r \<Rightarrow> Some (ck', r, sent @ call_log (ck_leader ck) client)
     | None \<Rightarrow>
         if net_clock N k < deadline
         then attempts N call again expired deadline (k + 1) (clerk_rotate ck') (sent @ call_log (ck_leader ck) client)
         else Some (ck', Inl expired, sent @ call_log (ck_leader ck) client))"
  by (subst attempts.simps) (use current_frame(2) [OF assms] in \<open>auto simp: assms verdict_def call_log_def Let_def
      split: option.splits sum.splits\<close>)

section \<open>The loop ends\<close>

text \<open>A pause takes at least as long as it says, and the clock does not run backwards.\<close>

definition paced :: "'c net \<Rightarrow> bool" where
  "paced N \<longleftrightarrow> net_start N \<le> net_clock N 0 \<and> (\<forall>k. net_clock N k + RETRY_PAUSE \<le> net_clock N (k + 1))"

text \<open>
  What is known of a finished loop, started with the clerk \<open>ck\<close>: identity and numbering
  are kept, nodes were called in turn, and the result came from a call.
\<close>

definition rounds :: "'c clerk \<Rightarrow> nat list \<Rightarrow> nat list" where
  "rounds ck ks = map (\<lambda>k. (ck_leader ck + k) mod length (ck_endpoints ck)) ks"

definition loop_result ::
  "(nat \<Rightarrow> 'c \<Rightarrow> status + 'a) \<Rightarrow> (status \<Rightarrow> bool) \<Rightarrow> clerk_error \<Rightarrow> (clerk_error + 'a) \<Rightarrow> bool" where
  "loop_result call again expired r \<longleftrightarrow>
     (case r of
        Inr v \<Rightarrow> \<exists>k client. call k client = Inr v
      | Inl e \<Rightarrow> e = expired \<or> (\<exists>k client st. e = CallFailed st \<and> call k client = Inl st \<and> \<not> again st))"

definition same_clerk :: "'c clerk \<Rightarrow> 'c clerk \<Rightarrow> bool" where
  "same_clerk ck ck' \<longleftrightarrow> clerk_ok ck' \<and> ck_seq ck' = ck_seq ck \<and> ck_client_id ck' = ck_client_id ck \<and>
     ck_endpoints ck' = ck_endpoints ck"

lemma verdict_result: "verdict call again k client = Some r \<Longrightarrow> loop_result call again expired r"
  by (auto simp: verdict_def loop_result_def split: option.splits sum.splits if_splits)

lemma call_log_rounds:
  assumes "clerk_ok ck"
  obtains ks where "call_log (ck_leader ck) client = rounds ck ks" "set ks \<subseteq> {0}" "sorted ks" "distinct ks"
  using assms that [of "[]"] that [of "[0]"]
  by (cases client) (auto simp: call_log_def rounds_def clerk_ok_def)

lemma rounds_rotate: "rounds (clerk_rotate ck) ks = rounds ck (map Suc ks)"
  by (simp add: rounds_def mod_add_left_eq)

definition finished ::
  "'c clerk \<Rightarrow> (nat \<Rightarrow> 'c \<Rightarrow> status + 'a) \<Rightarrow> (status \<Rightarrow> bool) \<Rightarrow> clerk_error \<Rightarrow> nat \<Rightarrow> nat list \<Rightarrow>
   ('c clerk \<times> (clerk_error + 'a) \<times> nat list) option \<Rightarrow> bool" where
  "finished ck call again expired j sent res \<longleftrightarrow>
     (\<exists>ck' r ks. res = Some (ck', r, sent @ rounds ck ks) \<and> same_clerk ck ck' \<and>
        loop_result call again expired r \<and> sorted ks \<and> distinct ks \<and> length ks \<le> j + 1)"

lemma attempt_stops:
  assumes c: "clerk_current (net_connect N k) ck = (ck', client)" and ok: "clerk_ok ck"
    and stop: "verdict call again k client \<noteq> None \<or> deadline \<le> net_clock N k"
  shows "finished ck call again expired j sent (attempts N call again expired deadline k ck sent)"
proof -
  obtain ks where ks: "call_log (ck_leader ck) client = rounds ck ks" "set ks \<subseteq> {0}" "sorted ks" "distinct ks"
    by (rule call_log_rounds [OF ok])
  then have "length ks \<le> card {0 :: nat}" by (metis card_mono distinct_card finite.intros)
  then have len: "length ks \<le> j + 1" by simp
  have same: "same_clerk ck ck'" using ok by (simp add: same_clerk_def current_frame [OF c])
  show ?thesis
  proof (cases "verdict call again k client")
    case None
    with stop ks len same show ?thesis
      by (auto simp: finished_def attempts_unfold [OF c] loop_result_def)
  next
    case (Some r)
    with verdict_result [OF Some] ks len same show ?thesis
      by (auto simp: finished_def attempts_unfold [OF c])
  qed
qed

lemma attempt_goes_on:
  assumes c: "clerk_current (net_connect N k) ck = (ck', client)" and ok: "clerk_ok ck"
    and go: "verdict call again k client = None" "net_clock N k < deadline"
    and next_one: "finished (clerk_rotate ck') call again expired j (sent @ call_log (ck_leader ck) client)
      (attempts N call again expired deadline (k + 1) (clerk_rotate ck') (sent @ call_log (ck_leader ck) client))"
  shows "finished ck call again expired (Suc j) sent (attempts N call again expired deadline k ck sent)"
proof -
  obtain ks0 where ks0: "call_log (ck_leader ck) client = rounds ck ks0" "set ks0 \<subseteq> {0}" "sorted ks0" "distinct ks0"
    by (rule call_log_rounds [OF ok])
  then have len: "length ks0 \<le> card {0 :: nat}" by (metis card_mono distinct_card finite.intros)
  obtain ck2 r ks where n: "attempts N call again expired deadline (k + 1) (clerk_rotate ck')
      (sent @ call_log (ck_leader ck) client) = Some (ck2, r, (sent @ rounds ck ks0) @ rounds (clerk_rotate ck') ks)"
    "same_clerk (clerk_rotate ck') ck2" "loop_result call again expired r" "sorted ks" "distinct ks" "length ks \<le> j + 1"
    using next_one unfolding finished_def ks0(1) by blast
  have "rounds ck ks0 @ rounds (clerk_rotate ck') ks = rounds ck (ks0 @ map Suc ks)"
    unfolding rounds_rotate by (simp add: rounds_def current_frame [OF c])
  moreover have "sorted (ks0 @ map Suc ks)" "distinct (ks0 @ map Suc ks)"
    using ks0(2-4) n(4,5) by (auto simp: sorted_append sorted_map distinct_map elim: sorted_wrt_mono_rel [rotated])
  moreover have "same_clerk ck ck2"
    using n(2) by (simp add: same_clerk_def current_frame [OF c])
  ultimately show ?thesis
    using n(1,3,6) len go unfolding finished_def attempts_unfold [OF c]
    by (intro exI [of _ ck2] exI [of _ r] exI [of _ "ks0 @ map Suc ks"]) simp
qed

lemma attempts_run:
  assumes "paced N" "deadline \<le> net_clock N k + j * RETRY_PAUSE" "clerk_ok ck"
  shows "finished ck call again expired j sent (attempts N call again expired deadline k ck sent)"
  using assms(2,3)
proof (induction j arbitrary: k ck sent)
  case 0
  obtain ck' client where c: "clerk_current (net_connect N k) ck = (ck', client)" by fastforce
  show ?case by (rule attempt_stops [OF c 0(2)]) (use 0(1) in simp)
next
  case (Suc j)
  obtain ck' client where c: "clerk_current (net_connect N k) ck = (ck', client)" by fastforce
  show ?case
  proof (cases "verdict call again k client \<noteq> None \<or> deadline \<le> net_clock N k")
    case True
    then show ?thesis by (rule attempt_stops [OF c Suc.prems(2)])
  next
    case False
    have "net_clock N k + RETRY_PAUSE \<le> net_clock N (k + 1)" using assms(1) by (simp add: paced_def)
    then have "deadline \<le> net_clock N (k + 1) + j * RETRY_PAUSE" using Suc.prems(1) by simp
    moreover have "clerk_ok (clerk_rotate ck')" using Suc.prems(2) by (simp add: current_frame [OF c])
    ultimately show ?thesis
      using False by (intro attempt_goes_on [OF c Suc.prems(2)] Suc.IH) auto
  qed
qed

text \<open>The budget divided by the pause.\<close>

lemma retry_run:
  assumes "paced N" "clerk_ok ck"
  shows "finished (ck\<lparr>ck_seq := ck_seq ck + 1\<rparr>) (\<lambda>k client. op k client (ck_client_id ck) (ck_seq ck + 1))
    retryable TimedOut 200 [] (retry N op ck)"
proof -
  have "RETRY_BUDGET = 200 * RETRY_PAUSE" by (simp add: RETRY_BUDGET_def RETRY_PAUSE_def from_millis_def)
  then have "net_start N + RETRY_BUDGET \<le> net_clock N 0 + 200 * RETRY_PAUSE" using assms(1) by (simp add: paced_def)
  moreover have "clerk_ok (ck\<lparr>ck_seq := ck_seq ck + 1\<rparr>)" using assms(2) by (simp add: clerk_ok_def)
  ultimately show ?thesis using attempts_run [OF assms(1)] by (simp add: retry_def Let_def)
qed

section \<open>A leader that answers is found\<close>

text \<open>
  \<open>leads N call L v ck\<close>: node \<open>L\<close> can be reached and answers \<open>v\<close>; calls to the other nodes fail
  in a way that asks for a retry, or they cannot be reached. \<open>cl\<close> is the client of an address.
\<close>

definition url :: "'c clerk \<Rightarrow> nat \<Rightarrow> string" where
  "url ck i = ''http://'' @ ck_endpoints ck ! i"

definition leads ::
  "'c net \<Rightarrow> (nat \<Rightarrow> 'c \<Rightarrow> status + 'a) \<Rightarrow> (string \<Rightarrow> 'c) \<Rightarrow> nat \<Rightarrow> 'a \<Rightarrow> 'c clerk \<Rightarrow> bool" where
  "leads N call cl L v ck \<longleftrightarrow>
     L < length (ck_endpoints ck) \<and>
     (\<forall>k i. i < length (ck_endpoints ck) \<longrightarrow>
        (if i = L then net_connect N k (url ck i) = Inr (cl (url ck i)) \<and> call k (cl (url ck i)) = Inr v
         else net_connect N k (url ck i) \<in> {Inl (), Inr (cl (url ck i))} \<and>
              (\<exists>st. call k (cl (url ck i)) = Inl st \<and> retryable st)))"

definition clients_ok :: "(string \<Rightarrow> 'c) \<Rightarrow> 'c clerk \<Rightarrow> bool" where
  "clients_ok cl ck \<longleftrightarrow> (\<forall>i < length (ck_clients ck). ck_clients ck ! i \<in> {None, Some (cl (url ck i))})"

lemma leads_cong: "ck_endpoints ck' = ck_endpoints ck \<Longrightarrow> leads N call cl L v ck' = leads N call cl L v ck"
  by (simp only: leads_def url_def)

lemma clients_ok_rotate: "clients_ok cl (clerk_rotate ck) = clients_ok cl ck"
  by (simp only: clients_ok_def url_def rotate_frame)

lemma leads_current:
  assumes l: "leads N call cl L v ck" and cs: "clients_ok cl ck" and ok: "clerk_ok ck"
    and c: "clerk_current (net_connect N k) ck = (ck', client)"
  shows "clients_ok cl ck'" "leads N call cl L v ck'"
    and "ck_leader ck = L \<Longrightarrow> verdict call retryable k client = Some (Inr v)"
    and "ck_leader ck \<noteq> L \<Longrightarrow> verdict call retryable k client = None"
proof -
  let ?i = "ck_leader ck"
  have i: "?i < length (ck_endpoints ck)" "?i < length (ck_clients ck)" using ok by (simp_all add: clerk_ok_def)
  note n = l [unfolded leads_def, THEN conjunct2, rule_format, OF i(1), of k]
  have slot: "ck_clients ck ! ?i \<in> {None, Some (cl (url ck ?i))}" using cs i(2) by (simp add: clients_ok_def)
  have urls: "url ck' = url ck" by (simp add: url_def fun_eq_iff current_frame [OF c])
  show "leads N call cl L v ck'" unfolding leads_cong [OF current_frame(1) [OF c]] by (rule l)
  have "ck' = ck \<or> (\<exists>x. net_connect N k (url ck ?i) = Inr x \<and> ck' = ck\<lparr>ck_clients := (ck_clients ck)[?i := Some x]\<rparr>)"
    using c by (auto simp: clerk_current_def Let_def url_def split: option.splits sum.splits)
  then show "clients_ok cl ck'"
  proof (elim disjE exE conjE)
    fix x
    assume x: "net_connect N k (url ck ?i) = Inr x" "ck' = ck\<lparr>ck_clients := (ck_clients ck)[?i := Some x]\<rparr>"
    then have "x = cl (url ck ?i)" using n by (auto split: if_splits)
    with cs x(2) urls i(2) show ?thesis by (auto simp: clients_ok_def nth_list_update)
  qed (use cs in simp)
  show "verdict call retryable k client = Some (Inr v)" if "?i = L"
    using slot n that c by (auto simp: clerk_current_def verdict_def Let_def url_def)
  show "verdict call retryable k client = None" if "?i \<noteq> L"
    using slot n that c
    by (auto simp: clerk_current_def verdict_def Let_def url_def split: option.splits sum.splits)
qed

lemma rotate_distance:
  assumes "(i :: nat) < n" "L < n" "i \<noteq> L"
  shows "Suc ((L + n - (i + 1) mod n) mod n) = (L + n - i) mod n"
proof (cases "i + 1 = n")
  case True
  with assms show ?thesis by auto
next
  case False
  then have m: "(i + 1) mod n = i + 1" using assms(1) by simp
  show ?thesis
  proof (cases "i < L")
    case True
    then have "(L + n - i) mod n = L - i" "(L + n - (i + 1)) mod n = L - (i + 1)"
      using assms(2) by (simp_all add: mod_if)
    with True m show ?thesis by simp
  next
    case False
    then show ?thesis using assms m by simp
  qed
qed

lemma attempts_find_leader:
  assumes "leads N call cl L v ck" "clients_ok cl ck" "clerk_ok ck"
    and "d = (L + length (ck_endpoints ck) - ck_leader ck) mod length (ck_endpoints ck)"
    and "\<forall>j < k + d. net_clock N j < deadline"
  shows "\<exists>ck' sent'. attempts N call retryable expired deadline k ck sent = Some (ck', Inr v, sent') \<and> ck_leader ck' = L"
  using assms
proof (induction d arbitrary: k ck sent)
  case 0
  obtain ck' client where c: "clerk_current (net_connect N k) ck = (ck', client)" by fastforce
  have "ck_leader ck = L"
  proof (rule ccontr)
    assume "ck_leader ck \<noteq> L"
    with rotate_distance [of "ck_leader ck" "length (ck_endpoints ck)" L] 0(1,3,4) show False
      by (simp add: clerk_ok_def leads_def)
  qed
  with leads_current(3) [OF 0(1-3) c] show ?case
    by (simp add: attempts_unfold [OF c] current_frame [OF c])
next
  case (Suc d)
  let ?n = "length (ck_endpoints ck)"
  obtain ck' client where c: "clerk_current (net_connect N k) ck = (ck', client)" by fastforce
  note ck' = leads_current [OF Suc.prems(1-3) c]
  have "ck_leader ck \<noteq> L" using Suc.prems(1,4) by (auto simp: leads_def)
  with rotate_distance [of "ck_leader ck" ?n L] Suc.prems(1,3,4)
  have d: "d = (L + ?n - (ck_leader ck + 1) mod ?n) mod ?n" by (simp add: clerk_ok_def leads_def)
  have "leads N call cl L v (clerk_rotate ck')" "clients_ok cl (clerk_rotate ck')" "clerk_ok (clerk_rotate ck')"
    using ck'(1,2) Suc.prems(3)
    by (simp_all add: clients_ok_rotate current_frame [OF c] leads_cong [of "clerk_rotate ck'" ck'])
  from Suc.IH [OF this, of "k + 1"] d Suc.prems(5) have
    "\<exists>ck2 s2. attempts N call retryable expired deadline (k + 1) (clerk_rotate ck') sent = Some (ck2, Inr v, s2) \<and> ck_leader ck2 = L"
    for sent by (simp add: current_frame [OF c])
  moreover have "net_clock N k < deadline" using Suc.prems(5) by simp
  ultimately show ?case using ck'(4) [OF \<open>ck_leader ck \<noteq> L\<close>] by (simp add: attempts_unfold [OF c])
qed

section \<open>Properties\<close>


text \<open>
  C30. The leader is found: if one node answers and the others refuse or cannot be reached,
  and the clock leaves time for one round, the operation returns that node's answer and
  the clerk remembers the node for the next operation.
\<close>

theorem clerk_finds_leader:
  assumes "leads N (\<lambda>k client. op k client (ck_client_id ck) (ck_seq ck + 1)) cl L v ck"
    and "clients_ok cl ck" "clerk_ok ck"
    and "\<forall>j < length (ck_endpoints ck). net_clock N j < net_start N + RETRY_BUDGET"
  shows "\<exists>ck' sent. retry N op ck = Some (ck', Inr v, sent) \<and> ck_leader ck' = L"
proof -
  let ?ck = "ck\<lparr>ck_seq := ck_seq ck + 1\<rparr>" and ?n = "length (ck_endpoints ck)"
  have "leads N (\<lambda>k client. op k client (ck_client_id ck) (ck_seq ck + 1)) cl L v ?ck"
    by (subst leads_cong [of _ ck]) (use assms(1) in simp_all)
  moreover have "clients_ok cl ?ck" "clerk_ok ?ck"
    using assms(2,3) by (simp_all add: clients_ok_def url_def clerk_ok_def)
  moreover have "(L + ?n - ck_leader ck) mod ?n < ?n" using assms(3) by (intro mod_less_divisor) (auto simp: clerk_ok_def)
  ultimately show ?thesis
    using attempts_find_leader [of N "\<lambda>k client. op k client (ck_client_id ck) (ck_seq ck + 1)" cl L v ?ck _ 0] assms(4)
    by (simp add: retry_def Let_def)
qed

text \<open>
  Connecting always returns too: with an error when there is no address or no node hands
  out an id within the budget, and otherwise with a well-formed clerk that has the id some
  node handed out and has numbered no operation yet.
\<close>

lemma connect_run:
  assumes "paced N"
  shows "\<exists>r. clerk_connect N endpoints = Some r \<and>
    (case r of
       Inl e \<Rightarrow> e = (if endpoints = [] then NoEndpoints else NoAnswer)
     | Inr ck \<Rightarrow> clerk_ok ck \<and> ck_endpoints ck = endpoints \<and> ck_seq ck = 0 \<and>
         (\<exists>k client. net_register N k client = Inr (ck_client_id ck)))"
proof (cases "endpoints = []")
  case False
  have "RETRY_BUDGET = 200 * RETRY_PAUSE" by (simp add: RETRY_BUDGET_def RETRY_PAUSE_def from_millis_def)
  then have "net_start N + RETRY_BUDGET \<le> net_clock N 0 + 200 * RETRY_PAUSE" using assms by (simp add: paced_def)
  from attempts_run [OF assms this clerk_new_ok [OF False], of "net_register N" "\<lambda>_. True" NoAnswer "[]"]
  obtain ck r sent where "attempts N (net_register N) (\<lambda>_. True) NoAnswer (net_start N + RETRY_BUDGET) 0 (clerk_new endpoints) []
      = Some (ck, r, sent)" "same_clerk (clerk_new endpoints) ck"
    "loop_result (net_register N) (\<lambda>_. True) NoAnswer r" unfolding finished_def by blast
  with False show ?thesis
    by (cases r) (auto simp: clerk_connect_def loop_result_def same_clerk_def clerk_new_def clerk_ok_def)
qed (simp add: clerk_connect_def)

text \<open>Three nodes, of which the last one leads; clients are addresses and the clock ticks by the pause.\<close>

definition sample_net :: "string net" where
  "sample_net =
     \<lparr>net_start = 0, net_clock = (\<lambda>k. k * RETRY_PAUSE), net_connect = (\<lambda>k u. Inr u),
      net_register = (\<lambda>k c. Inr 7), net_get = (\<lambda>k c key. Inl (status_new Unavailable ''down'')),
      net_put = (\<lambda>k c r. if c = ''http://c'' then Inr () else Inl (status_new FailedPrecondition ''not leader'')),
      net_append = (\<lambda>k c r. Inl (status_new Unavailable ''down'')),
      net_delete = (\<lambda>k c r. Inl (status_new Unavailable ''down''))\<rparr>"

definition sample_clerk :: "string clerk" where
  "sample_clerk = clerk_new [''a'', ''b'', ''c'']"

lemma sample_paced: "paced sample_net"
  by (simp add: paced_def sample_net_def)

lemma sample_clerk_ok: "clerk_ok sample_clerk"
  by (simp add: sample_clerk_def clerk_new_ok)


theorem clerk_finds_leader_witness:
  "\<exists>ck' sent. clerk_put sample_net [1] [2] sample_clerk = Some (ck', Inr (), sent) \<and> ck_leader ck' = 2"
  unfolding clerk_put_def
  by (rule clerk_finds_leader [where cl = id])
    (auto simp: leads_def clients_ok_def clerk_ok_def sample_net_def sample_clerk_def clerk_new_def url_def
      retryable_def status_new_def RETRY_BUDGET_def RETRY_PAUSE_def from_millis_def nth_Cons' less_Suc_eq
      numeral_3_eq_3 split: if_splits)

end
