(* ===== verification/Murmur_Bins.thy ===== *)
theory Murmur_Bins
  imports Kv_Clerk Kv_Service
begin

text \<open>
  The command lines of \<^verbatim>\<open>src/bin/murmurd.rs\<close> (the daemon) and \<^verbatim>\<open>src/bin/murmur.rs\<close> (the client):
  how arguments become a cluster configuration, and an operation of the clerk. What the
  programs print beside their result is not modelled; the daemon's start is in
  \<open>Murmur_Daemon\<close>.
\<close>

section \<open>Strings\<close>

text \<open>\<open>str::split_once\<close> and \<open>str::split\<close> at an ASCII character.\<close>

fun split_once :: "char \<Rightarrow> string \<Rightarrow> (string \<times> string) option" where
  "split_once sep [] = None"
| "split_once sep (c # cs) =
     (if c = sep then Some ([], cs) else map_option (\<lambda>(a, b). (c # a, b)) (split_once sep cs))"

fun split_on :: "char \<Rightarrow> string \<Rightarrow> string list" where
  "split_on sep [] = [[]]"
| "split_on sep (c # cs) =
     (if c = sep then [] # split_on sep cs
      else (case split_on sep cs of w # ws \<Rightarrow> (c # w) # ws | [] \<Rightarrow> [[c]]))"

text \<open>\<open>str::trim\<close>: the code points of White_Space, in UTF-8.\<close>

definition white_space :: "string list" where
  "white_space = map (map char_of)
     ([[9], [10], [11], [12], [13], [32], [0xC2, 0x85], [0xC2, 0xA0], [0xE1, 0x9A, 0x80],
       [0xE2, 0x80, 0xA8], [0xE2, 0x80, 0xA9], [0xE2, 0x80, 0xAF], [0xE2, 0x81, 0x9F], [0xE3, 0x80, 0x80]] @
      map (\<lambda>k. [0xE2, 0x80, k]) [0x80 ..< 0x8B :: nat])"

fun strip :: "string list \<Rightarrow> nat \<Rightarrow> string \<Rightarrow> string" where
  "strip ws 0 s = s"
| "strip ws (Suc n) s =
     (case find (\<lambda>w. take (length w) s = w) ws of None \<Rightarrow> s | Some w \<Rightarrow> strip ws n (drop (length w) s))"

definition trim :: "string \<Rightarrow> string" where
  "trim s =
     (let t = strip white_space (length s) s
      in rev (strip (map rev white_space) (length t) (rev t)))"

text \<open>\<open>u64::from_str\<close>: digits, possibly after a plus sign, whose value fits 64 bits.\<close>

definition digit_value :: "char \<Rightarrow> nat option" where
  "digit_value c = (let n = of_char c in if 48 \<le> n \<and> n \<le> 57 then Some (n - 48) else None)"

fun parse_digits :: "nat \<Rightarrow> string \<Rightarrow> nat option" where
  "parse_digits acc [] = Some acc"
| "parse_digits acc (c # cs) =
     (case digit_value c of
        None \<Rightarrow> None
      | Some d \<Rightarrow> if acc * 10 + d < 2 ^ 64 then parse_digits (acc * 10 + d) cs else None)"

definition parse_u64 :: "string \<Rightarrow> nat option" where
  "parse_u64 s =
     (let digits = (case s of c # cs \<Rightarrow> if c = CHR ''+'' then cs else s | [] \<Rightarrow> s)
      in if digits = [] then None else parse_digits 0 digits)"

section \<open>The daemon\<close>

datatype cli_error = BadPeer string | BadId string | UnknownArgument string | BadUsage

definition parse_peer :: "string \<Rightarrow> cli_error + peer" where
  "parse_peer spec =
     (case split_once CHR ''@'' spec of
        None \<Rightarrow> Inl (BadPeer spec)
      | Some (ident, addr) \<Rightarrow>
          (case parse_u64 ident of None \<Rightarrow> Inl (BadId ident) | Some i \<Rightarrow> Inr \<lparr>peer_id = i, peer_addr = addr\<rparr>))"

record daemon =
  dm_id :: nat
  dm_raft_listen :: string
  dm_kv_listen :: string
  dm_data :: string
  dm_peers :: "peer list"

definition daemon_default :: daemon where
  "daemon_default =
     \<lparr>dm_id = 1, dm_raft_listen = ''127.0.0.1:6001'', dm_kv_listen = ''127.0.0.1:5001'',
      dm_data = ''data/node1'', dm_peers = []\<rparr>"

text \<open>
  \<open>next_arg\<close> is what \<open>args.next()\<close> gives after a flag; the rest of the arguments is then
  \<open>drop 1 args\<close>. \<open>Inr None\<close> is the help text. An id that is missing or no number leaves the
  default in place.
\<close>

fun next_arg :: "string list \<Rightarrow> string option" where
  "next_arg [] = None"
| "next_arg (v # _) = Some v"

fun daemon_args :: "string list \<Rightarrow> daemon \<Rightarrow> cli_error + daemon option" where
  "daemon_args [] d = Inr (Some d)"
| "daemon_args (arg # args) d =
     (let v = next_arg args; rest = drop 1 args in
      if arg = ''--id'' then
        daemon_args rest (d\<lparr>dm_id := (case Option.bind v parse_u64 of None \<Rightarrow> dm_id d | Some i \<Rightarrow> i)\<rparr>)
      else if arg = ''--raft-listen'' then
        daemon_args rest (d\<lparr>dm_raft_listen := (case v of None \<Rightarrow> dm_raft_listen d | Some a \<Rightarrow> a)\<rparr>)
      else if arg = ''--kv-listen'' then
        daemon_args rest (d\<lparr>dm_kv_listen := (case v of None \<Rightarrow> dm_kv_listen d | Some a \<Rightarrow> a)\<rparr>)
      else if arg = ''--data'' then
        daemon_args rest (d\<lparr>dm_data := (case v of None \<Rightarrow> dm_data d | Some a \<Rightarrow> a)\<rparr>)
      else if arg = ''--peer'' then
        (case parse_peer (case v of None \<Rightarrow> '''' | Some spec \<Rightarrow> spec) of
           Inl e \<Rightarrow> Inl e
         | Inr p \<Rightarrow> daemon_args rest (d\<lparr>dm_peers := dm_peers d @ [p]\<rparr>))
      else if arg = ''-h'' \<or> arg = ''--help'' then Inr None
      else Inl (UnknownArgument arg))"

definition daemon_config :: "daemon \<Rightarrow> cluster_config" where
  "daemon_config d = \<lparr>cc_id = dm_id d, cc_peers = dm_peers d\<rparr>"

definition daemon_state_path :: "daemon \<Rightarrow> string" where
  "daemon_state_path d = dm_data d @ ''/raft-state''"

definition daemon_store_path :: "daemon \<Rightarrow> string" where
  "daemon_store_path d = dm_data d @ ''/kv''"

section \<open>The client\<close>

definition DEFAULT_PEERS :: string where
  "DEFAULT_PEERS = ''127.0.0.1:5001,127.0.0.1:5002,127.0.0.1:5003''"

text \<open>The flags before the command, and the command with its operands.\<close>

fun client_args :: "string list \<Rightarrow> string \<Rightarrow> cli_error + string \<times> string list" where
  "client_args [] peers = Inr (peers, [])"
| "client_args (arg # args) peers =
     (if arg = ''--peers'' then
        (client_args (drop 1 args) (case next_arg args of None \<Rightarrow> peers | Some p \<Rightarrow> p))
      else if arg = ''-h'' \<or> arg = ''--help'' then Inl BadUsage
      else Inr (peers, arg # args))"

definition client_endpoints :: "string \<Rightarrow> string list" where
  "client_endpoints peers = map trim (split_on CHR '','' peers)"

datatype client_result = Printed string | NotFound | ClerkFailed clerk_error

fun client_value :: "'c clerk \<times> (clerk_error + 'a) \<times> nat list \<Rightarrow> ('a \<Rightarrow> client_result) \<Rightarrow> client_result" where
  "client_value (_, Inl e, _) f = ClerkFailed e"
| "client_value (_, Inr v, _) f = f v"

text \<open>One operation, on a connected clerk; \<open>Inl\<close> is wrong usage, found only after connecting.\<close>

definition client_operation ::
  "'c net \<Rightarrow> 'c clerk \<Rightarrow> string \<Rightarrow> string list \<Rightarrow> cli_error + client_result option" where
  "client_operation N ck command operands =
     (case operands of
        [key] \<Rightarrow>
          if command = ''get'' then
            Inr (map_option (\<lambda>r. client_value r (\<lambda>v. case v of
               Some value \<Rightarrow> Printed (from_utf8_lossy value) | None \<Rightarrow> NotFound)) (clerk_get N (as_bytes key) ck))
          else if command = ''del'' then
            Inr (map_option (\<lambda>r. client_value r (\<lambda>_. Printed ''OK'')) (clerk_delete N (as_bytes key) ck))
          else Inl BadUsage
      | [key, value] \<Rightarrow>
          if command = ''put'' then
            Inr (map_option (\<lambda>r. client_value r (\<lambda>_. Printed ''OK'')) (clerk_put N (as_bytes key) (as_bytes value) ck))
          else if command = ''append'' then
            Inr (map_option (\<lambda>r. client_value r (\<lambda>v. Printed (from_utf8_lossy v)))
                   (clerk_append N (as_bytes key) (as_bytes value) ck))
          else Inl BadUsage
      | _ \<Rightarrow> Inl BadUsage)"

definition client_main ::
  "'c net \<Rightarrow> 'c net \<Rightarrow> string list \<Rightarrow> cli_error + client_result option" where
  "client_main N0 N args =
     (case client_args args DEFAULT_PEERS of
        Inl e \<Rightarrow> Inl e
      | Inr (peers, []) \<Rightarrow> Inl BadUsage
      | Inr (peers, command # operands) \<Rightarrow>
          (case clerk_connect N0 (client_endpoints peers) of
             None \<Rightarrow> Inr None
           | Some (Inl e) \<Rightarrow> Inr (Some (ClerkFailed e))
           | Some (Inr ck) \<Rightarrow> client_operation N ck command operands))"

section \<open>Numbers read back\<close>

lemma digit_value_char [simp]: "d < 10 \<Longrightarrow> digit_value (char_of (48 + d)) = Some d"
  by (simp add: digit_value_def)

lemma parse_digits_snoc:
  "parse_digits acc (cs @ [c]) = Option.bind (parse_digits acc cs) (\<lambda>n. parse_digits n [c])"
  by (induction acc cs rule: parse_digits.induct) (auto split: option.splits)

lemma parse_digits_show_nat: "n < 2 ^ 64 \<Longrightarrow> parse_digits 0 (show_nat n) = Some n"
proof (induction n rule: less_induct)
  case (less n)
  show ?case
  proof (cases "n < 10")
    case True
    then show ?thesis using less.prems by (simp add: show_nat.simps)
  next
    case False
    then have "parse_digits 0 (show_nat (n div 10)) = Some (n div 10)" using less by simp
    moreover have "n div 10 * 10 + n mod 10 < 2 ^ 64" using less.prems by simp
    ultimately show ?thesis using False by (subst show_nat.simps) (simp add: parse_digits_snoc)
  qed
qed

lemma show_nat_digits: "c \<in> set (show_nat n) \<Longrightarrow> \<exists>d < 10. c = char_of (48 + d :: nat)"
proof (induction n rule: show_nat.induct)
  case (1 n)
  show ?case
  proof (cases "n < 10")
    case True
    then show ?thesis using 1(2) by (auto simp: show_nat.simps)
  next
    case False
    then have "c \<in> set (show_nat (n div 10)) \<or> c = char_of (48 + n mod 10)"
      using 1(2) by (subst (asm) show_nat.simps) (simp, blast)
    moreover have "n mod 10 < 10" by simp
    ultimately show ?thesis using 1(1) [OF False] by blast
  qed
qed

lemma show_nat_nonempty [simp]: "show_nat n \<noteq> []"
  by (subst show_nat.simps) simp

lemma digit_neq:
  assumes "c \<in> set (show_nat n)" "of_char e < (48 :: nat) \<or> 57 < (of_char e :: nat)"
  shows "c \<noteq> e"
proof -
  obtain d where "d < 10" "c = char_of (48 + d :: nat)" using show_nat_digits [OF assms(1)] by blast
  then have "of_char c = 48 + d" by simp
  with \<open>d < 10\<close> assms(2) show ?thesis by auto
qed

lemma parse_u64_show_nat [simp]: "n < 2 ^ 64 \<Longrightarrow> parse_u64 (show_nat n) = Some n"
proof -
  assume n: "n < 2 ^ 64"
  obtain c cs where s: "show_nat n = c # cs" using show_nat_nonempty by (cases "show_nat n") blast+
  then have "c \<noteq> CHR ''+''" using digit_neq [of c n "CHR ''+''"] by simp
  with s parse_digits_show_nat [OF n] show ?thesis by (simp add: parse_u64_def)
qed

lemma split_once_append: "sep \<notin> set s \<Longrightarrow> split_once sep (s @ sep # t) = Some (s, t)"
  by (induction s) auto

lemma parse_peer_show: "i < 2 ^ 64 \<Longrightarrow> parse_peer (show_nat i @ ''@'' @ addr) = Inr \<lparr>peer_id = i, peer_addr = addr\<rparr>"
proof -
  have "CHR ''@'' \<notin> set (show_nat i)" using digit_neq [of "CHR ''@''" i "CHR ''@''"] by auto
  then show "i < 2 ^ 64 \<Longrightarrow> ?thesis" by (simp add: parse_peer_def split_once_append)
qed

text \<open>The command line that asks for a configuration.\<close>

definition peer_flags :: "peer list \<Rightarrow> string list" where
  "peer_flags ps = concat (map (\<lambda>p. [''--peer'', show_nat (peer_id p) @ ''@'' @ peer_addr p]) ps)"

definition daemon_flags :: "daemon \<Rightarrow> string list" where
  "daemon_flags d =
     [''--id'', show_nat (dm_id d), ''--raft-listen'', dm_raft_listen d, ''--kv-listen'', dm_kv_listen d,
      ''--data'', dm_data d] @ peer_flags (dm_peers d)"

lemma daemon_args_peers:
  "list_all (\<lambda>p. peer_id p < 2 ^ 64) ps \<Longrightarrow>
   daemon_args (peer_flags ps) d = Inr (Some (d\<lparr>dm_peers := dm_peers d @ ps\<rparr>))"
proof (induction ps arbitrary: d)
  case (Cons p ps)
  then have "parse_peer (show_nat (peer_id p) @ ''@'' @ peer_addr p) = Inr p" by (simp add: parse_peer_show del: append.simps)
  with Cons show ?case by (simp add: peer_flags_def Let_def)
qed (simp add: peer_flags_def)

text \<open>
  C37. The daemon understands its own configurations: every configuration whose node ids are
  \<open>u64\<close> values is what the command line that spells it out is parsed to, the peers in the
  order given, whatever characters the addresses and the directory contain.
\<close>

theorem daemon_command_line_roundtrip:
  assumes "dm_id d < 2 ^ 64" "list_all (\<lambda>p. peer_id p < 2 ^ 64) (dm_peers d)"
  shows "daemon_args (daemon_flags d) daemon_default = Inr (Some d)"
  using assms by (simp add: daemon_flags_def Let_def daemon_args_peers daemon_default_def)

theorem daemon_command_line_roundtrip_witness:
  "daemon_args [''--id'', ''2'', ''--raft-listen'', ''a:1'', ''--kv-listen'', ''a:2'', ''--data'', ''d'',
     ''--peer'', ''10@b:1'', ''--peer'', ''3@x@y''] daemon_default =
   Inr (Some \<lparr>dm_id = 2, dm_raft_listen = ''a:1'', dm_kv_listen = ''a:2'', dm_data = ''d'',
     dm_peers = [\<lparr>peer_id = 10, peer_addr = ''b:1''\<rparr>, \<lparr>peer_id = 3, peer_addr = ''x@y''\<rparr>]\<rparr>)"
proof -
  let ?d = "\<lparr>dm_id = 2, dm_raft_listen = ''a:1'', dm_kv_listen = ''a:2'', dm_data = ''d'',
     dm_peers = [\<lparr>peer_id = 10, peer_addr = ''b:1''\<rparr>, \<lparr>peer_id = 3, peer_addr = ''x@y''\<rparr>]\<rparr>"
  have "daemon_flags ?d = [''--id'', ''2'', ''--raft-listen'', ''a:1'', ''--kv-listen'', ''a:2'', ''--data'', ''d'',
     ''--peer'', ''10@b:1'', ''--peer'', ''3@x@y'']" by code_simp
  then show ?thesis using daemon_command_line_roundtrip [of ?d] by simp
qed

lemma client_args_error: "client_args args peers = Inl e \<Longrightarrow> e = BadUsage"
  by (induction args peers rule: client_args.induct) (auto split: if_splits)

lemma retry_returns:
  assumes "paced N" "clerk_ok ck"
  shows "\<exists>r. retry N op ck = Some r"
  using retry_run [OF assms, of op] by (auto simp: finished_def)

lemma client_operation_returns:
  assumes "paced N" "clerk_ok ck"
  shows "client_operation N ck command operands = Inl BadUsage \<or>
    (\<exists>r. client_operation N ck command operands = Inr (Some r))"
proof -
  have "\<exists>r. clerk_get N k ck = Some r" "\<exists>r. clerk_put N k v ck = Some r"
    "\<exists>r. clerk_append N k v ck = Some r" "\<exists>r. clerk_delete N k ck = Some r" for k v
    unfolding clerk_get_def clerk_put_def clerk_append_def clerk_delete_def by (rule retry_returns [OF assms])+
  then obtain g p a d where ops: "\<And>k. clerk_get N k ck = Some (g k)" "\<And>k v. clerk_put N k v ck = Some (p k v)"
    "\<And>k v. clerk_append N k v ck = Some (a k v)" "\<And>k. clerk_delete N k ck = Some (d k)" by metis
  show ?thesis
  proof (cases operands rule: list.exhaust)
    case (Cons key rest)
    then show ?thesis by (cases rest; cases "tl rest") (simp_all add: client_operation_def ops)
  qed (simp add: client_operation_def)
qed

text \<open>
  The client program ends on every command line: with the usage message, or with a
  result of the operation or the error of the clerk, provided every single call returns and
  the clock advances by the pause between two attempts.
\<close>

lemma client_ends:
  assumes "paced N0" "paced N"
  shows "client_main N0 N args = Inl BadUsage \<or> (\<exists>r. client_main N0 N args = Inr (Some r))"
proof (cases "client_args args DEFAULT_PEERS")
  case (Inl e)
  then show ?thesis using client_args_error by (simp add: client_main_def)
next
  case (Inr pr)
  obtain peers rest where pr: "pr = (peers, rest)" by fastforce
  obtain r where r: "clerk_connect N0 (client_endpoints peers) = Some r" "\<And>ck. r = Inr ck \<Longrightarrow> clerk_ok ck"
    using connect_run [OF assms(1), of "client_endpoints peers"] by (metis (no_types, lifting) sum.case(2))
  show ?thesis
    using client_operation_returns [OF assms(2)] r(2)
    by (cases rest; cases r) (simp_all add: client_main_def Inr pr r(1))
qed

end
