(* ===== verification/Rust_Net.thy ===== *)
theory Rust_Net
  imports Rust_String
begin

text \<open>
  \<open>SocketAddr::from_str\<close> of Rust's standard library, which \<^verbatim>\<open>src/bin/murmurd.rs\<close> applies to its two
  listening addresses: IPv4 with a port, or a bracketed IPv6 address, possibly with a scope,
  and a port. A reader takes a string and returns what it read and the rest.
\<close>

type_synonym 'a scan = "string \<Rightarrow> ('a \<times> string) option"

datatype socket_addr = V4 "nat list" nat | V6 "nat list" nat nat

section \<open>Numbers\<close>

definition digit_of :: "nat \<Rightarrow> char \<Rightarrow> nat option" where
  "digit_of radix c =
     (let n = of_char c;
          d = (if 48 \<le> n \<and> n \<le> 57 then n - 48 else if 65 \<le> n \<and> n \<le> 90 then n - 55
               else if 97 \<le> n \<and> n \<le> 122 then n - 87 else radix)
      in if d < radix then Some d else None)"

fun span_digits :: "nat \<Rightarrow> string \<Rightarrow> nat list \<times> string" where
  "span_digits radix [] = ([], [])"
| "span_digits radix (c # cs) =
     (case digit_of radix c of
        None \<Rightarrow> ([], c # cs)
      | Some d \<Rightarrow> (case span_digits radix cs of (ds, rest) \<Rightarrow> (d # ds, rest)))"

definition digits_value :: "nat \<Rightarrow> nat list \<Rightarrow> nat" where
  "digits_value radix ds = foldl (\<lambda>n d. n * radix + d) 0 ds"

text \<open>
  \<open>max_digits\<close> bounds the number of digits, \<open>bound\<close> is the number of values of the result type,
  and \<open>zero_prefix\<close> allows leading zeros.
\<close>

definition read_number :: "nat \<Rightarrow> nat option \<Rightarrow> bool \<Rightarrow> nat \<Rightarrow> nat scan" where
  "read_number radix max_digits zero_prefix bound s =
     (case span_digits radix s of (ds, rest) \<Rightarrow>
        if ds = [] \<or> (case max_digits of None \<Rightarrow> False | Some m \<Rightarrow> m < length ds) \<or>
           (\<not> zero_prefix \<and> hd ds = 0 \<and> 1 < length ds) \<or> bound \<le> digits_value radix ds
        then None else Some (digits_value radix ds, rest))"

fun read_given_char :: "char \<Rightarrow> string \<Rightarrow> string option" where
  "read_given_char c [] = None"
| "read_given_char c (x # xs) = (if x = c then Some xs else None)"

definition read_separator :: "char \<Rightarrow> bool \<Rightarrow> 'a scan \<Rightarrow> 'a scan" where
  "read_separator sep first p s = (if first then p s else Option.bind (read_given_char sep s) p)"

section \<open>Addresses\<close>

fun read_octets :: "nat \<Rightarrow> bool \<Rightarrow> nat list scan" where
  "read_octets 0 first s = Some ([], s)"
| "read_octets (Suc k) first s =
     Option.bind (read_separator CHR ''.'' first (read_number 10 (Some 3) False 256) s) (\<lambda>(b, s).
     Option.bind (read_octets k False s) (\<lambda>(bs, s). Some (b # bs, s)))"

definition read_ipv4_addr :: "nat list scan" where
  "read_ipv4_addr = read_octets 4 True"

text \<open>At most \<open>k\<close> groups; the flag tells that the last two were written as an IPv4 address.\<close>

fun read_groups :: "nat \<Rightarrow> bool \<Rightarrow> string \<Rightarrow> nat list \<times> bool \<times> string" where
  "read_groups 0 first s = ([], False, s)"
| "read_groups (Suc k) first s =
     (case (if 0 < k then read_separator CHR '':'' first read_ipv4_addr s else None) of
        Some (bs, s) \<Rightarrow> ([bs ! 0 * 256 + bs ! 1, bs ! 2 * 256 + bs ! 3], True, s)
      | None \<Rightarrow>
          (case read_separator CHR '':'' first (read_number 16 (Some 4) True 65536) s of
             None \<Rightarrow> ([], False, s)
           | Some (g, s) \<Rightarrow> (case read_groups k False s of (gs, v4, s) \<Rightarrow> (g # gs, v4, s))))"

definition read_ipv6_addr :: "nat list scan" where
  "read_ipv6_addr s =
     (case read_groups 8 True s of (head, v4, s) \<Rightarrow>
        if length head = 8 then Some (head, s)
        else if v4 then None
        else Option.bind (read_given_char CHR '':'' s) (\<lambda>s.
             Option.bind (read_given_char CHR '':'' s) (\<lambda>s.
               case read_groups (8 - (length head + 1)) True s of (tail, _, s) \<Rightarrow>
                 Some (head @ replicate (8 - length head - length tail) 0 @ tail, s))))"

definition read_port :: "nat scan" where
  "read_port s = Option.bind (read_given_char CHR '':'' s) (read_number 10 None True 65536)"

definition read_scope_id :: "nat scan" where
  "read_scope_id s = Option.bind (read_given_char CHR ''%'' s) (read_number 10 None True (2 ^ 32))"

definition read_socket_addr_v4 :: "socket_addr scan" where
  "read_socket_addr_v4 s =
     Option.bind (read_ipv4_addr s) (\<lambda>(ip, s).
     Option.bind (read_port s) (\<lambda>(port, s). Some (V4 ip port, s)))"

definition read_socket_addr_v6 :: "socket_addr scan" where
  "read_socket_addr_v6 s =
     Option.bind (read_given_char CHR ''['' s) (\<lambda>s.
     Option.bind (read_ipv6_addr s) (\<lambda>(ip, s).
     case (case read_scope_id s of None \<Rightarrow> (0, s) | Some r \<Rightarrow> r) of (scope_id, s) \<Rightarrow>
     Option.bind (read_given_char CHR '']'' s) (\<lambda>s.
     Option.bind (read_port s) (\<lambda>(port, s). Some (V6 ip port scope_id, s)))))"

definition parse_socket_addr :: "string \<Rightarrow> socket_addr option" where
  "parse_socket_addr s =
     (case (case read_socket_addr_v4 s of None \<Rightarrow> read_socket_addr_v6 s | Some r \<Rightarrow> Some r) of
        Some (addr, []) \<Rightarrow> Some addr
      | _ \<Rightarrow> None)"

section \<open>What is printed is read back\<close>

definition show_v4 :: "nat list \<Rightarrow> nat \<Rightarrow> string" where
  "show_v4 ip port =
     show_nat (ip ! 0) @ ''.'' @ show_nat (ip ! 1) @ ''.'' @ show_nat (ip ! 2) @ ''.'' @ show_nat (ip ! 3) @ '':'' @ show_nat port"

lemma digit_of_char [simp]: "d < 10 \<Longrightarrow> digit_of 10 (char_of (48 + d)) = Some d"
  by (simp add: digit_of_def Let_def)

definition stops :: "nat \<Rightarrow> string \<Rightarrow> bool" where
  "stops radix rest \<longleftrightarrow> (case rest of [] \<Rightarrow> True | c # _ \<Rightarrow> digit_of radix c = None)"

lemma span_stops: "stops radix rest \<Longrightarrow> span_digits radix rest = ([], rest)"
  by (cases rest) (simp_all add: stops_def)

text \<open>The digits of a number, most significant first.\<close>

fun decimals :: "nat \<Rightarrow> nat list" where
  "decimals n = (if n < 10 then [n] else decimals (n div 10) @ [n mod 10])"

declare decimals.simps [simp del]

lemma span_append:
  "list_all (\<lambda>d. d < 10) ds \<Longrightarrow> stops 10 rest \<Longrightarrow>
   span_digits 10 (map (\<lambda>d. char_of (48 + d)) ds @ rest) = (ds, rest)"
  by (induction ds) (simp_all add: span_stops)

lemma show_nat_decimals: "show_nat n = map (\<lambda>d. char_of (48 + d)) (decimals n)"
  by (induction n rule: decimals.induct) (subst show_nat.simps, subst decimals.simps, simp)

lemma decimals_digits: "list_all (\<lambda>d. d < 10) (decimals n)"
  by (induction n rule: decimals.induct) (subst decimals.simps, simp)

lemma decimals_value: "digits_value 10 (decimals n) = n"
  unfolding digits_value_def by (induction n rule: decimals.induct) (subst decimals.simps, simp)

lemma decimals_nonempty [simp]: "decimals n \<noteq> []"
  by (subst decimals.simps) simp

lemma decimals_head: "hd (decimals n) = 0 \<Longrightarrow> n = 0"
proof (induction n rule: decimals.induct)
  case (1 n)
  show ?case
  proof (cases "n < 10")
    case True
    with 1(2) show ?thesis by (simp add: decimals.simps)
  next
    case False
    then have "hd (decimals n) = hd (decimals (n div 10))" by (subst decimals.simps) simp
    with 1 False show ?thesis by simp
  qed
qed

lemma decimals_length: "n < 10 ^ m \<Longrightarrow> length (decimals n) \<le> max 1 m"
proof (induction n arbitrary: m rule: decimals.induct)
  case (1 n)
  show ?case
  proof (cases "n < 10")
    case False
    then obtain k where m: "m = Suc k" using 1(2) by (cases m) auto
    then have "n div 10 < 10 ^ k" using 1(2) by (simp add: less_mult_imp_div_less mult.commute)
    moreover have "k \<noteq> 0" using \<open>n div 10 < 10 ^ k\<close> False by (cases k) auto
    ultimately have "length (decimals (n div 10)) \<le> k" using 1(1) [OF False, of k] by (simp add: max_def split: if_splits)
    with False m show ?thesis by (subst decimals.simps) simp
  qed (simp add: decimals.simps)
qed

lemma no_leading_zero: "\<not> (hd (decimals n) = 0 \<and> 1 < length (decimals n))"
proof
  assume n: "hd (decimals n) = 0 \<and> 1 < length (decimals n)"
  then have "n = 0" using decimals_head by blast
  with n show False by (simp add: decimals.simps)
qed

lemma read_number_show:
  assumes "stops 10 rest" "n < bound" "case m of None \<Rightarrow> True | Some k \<Rightarrow> 0 < k \<and> n < 10 ^ k"
  shows "read_number 10 m z bound (show_nat n @ rest) = Some (n, rest)"
proof -
  have "\<not> (case m of None \<Rightarrow> False | Some k \<Rightarrow> k < length (decimals n))"
  proof (cases m)
    case (Some k)
    with assms(3) decimals_length [of n k] show ?thesis by (simp add: max_def split: if_splits)
  qed simp
  with assms(2) no_leading_zero [of n] show ?thesis
    unfolding read_number_def show_nat_decimals span_append [OF decimals_digits assms(1)] prod.case
    by (auto simp: decimals_value)
qed

lemma stops_punctuation: "stops 10 []" "stops 10 (CHR ''.'' # s)" "stops 10 (CHR '':'' # s)"
  by (simp_all add: stops_def digit_of_def)

lemma parse_show_v4:
  assumes "length ip = 4" "list_all (\<lambda>b. b < 256) ip" "port < 65536"
  shows "parse_socket_addr (show_v4 ip port) = Some (V4 ip port)"
proof -
  have four: "4 = Suc (Suc (Suc (Suc 0)))" by simp
  obtain a b c d where ip: "ip = [a, b, c, d]" using assms(1) unfolding four by (auto simp: length_Suc_conv)
  have octet: "read_number 10 (Some 3) False 256 (show_nat n @ rest) = Some (n, rest)" if "n < 256" "stops 10 rest" for n rest
    by (rule read_number_show [OF that(2,1)]) (use that(1) in simp)
  have "read_number 10 None True 65536 (show_nat port @ []) = Some (port, [])"
    by (rule read_number_show) (simp_all add: stops_punctuation assms(3))
  then have "read_port (CHR '':'' # show_nat port) = Some (port, [])" by (simp add: read_port_def)
  then have "read_socket_addr_v4 (show_v4 ip port) = Some (V4 ip port, [])"
    using assms(2) by (simp add: ip show_v4_def read_socket_addr_v4_def read_ipv4_addr_def [unfolded four] read_separator_def
        octet stops_punctuation)
  then show ?thesis by (simp add: parse_socket_addr_def)
qed

lemma socket_addr_samples:
  "parse_socket_addr ''127.0.0.1:6001'' = Some (V4 [127, 0, 0, 1] 6001)"
  "parse_socket_addr ''127.0.0.1:5001'' = Some (V4 [127, 0, 0, 1] 5001)"
  "parse_socket_addr ''[::1]:080'' = Some (V6 [0, 0, 0, 0, 0, 0, 0, 1] 80 0)"
  "parse_socket_addr ''[fe80::2:a%3]:9'' = Some (V6 [0xFE80, 0, 0, 0, 0, 0, 2, 10] 9 3)"
  "parse_socket_addr ''[::ffff:1.2.3.4]:1'' = Some (V6 [0, 0, 0, 0, 0, 0xFFFF, 0x102, 0x304] 1 0)"
  "parse_socket_addr ''localhost:80'' = None" "parse_socket_addr ''1.2.3.4'' = None"
  "parse_socket_addr ''1.2.3.04:5'' = None" "parse_socket_addr ''1.2.3.4:65536'' = None"
  by (simp_all add: parse_socket_addr_def read_socket_addr_v4_def read_socket_addr_v6_def read_ipv4_addr_def read_ipv6_addr_def
      read_port_def read_scope_id_def read_separator_def read_number_def digits_value_def digit_of_def
      read_octets.simps(2) [of "pred_numeral k" for k, folded numeral_eq_Suc]
      read_groups.simps(2) [of "pred_numeral k" for k, folded numeral_eq_Suc]
      replicate.simps(2) [of "pred_numeral k" for k, folded numeral_eq_Suc])

end
