(* ===== verification/Raft_File_Storage.thy ===== *)
theory Raft_File_Storage
  imports Raft_Local
begin

text \<open>
  \<open>FileStorage\<close> of \<^verbatim>\<open>src/raft/storage.rs\<close> over a model of the file system it calls:
  inodes whose contents are safe only once synced, and directory entries that are safe only
  once the directory is synced. Any operation may fail; after a crash the directory is any
  of the versions since its last sync, and the contents of an inode that was not synced are
  arbitrary. (That the directory itself exists is taken to be durable.)
\<close>

section \<open>The file system\<close>

text \<open>A path is its list of components.\<close>

type_synonym path = "string list"

definition path_parent :: "path \<Rightarrow> path option" where
  "path_parent p = (if p = [] then None else Some (butlast p))"

text \<open>\<open>OsString::push\<close>: append to the last component.\<close>

definition os_push :: "path \<Rightarrow> string \<Rightarrow> path" where
  "os_push p s = (if p = [] then [s] else butlast p @ [last p @ s])"

record inode =
  in_data :: bytes
  in_synced :: bool

text \<open>
  \<open>fs_plan k\<close> is what goes wrong with the \<open>k\<close>-th operation: an error message and, for a write,
  how many bytes got through. \<open>fs_hist\<close> holds the directory contents a crash may fall back to.
  \<open>fs_deny p\<close> is the error, if any, with which the file at \<open>p\<close> cannot be read.
\<close>

record fs =
  fs_inode :: "nat \<Rightarrow> inode"
  fs_next :: nat
  fs_dir :: "path \<rightharpoonup> nat"
  fs_hist :: "(path \<rightharpoonup> nat) list"
  fs_dirs :: "path set"
  fs_plan :: "nat \<Rightarrow> (string \<times> nat) option"
  fs_clock :: nat
  fs_deny :: "path \<rightharpoonup> string"

type_synonym 'a io = "fs \<Rightarrow> (storage_error + 'a) \<times> fs"

definition io_bind :: "'a io \<Rightarrow> ('a \<Rightarrow> 'b io) \<Rightarrow> 'b io" where
  "io_bind m f s = (case m s of (Inl e, s) \<Rightarrow> (Inl e, s) | (Inr x, s) \<Rightarrow> f x s)"

definition io_return :: "'a \<Rightarrow> 'a io" where
  "io_return x s = (Inr x, s)"

text \<open>One operation: consult the plan, then act.\<close>

definition io_op :: "(fs \<Rightarrow> (storage_error + 'a) \<times> fs) \<Rightarrow> (nat \<Rightarrow> fs \<Rightarrow> fs) \<Rightarrow> 'a io" where
  "io_op act partial s =
     (let s' = s\<lparr>fs_clock := fs_clock s + 1\<rparr> in
      case fs_plan s (fs_clock s) of
        Some (msg, k) \<Rightarrow> (Inl (IoError msg), partial k s')
      | None \<Rightarrow> act s')"

definition fs_create_dir_all :: "path \<Rightarrow> unit io" where
  "fs_create_dir_all d =
     io_op (\<lambda>s. (Inr (), s\<lparr>fs_dirs := fs_dirs s \<union> set (prefixes d)\<rparr>)) (\<lambda>_ s. s)"

definition set_dir :: "(path \<rightharpoonup> nat) \<Rightarrow> fs \<Rightarrow> fs" where
  "set_dir D s = s\<lparr>fs_dir := D, fs_hist := D # fs_hist s\<rparr>"

definition set_inode :: "nat \<Rightarrow> inode \<Rightarrow> fs \<Rightarrow> fs" where
  "set_inode i n s = s\<lparr>fs_inode := (fs_inode s)(i := n)\<rparr>"

definition dir_exists :: "path \<Rightarrow> fs \<Rightarrow> bool" where
  "dir_exists p s = (case path_parent p of None \<Rightarrow> True | Some d \<Rightarrow> d = [] \<or> d \<in> fs_dirs s)"

definition file_create :: "path \<Rightarrow> nat io" where
  "file_create p =
     io_op (\<lambda>s. if \<not> dir_exists p s then (Inl (IoError ''NotFound''), s)
                else (case fs_dir s p of
                        Some i \<Rightarrow> (Inr i, set_inode i \<lparr>in_data = [], in_synced = False\<rparr> s)
                      | None \<Rightarrow>
                          (let i = fs_next s in
                           (Inr i, set_dir ((fs_dir s)(p \<mapsto> i))
                             (set_inode i \<lparr>in_data = [], in_synced = False\<rparr> (s\<lparr>fs_next := i + 1\<rparr>))))))
           (\<lambda>_ s. s)"

definition file_write_all :: "nat \<Rightarrow> bytes \<Rightarrow> unit io" where
  "file_write_all i bs =
     io_op (\<lambda>s. (Inr (), set_inode i \<lparr>in_data = in_data (fs_inode s i) @ bs, in_synced = False\<rparr> s))
           (\<lambda>k s. set_inode i \<lparr>in_data = in_data (fs_inode s i) @ take k bs, in_synced = False\<rparr> s)"

definition file_sync_all :: "nat \<Rightarrow> unit io" where
  "file_sync_all i =
     io_op (\<lambda>s. (Inr (), set_inode i ((fs_inode s i)\<lparr>in_synced := True\<rparr>) s)) (\<lambda>_ s. s)"

definition fs_rename :: "path \<Rightarrow> path \<Rightarrow> unit io" where
  "fs_rename p q =
     io_op (\<lambda>s. case fs_dir s p of
                  None \<Rightarrow> (Inl (IoError ''NotFound''), s)
                | Some i \<Rightarrow> (Inr (), set_dir ((fs_dir s)(p := None, q \<mapsto> i)) s))
           (\<lambda>_ s. s)"

definition fs_open_dir :: "path \<Rightarrow> unit io" where
  "fs_open_dir d = io_op (\<lambda>s. (Inr (), s)) (\<lambda>_ s. s)"

definition fs_sync_dir :: "unit io" where
  "fs_sync_dir = io_op (\<lambda>s. (Inr (), s\<lparr>fs_hist := [fs_dir s]\<rparr>)) (\<lambda>_ s. s)"

definition fs_content :: "path \<Rightarrow> fs \<Rightarrow> bytes option" where
  "fs_content p s = map_option (\<lambda>i. in_data (fs_inode s i)) (fs_dir s p)"

text \<open>\<open>fs::read\<close>.\<close>

definition fs_read :: "path \<Rightarrow> fs \<Rightarrow> storage_error + bytes" where
  "fs_read p s =
     (case fs_deny s p of
        Some msg \<Rightarrow> Inl (IoError msg)
      | None \<Rightarrow> (case fs_content p s of Some bs \<Rightarrow> Inr bs | None \<Rightarrow> Inl (IoError ''NotFound'')))"

text \<open>What may be found after a crash.\<close>

definition crashed :: "fs \<Rightarrow> fs \<Rightarrow> bool" where
  "crashed s s' \<longleftrightarrow>
     fs_dir s' \<in> set (fs_hist s) \<and> fs_hist s' = [fs_dir s'] \<and>
     (\<forall>i. in_synced (fs_inode s i) \<longrightarrow> fs_inode s' i = fs_inode s i) \<and>
     fs_next s' = fs_next s \<and> fs_dirs s' = fs_dirs s \<and> fs_deny s' = fs_deny s"

section \<open>The storage\<close>

record file_storage =
  fst_path :: path
  fst_tmp :: path

definition file_storage_new :: "path \<Rightarrow> file_storage" where
  "file_storage_new p = \<lparr>fst_path = p, fst_tmp = os_push p ''.tmp''\<rparr>"

definition file_load :: "file_storage \<Rightarrow> fs \<Rightarrow> storage_error + persistent_state" where
  "file_load f s =
     (case fs_read (fst_path f) s of
        Inr bs \<Rightarrow> (case decode bs of Inl e \<Rightarrow> Inl (DecodeFailed e) | Inr st \<Rightarrow> Inr st)
      | Inl e \<Rightarrow> if e = IoError ''NotFound'' then Inr persistent_default else Inl e)"

text \<open>Syncing the directory; a failure to open or to sync it is ignored.\<close>

definition sync_parent :: "file_storage \<Rightarrow> unit io" where
  "sync_parent f s =
     (case path_parent (fst_path f) of
        None \<Rightarrow> (Inr (), s)
      | Some dir \<Rightarrow>
          (case io_bind (fs_open_dir (if dir = [] then [''.''] else dir)) (\<lambda>_. fs_sync_dir) s of
             (_, s) \<Rightarrow> (Inr (), s)))"

definition file_save :: "file_storage \<Rightarrow> fs \<Rightarrow> persistent_state \<Rightarrow> (storage_error + unit) \<times> fs" where
  "file_save f s st =
     io_bind (case path_parent (fst_path f) of
                Some dir \<Rightarrow> if dir \<noteq> [] then fs_create_dir_all dir else io_return ()
              | None \<Rightarrow> io_return ()) (\<lambda>_.
     io_bind (file_create (fst_tmp f)) (\<lambda>file.
     io_bind (file_write_all file (encode st)) (\<lambda>_.
     io_bind (file_sync_all file) (\<lambda>_.
     io_bind (fs_rename (fst_tmp f) (fst_path f)) (\<lambda>_.
       sync_parent f))))) s"

section \<open>The file system invariant\<close>

text \<open>
  In every directory version a crash may fall back to, the state file is a synced inode
  different from the temporary file's; the temporary file that is there now is nobody's
  state file. The state file can be read.
\<close>

definition fs_ok :: "file_storage \<Rightarrow> fs \<Rightarrow> bool" where
  "fs_ok f s \<longleftrightarrow>
     fst_tmp f \<noteq> fst_path f \<and> fs_deny s (fst_path f) = None \<and> fs_dir s \<in> set (fs_hist s) \<and>
     (\<forall>D \<in> set (fs_hist s).
        (\<forall>p i. D p = Some i \<longrightarrow> i < fs_next s) \<and>
        (\<forall>i. D (fst_path f) = Some i \<longrightarrow>
           in_synced (fs_inode s i) \<and> D (fst_tmp f) \<noteq> Some i \<and> fs_dir s (fst_tmp f) \<noteq> Some i))"

text \<open>Every crash outcome holds one of the given file contents (\<open>None\<close>: no file).\<close>

definition survivors :: "file_storage \<Rightarrow> fs \<Rightarrow> bytes option set" where
  "survivors f s =
     (\<lambda>D. map_option (\<lambda>i. in_data (fs_inode s i)) (D (fst_path f))) ` set (fs_hist s)"

lemma tmp_differs: "fst_tmp (file_storage_new p) \<noteq> fst_path (file_storage_new p)"
  by (cases p rule: rev_cases) (simp_all add: file_storage_new_def os_push_def)

lemma fs_okD:
  assumes "fs_ok f s" "D \<in> set (fs_hist s)"
  shows "D p = Some i \<Longrightarrow> i < fs_next s"
    and "D (fst_path f) = Some i \<Longrightarrow> in_synced (fs_inode s i)"
    and "D (fst_path f) = Some i \<Longrightarrow> D (fst_tmp f) \<noteq> Some i"
    and "D (fst_path f) = Some i \<Longrightarrow> fs_dir s (fst_tmp f) \<noteq> Some i"
  using assms unfolding fs_ok_def by blast+

lemma crash_survivor:
  assumes "fs_ok f s" "crashed s s'"
  shows "fs_content (fst_path f) s' \<in> survivors f s \<and> fs_ok f s'"
proof -
  note c = assms(2) [unfolded crashed_def]
  let ?D = "fs_dir s'"
  have D: "?D \<in> set (fs_hist s)" using c by blast
  have same: "fs_inode s' i = fs_inode s i" if "?D (fst_path f) = Some i" for i
    using fs_okD(2) [OF assms(1) D that] c by blast
  then have "fs_content (fst_path f) s' = map_option (\<lambda>i. in_data (fs_inode s i)) (?D (fst_path f))"
    by (cases "?D (fst_path f)") (simp_all add: fs_content_def)
  then have "fs_content (fst_path f) s' \<in> survivors f s" using D by (auto simp: survivors_def)
  moreover have "fs_ok f s'"
    using c fs_okD [OF assms(1) D] assms(1) same by (auto simp: fs_ok_def)
  ultimately show ?thesis ..
qed

lemma crash_possible: "fs_ok f s \<Longrightarrow> \<exists>c. crashed s c"
  by (rule exI [of _ "s\<lparr>fs_hist := [fs_dir s]\<rparr>"]) (simp add: crashed_def fs_ok_def)

lemma clock_frame [simp]:
  "fs_ok f (s\<lparr>fs_clock := k\<rparr>) = fs_ok f s" "survivors f (s\<lparr>fs_clock := k\<rparr>) = survivors f s"
  "fs_content p (s\<lparr>fs_clock := k\<rparr>) = fs_content p s"
  "fs_ok f (s\<lparr>fs_dirs := ds\<rparr>) = fs_ok f s" "survivors f (s\<lparr>fs_dirs := ds\<rparr>) = survivors f s"
  "fs_content p (s\<lparr>fs_dirs := ds\<rparr>) = fs_content p s"
  by (simp_all add: fs_ok_def survivors_def fs_content_def)

text \<open>The state file, now and after a crash, is as it was.\<close>

definition untouched :: "file_storage \<Rightarrow> fs \<Rightarrow> fs \<Rightarrow> bool" where
  "untouched f s s' \<longleftrightarrow>
     fs_ok f s' \<and> survivors f s' = survivors f s \<and> fs_content (fst_path f) s' = fs_content (fst_path f) s \<and>
     fs_plan s' = fs_plan s"

text \<open>\<open>tmp_holds f s i bs\<close>: the temporary file is inode \<open>i\<close> and holds \<open>bs\<close>.\<close>

definition tmp_holds :: "file_storage \<Rightarrow> fs \<Rightarrow> nat \<Rightarrow> bytes \<Rightarrow> bool" where
  "tmp_holds f s i bs \<longleftrightarrow> fs_dir s (fst_tmp f) = Some i \<and> in_data (fs_inode s i) = bs"

lemma untouched_refl: "fs_ok f s \<Longrightarrow> untouched f s s"
  by (simp add: untouched_def)

lemma untouched_trans: "untouched f a b \<Longrightarrow> untouched f b c \<Longrightarrow> untouched f a c"
  by (simp add: untouched_def)

lemma untouched_clock [simp]:
  "untouched f s (s\<lparr>fs_clock := k\<rparr>) = fs_ok f s"
  "untouched f (s\<lparr>fs_clock := k\<rparr>) s' = untouched f s s'"
  by (auto simp: untouched_def)

text \<open>Writing to an inode that is no version's state file.\<close>

lemma untouched_inode:
  assumes ok: "fs_ok f s" and free: "\<And>D. D \<in> set (fs_hist s) \<Longrightarrow> D (fst_path f) \<noteq> Some i"
  shows "untouched f s (set_inode i n s)"
proof -
  have dir: "fs_dir s \<in> set (fs_hist s)" using ok by (simp add: fs_ok_def)
  have "map_option (\<lambda>j. in_data (fs_inode (set_inode i n s) j)) (D (fst_path f)) =
      map_option (\<lambda>j. in_data (fs_inode s j)) (D (fst_path f))" if "D \<in> set (fs_hist s)" for D
    using free [OF that] by (cases "D (fst_path f)") (auto simp: set_inode_def)
  then have "survivors f (set_inode i n s) = survivors f s"
    "fs_content (fst_path f) (set_inode i n s) = fs_content (fst_path f) s"
    using dir by (auto simp: survivors_def fs_content_def set_inode_def)
  moreover have "fs_ok f (set_inode i n s)"
    using ok free unfolding fs_ok_def set_inode_def by auto
  ultimately show ?thesis by (simp add: untouched_def set_inode_def)
qed

lemma tmp_inode_free:
  assumes "fs_ok f s" "fs_dir s (fst_tmp f) = Some i" "D \<in> set (fs_hist s)"
  shows "D (fst_path f) \<noteq> Some i"
  using fs_okD(4) [OF assms(1,3)] assms(2) by blast

lemma create_dir_untouched:
  assumes "fs_ok f s" "fs_create_dir_all d s = (r, s')"
  shows "untouched f s s'"
  using assms by (auto simp: fs_create_dir_all_def io_op_def Let_def untouched_def split: option.splits)

lemma create_tmp:
  assumes ok: "fs_ok f s" and run: "file_create (fst_tmp f) s = (r, s')"
  shows "untouched f s s' \<and> (\<forall>i. r = Inr i \<longrightarrow> tmp_holds f s' i [])"
proof -
  let ?s = "s\<lparr>fs_clock := fs_clock s + 1\<rparr>" and ?n = "\<lparr>in_data = [], in_synced = False\<rparr>"
  have ok': "fs_ok f ?s" using ok by simp
  consider (err) e where "r = Inl e" "s' = ?s"
    | (old) i where "fs_dir s (fst_tmp f) = Some i" "r = Inr i" "s' = set_inode i ?n ?s"
    | (new) i where "fs_dir s (fst_tmp f) = None" "i = fs_next s" "r = Inr i"
        "s' = set_dir ((fs_dir s)(fst_tmp f \<mapsto> i)) (set_inode i ?n (?s\<lparr>fs_next := i + 1\<rparr>))"
    using run by (auto simp: file_create_def io_op_def Let_def split: option.splits if_splits)
  then show ?thesis
  proof cases
    case err
    with ok show ?thesis by simp
  next
    case old
    have "untouched f ?s (set_inode i ?n ?s)"
      by (rule untouched_inode [OF ok']) (use tmp_inode_free [OF ok old(1)] in simp)
    with old show ?thesis by (simp add: tmp_holds_def set_inode_def)
  next
    case new
    let ?t = "?s\<lparr>fs_next := i + 1\<rparr>"
    have fresh: "D p \<noteq> Some i" if "D \<in> set (fs_hist s)" for D p
      using fs_okD(1) [OF ok that] new(2) by fastforce
    have "fs_ok f ?t" using ok unfolding fs_ok_def by (auto intro: less_SucI simp: new(2))
    then have u: "untouched f ?t (set_inode i ?n ?t)"
      by (rule untouched_inode) (use fresh in simp)
    let ?D = "(fs_dir s)(fst_tmp f \<mapsto> i)"
    have dir: "fs_dir s \<in> set (fs_hist s)" and ne: "fst_path f \<noteq> fst_tmp f" using ok by (auto simp: fs_ok_def)
    have "untouched f (set_inode i ?n ?t) s'"
    proof -
      have "fs_ok f s'"
        using u fresh dir ne unfolding new(4) untouched_def fs_ok_def set_dir_def set_inode_def
        by (auto simp: new(2) dest: fs_okD(1) [OF ok dir] intro: less_SucI)
      moreover have "survivors f s' = survivors f (set_inode i ?n ?t)"
        using dir ne by (auto simp: new(4) survivors_def set_dir_def set_inode_def)
      moreover have "fs_content (fst_path f) s' = fs_content (fst_path f) (set_inode i ?n ?t)"
        using ne by (simp add: new(4) fs_content_def set_dir_def set_inode_def)
      ultimately show ?thesis by (simp add: untouched_def new(4) set_dir_def)
    qed
    with u have "untouched f ?t s'" by (rule untouched_trans)
    then have "untouched f s s'" by (simp add: untouched_def survivors_def fs_content_def)
    with new show ?thesis by (simp add: tmp_holds_def set_dir_def set_inode_def)
  qed
qed

lemma write_tmp:
  assumes ok: "fs_ok f s" and tmp: "tmp_holds f s i xs" and run: "file_write_all i bs s = (r, s')"
  shows "untouched f s s' \<and> (r = Inr () \<longrightarrow> tmp_holds f s' i (xs @ bs))"
proof -
  let ?s = "s\<lparr>fs_clock := fs_clock s + 1\<rparr>"
  have ok': "fs_ok f ?s" using ok by simp
  have "fs_dir s (fst_tmp f) = Some i" using tmp by (simp add: tmp_holds_def)
  then have "untouched f ?s (set_inode i n ?s)" for n
    by (intro untouched_inode [OF ok']) (use tmp_inode_free [OF ok] in simp)
  moreover obtain n where "s' = set_inode i n ?s" "r = Inr () \<longrightarrow> in_data n = xs @ bs"
    using run tmp by (auto simp: file_write_all_def io_op_def Let_def tmp_holds_def split: option.splits)
  ultimately show ?thesis using tmp by (simp add: tmp_holds_def set_inode_def)
qed

lemma sync_tmp:
  assumes ok: "fs_ok f s" and tmp: "tmp_holds f s i bs" and run: "file_sync_all i s = (r, s')"
  shows "untouched f s s' \<and> (r = Inr () \<longrightarrow> tmp_holds f s' i bs \<and> in_synced (fs_inode s' i))"
proof -
  let ?s = "s\<lparr>fs_clock := fs_clock s + 1\<rparr>"
  have ok': "fs_ok f ?s" using ok by simp
  have "fs_dir s (fst_tmp f) = Some i" using tmp by (simp add: tmp_holds_def)
  then have "untouched f ?s (set_inode i n ?s)" for n
    by (intro untouched_inode [OF ok']) (use tmp_inode_free [OF ok] in simp)
  with run tmp ok show ?thesis
    by (auto simp: file_sync_all_def io_op_def Let_def tmp_holds_def set_inode_def split: option.splits)
qed

lemma rename_tmp:
  assumes ok: "fs_ok f s" and tmp: "tmp_holds f s i bs" "in_synced (fs_inode s i)"
    and run: "fs_rename (fst_tmp f) (fst_path f) s = (r, s')"
  shows "r = Inr () \<and> fs_ok f s' \<and> survivors f s' = insert (Some bs) (survivors f s) \<and>
      fs_content (fst_path f) s' = Some bs \<and> fs_plan s' = fs_plan s \<or>
    r \<noteq> Inr () \<and> untouched f s s'"
proof -
  let ?s = "s\<lparr>fs_clock := fs_clock s + 1\<rparr>" and ?D = "(fs_dir s)(fst_tmp f := None, fst_path f \<mapsto> i)"
  have dir: "fs_dir s \<in> set (fs_hist s)" and ne: "fst_path f \<noteq> fst_tmp f" using ok by (auto simp: fs_ok_def)
  have t: "fs_dir s (fst_tmp f) = Some i" "in_data (fs_inode s i) = bs" using tmp by (simp_all add: tmp_holds_def)
  consider (err) "r \<noteq> Inr ()" "s' = ?s" | (moved) "r = Inr ()" "s' = set_dir ?D ?s"
    using run t by (auto simp: fs_rename_def io_op_def Let_def split: option.splits)
  then show ?thesis
  proof cases
    case err
    with ok show ?thesis by simp
  next
    case moved
    have "fs_ok f s'"
      using ok tmp(2) t ne dir unfolding moved(2) fs_ok_def set_dir_def by (auto split: if_splits)
    with moved t ne show ?thesis
      by (simp add: survivors_def set_dir_def fs_content_def)
  qed
qed

lemma sync_parent_effect:
  assumes ok: "fs_ok f s" and run: "sync_parent f s = (r, s')"
  shows "r = Inr () \<and> fs_ok f s' \<and> survivors f s' \<subseteq> survivors f s \<and>
    fs_content (fst_path f) s' = fs_content (fst_path f) s \<and> fs_plan s' = fs_plan s \<and>
    (fs_plan s = (\<lambda>_. None) \<and> fst_path f \<noteq> [] \<longrightarrow> survivors f s' = {fs_content (fst_path f) s})"
proof -
  have dir: "fs_dir s \<in> set (fs_hist s)" using ok by (simp add: fs_ok_def)
  have "r = Inr () \<and> (\<exists>k. s' = s\<lparr>fs_clock := k\<rparr> \<or> s' = s\<lparr>fs_clock := k, fs_hist := [fs_dir s]\<rparr>) \<and>
      (fs_plan s = (\<lambda>_. None) \<and> fst_path f \<noteq> [] \<longrightarrow> fs_hist s' = [fs_dir s])"
    using run
    by (auto simp: sync_parent_def io_bind_def fs_open_dir_def fs_sync_dir_def io_op_def Let_def path_parent_def
        split: option.splits if_splits prod.splits) (metis fs.surjective fs.update_convs(7))+
  moreover have "fs_ok f (s\<lparr>fs_clock := k, fs_hist := [fs_dir s]\<rparr>)" for k
    using ok fs_okD [OF ok dir] by (auto simp: fs_ok_def)
  moreover have "survivors f (s\<lparr>fs_clock := k, fs_hist := [fs_dir s]\<rparr>) \<subseteq> survivors f s" for k
    using dir by (auto simp: survivors_def)
  ultimately show ?thesis using ok by (auto simp: survivors_def fs_content_def)
qed

section \<open>What a save does\<close>

lemma io_bind_cases:
  assumes "io_bind m k s = (r, s')"
  obtains (err) e where "m s = (Inl e, s')" "r = Inl e"
  | (ok) x t where "m s = (Inr x, t)" "k x t = (r, s')"
  using assms by (cases "m s") (auto simp: io_bind_def split: sum.splits)

text \<open>Up to the rename: either something failed, or the new image is synced in the temporary file.\<close>

lemma write_new_image:
  assumes okf: "fs_ok f s"
    and run: "io_bind (file_create (fst_tmp f)) (\<lambda>file. io_bind (file_write_all file bs) (\<lambda>_.
      io_bind (file_sync_all file) (\<lambda>_. k))) s = (r, s')"
  obtains (err) "r \<noteq> Inr x" "untouched f s s'"
  | (image) i t where "untouched f s t" "tmp_holds f t i bs" "in_synced (fs_inode t i)" "k t = (r, s')"
  using run
proof (cases rule: io_bind_cases)
  case err
  with create_tmp [OF okf] that(1) show thesis by auto
next
  case (ok i a)
  then have a: "untouched f s a" "tmp_holds f a i []" using create_tmp [OF okf] by auto
  from ok(2) show thesis
  proof (cases rule: io_bind_cases)
    case err
    with write_tmp [OF _ a(2)] a(1) untouched_trans [OF a(1)] that(1) show thesis
      by (auto simp: untouched_def)
  next
    case (ok u b)
    then have b: "untouched f a b" "tmp_holds f b i bs"
      using write_tmp [OF _ a(2)] a(1) by (auto simp: untouched_def)
    note ab = untouched_trans [OF a(1) b(1)]
    from ok(2) show thesis
    proof (cases rule: io_bind_cases)
      case err
      with sync_tmp [OF _ b(2)] ab untouched_trans [OF ab] that(1) show thesis by (auto simp: untouched_def)
    next
      case (ok u d)
      then have "untouched f b d" "tmp_holds f d i bs" "in_synced (fs_inode d i)"
        using sync_tmp [OF _ b(2)] ab by (auto simp: untouched_def)
      with untouched_trans [OF ab] ok(2) that(2) show thesis by blast
    qed
  qed
qed

definition saved_image :: "file_storage \<Rightarrow> fs \<Rightarrow> fs \<Rightarrow> bytes \<Rightarrow> bool" where
  "saved_image f s s' bs \<longleftrightarrow>
     fs_ok f s' \<and> survivors f s' \<subseteq> insert (Some bs) (survivors f s) \<and>
     fs_content (fst_path f) s' = Some bs \<and> fs_plan s' = fs_plan s \<and>
     (fs_plan s = (\<lambda>_. None) \<and> fst_path f \<noteq> [] \<longrightarrow> survivors f s' = {Some bs})"

lemma file_save_effect:
  assumes ok: "fs_ok f s" and run: "file_save f s st = (r, s')"
  shows "r = Inr () \<and> saved_image f s s' (encode st) \<or> r \<noteq> Inr () \<and> untouched f s s'"
  using run unfolding file_save_def
proof (cases rule: io_bind_cases)
  case err
  with create_dir_untouched [OF ok] show ?thesis
    by (auto simp: io_return_def split: option.splits if_splits)
next
  case (ok u a)
  then have a: "untouched f s a"
    using create_dir_untouched [OF assms(1)] untouched_refl [OF assms(1)]
    by (auto simp: io_return_def split: option.splits if_splits)
  then have "fs_ok f a" by (simp add: untouched_def)
  then show ?thesis
    using ok(2)
  proof (cases rule: write_new_image [where x = "()"])
    case err
    with untouched_trans [OF a] show ?thesis by blast
  next
    case (image i t)
    note at = untouched_trans [OF a image(1)]
    have okt: "fs_ok f t" using at by (simp add: untouched_def)
    from image(4) show ?thesis
    proof (cases rule: io_bind_cases)
      case err
      with rename_tmp [OF okt image(2,3)] untouched_trans [OF at] show ?thesis by auto
    next
      case (ok u d)
      with rename_tmp [OF okt image(2,3)]
      have d: "fs_ok f d" "survivors f d = insert (Some (encode st)) (survivors f t)"
        "fs_content (fst_path f) d = Some (encode st)" "fs_plan d = fs_plan t" by auto
      with sync_parent_effect [OF d(1) ok(2)] at show ?thesis
        by (auto simp: saved_image_def untouched_def)
    qed
  qed
qed

text \<open>With nothing going wrong, a save succeeds.\<close>

lemma path_parent_push: "path_parent (os_push p s) = Some (butlast p)"
  by (simp add: path_parent_def os_push_def)

lemma file_save_succeeds:
  assumes "fs_plan s = (\<lambda>_. None)"
  shows "fst (file_save (file_storage_new p) s st) = Inr ()"
proof -
  have "dir_exists (os_push p ''.tmp'') (s\<lparr>fs_dirs := fs_dirs s \<union> set (prefixes (butlast p)), fs_clock := k\<rparr>)" for k
    by (simp add: dir_exists_def path_parent_push)
  moreover have "p = [] \<or> butlast p = [] \<Longrightarrow> dir_exists (os_push p ''.tmp'') s" for s
    by (auto simp: dir_exists_def path_parent_push)
  ultimately show ?thesis
    using assms
    by (auto simp: file_save_def file_storage_new_def io_bind_def io_return_def io_op_def Let_def sync_parent_def
        fs_create_dir_all_def file_create_def file_write_all_def file_sync_all_def fs_rename_def fs_open_dir_def
        fs_sync_dir_def set_dir_def set_inode_def path_parent_def split: option.splits)
qed

section \<open>The storage contract\<close>

lemma file_load_content:
  "fs_deny s (fst_path f) = None \<Longrightarrow>
   file_load f s = (case fs_content (fst_path f) s of
     Some bs \<Rightarrow> (case decode bs of Inl e \<Rightarrow> Inl (DecodeFailed e) | Inr st \<Rightarrow> Inr st) | None \<Rightarrow> Inr persistent_default)"
  by (simp add: file_load_def fs_read_def split: option.splits)

lemma fs_ok_readable: "fs_ok f s \<Longrightarrow> fs_deny s (fst_path f) = None"
  by (simp add: fs_ok_def)

lemma file_load_image:
  "fs_ok f s \<Longrightarrow> fs_content (fst_path f) s = Some (encode st) \<Longrightarrow> state_fits st \<Longrightarrow> file_load f s = Inr st"
  by (simp add: file_load_content fs_ok_readable decode_encode)

lemma file_load_read:
  "fs_ok f s \<Longrightarrow> fs_ok f s' \<Longrightarrow> fs_content (fst_path f) s' = fs_content (fst_path f) s \<Longrightarrow> file_load f s' = file_load f s"
  by (simp add: file_load_content fs_ok_readable)

text \<open>A state file that cannot be read is an error, not a fresh node: such a node does not start.\<close>

lemma unreadable_state_stops_start:
  assumes "fs_deny s p = Some msg" "msg \<noteq> ''NotFound''"
  shows "file_load (file_storage_new p) s = Inl (IoError msg)"
    and "cm_new rng nid peers 
      \<lparr>ds_self = s, ds_load = file_load (file_storage_new p), ds_save = file_save (file_storage_new p)\<rparr> tim now =
      Inl (IoError msg)"
  using assms by (simp_all add: file_load_def fs_read_def file_storage_new_def cm_new_def storage_load_def)

interpretation disk_file: raft_storage "file_load (file_storage_new p)" "file_save (file_storage_new p)"
  "fs_ok (file_storage_new p)" state_fits for p
proof unfold_locales
  fix s st r s' e
  assume ok: "fs_ok (file_storage_new p) s"
  show "fs_ok (file_storage_new p) s'" if "file_save (file_storage_new p) s st = (r, s')"
    using file_save_effect [OF ok that] by (auto simp: saved_image_def untouched_def)
  show "file_load (file_storage_new p) s' = Inr st"
    if "state_fits st" "file_save (file_storage_new p) s st = (Inr (), s')"
    using file_save_effect [OF ok that(2)] that(1) by (auto simp: saved_image_def intro: file_load_image)
  show "file_load (file_storage_new p) s' = file_load (file_storage_new p) s \<or>
      file_load (file_storage_new p) s' = Inr st"
    if "state_fits st" "file_save (file_storage_new p) s st = (Inl e, s')"
    using file_save_effect [OF ok that(2)] by (auto simp: untouched_def intro: file_load_read [OF ok])
qed

text \<open>On a disk that does not fail, \<open>FileStorage\<close> is what the consensus module relies on.\<close>

definition fs_healthy :: "file_storage \<Rightarrow> fs \<Rightarrow> bool" where
  "fs_healthy f s \<longleftrightarrow> fs_ok f s \<and> fs_plan s = (\<lambda>_. None)"

interpretation reliable_file: reliable_storage "file_load (file_storage_new p)"
  "file_save (file_storage_new p)" "fs_healthy (file_storage_new p)" state_fits for p
proof unfold_locales
  fix s st r s' e
  assume h: "fs_healthy (file_storage_new p) s"
  then have ok: "fs_ok (file_storage_new p) s" by (simp add: fs_healthy_def)
  show "fs_healthy (file_storage_new p) s'" if "file_save (file_storage_new p) s st = (r, s')"
    using file_save_effect [OF ok that] h by (auto simp: saved_image_def untouched_def fs_healthy_def)
  show "file_load (file_storage_new p) s' = Inr st"
    if "state_fits st" "file_save (file_storage_new p) s st = (Inr (), s')"
    by (rule disk_file.save_ok [OF ok that])
  show "file_load (file_storage_new p) s' = file_load (file_storage_new p) s \<or>
      file_load (file_storage_new p) s' = Inr st"
    if "state_fits st" "file_save (file_storage_new p) s st = (Inl e, s')"
    by (rule disk_file.save_err [OF ok that])
  show "fst (file_save (file_storage_new p) s st) = Inr ()" if "state_fits st"
    using h file_save_succeeds by (simp add: fs_healthy_def)
qed

section \<open>Crashes\<close>

text \<open>Every survivor is what some crash leaves behind.\<close>

lemma survivor_crash:
  assumes "x \<in> survivors f s"
  obtains c where "crashed s c" "fs_content (fst_path f) c = x"
proof -
  from assms obtain D where D: "D \<in> set (fs_hist s)"
    "x = map_option (\<lambda>i. in_data (fs_inode s i)) (D (fst_path f))" by (auto simp: survivors_def)
  have "crashed s (s\<lparr>fs_dir := D, fs_hist := [D]\<rparr>)" using D by (simp add: crashed_def)
  moreover have "fs_content (fst_path f) (s\<lparr>fs_dir := D, fs_hist := [D]\<rparr>) = x" using D by (simp add: fs_content_def)
  ultimately show thesis by (rule that)
qed

lemma crash_after_save:
  assumes ok: "fs_ok f s" and run: "file_save f s st = (r, s')" and c: "crashed s' c" and fits: "state_fits st"
  shows "file_load f c = Inr st \<or> (\<exists>c0. crashed s c0 \<and> file_load f c = file_load f c0)"
proof -
  have ok': "fs_ok f s'" and "survivors f s' \<subseteq> insert (Some (encode st)) (survivors f s)"
    using file_save_effect [OF ok run] by (auto simp: saved_image_def untouched_def)
  with crash_survivor [OF ok' c] have okc: "fs_ok f c" and "fs_content (fst_path f) c = Some (encode st) \<or>
      fs_content (fst_path f) c \<in> survivors f s" by blast+
  then show ?thesis
  proof (elim disjE)
    assume "fs_content (fst_path f) c = Some (encode st)"
    with fits okc show ?thesis using file_load_image by blast
  next
    assume "fs_content (fst_path f) c \<in> survivors f s"
    then obtain c0 where c0: "crashed s c0" "fs_content (fst_path f) c0 = fs_content (fst_path f) c"
      by (rule survivor_crash)
    with crash_survivor [OF ok c0(1)] file_load_read [OF _ okc, of c0] show ?thesis by auto
  qed
qed

lemma save_keeps_ok: "fs_ok f s \<Longrightarrow> file_save f s st = (r, s') \<Longrightarrow> fs_ok f s'"
  using file_save_effect [of f s st r s'] by (auto simp: saved_image_def untouched_def)

text \<open>An empty disk, and one whose first directory operation after the rename fails.\<close>

definition fs_empty :: fs where
  "fs_empty =
     \<lparr>fs_inode = (\<lambda>_. \<lparr>in_data = [], in_synced = False\<rparr>), fs_next = 0, fs_dir = Map.empty,
      fs_hist = [Map.empty], fs_dirs = {}, fs_plan = (\<lambda>_. None), fs_clock = 0, fs_deny = Map.empty\<rparr>"

definition state_file :: file_storage where
  "state_file = file_storage_new [''data'', ''raft.state'']"

lemma state_file_paths [simp]:
  "fst_path state_file = [''data'', ''raft.state'']" "fst_tmp state_file = [''data'', ''raft.state.tmp'']"
  by (simp_all add: state_file_def file_storage_new_def os_push_def)

lemma fs_empty_ok: "fs_ok (file_storage_new p) (fs_empty\<lparr>fs_plan := f\<rparr>)"
  using tmp_differs [of p] by (simp add: fs_ok_def fs_empty_def)

lemma fs_empty_healthy: "fs_healthy (file_storage_new p) fs_empty"
  using fs_empty_ok [of p "\<lambda>_. None"] by (simp add: fs_healthy_def fs_empty_def)

lemma fs_empty_crash:
  assumes "crashed (fs_empty\<lparr>fs_plan := f\<rparr>) c"
  shows "file_load g c = Inr persistent_default"
  using assms by (simp add: crashed_def fs_empty_def file_load_def fs_read_def fs_content_def)

text \<open>
  C13. A crash at any point of a save leaves the old state or the new one. Whatever fails
  and wherever the save stops (\<open>fs_plan\<close>), whichever directory version and whatever garbage
  in unsynced blocks the crash leaves, a load returns the state being saved or what a load
  could have returned after a crash before the save.
\<close>

theorem save_is_crash_atomic:
  assumes "fs_ok (file_storage_new p) s" "state_fits st"
    and "\<And>c. crashed s c \<Longrightarrow> file_load (file_storage_new p) c = Inr old"
    and "file_save (file_storage_new p) s st = (r, s')" "crashed s' c"
  shows "file_load (file_storage_new p) c \<in> {Inr old, Inr st}"
  using crash_after_save [OF assms(1,4,5,2)] assms(3) by auto

theorem save_is_crash_atomic_witness:
  "\<exists>s r s' c. fs_plan s 2 = Some (''disk full'', 5) \<and> file_save state_file s sample_state = (r, s') \<and>
     crashed s' c \<and> file_load state_file c \<in> {Inr persistent_default, Inr sample_state}"
proof -
  let ?s = "fs_empty\<lparr>fs_plan := (\<lambda>k. if k = 2 then Some (''disk full'', 5 :: nat) else None)\<rparr>"
  obtain r s' where run: "file_save state_file ?s sample_state = (r, s')" by fastforce
  obtain c where c: "crashed s' c"
    using crash_possible [OF save_keeps_ok [OF fs_empty_ok run [unfolded state_file_def]]] by blast
  have "file_load state_file c \<in> {Inr persistent_default, Inr sample_state}"
    unfolding state_file_def
    by (rule save_is_crash_atomic [OF fs_empty_ok sample_state_fits fs_empty_crash
          run [unfolded state_file_def] c])
  with run c show ?thesis by force
qed

section \<open>Power loss\<close>

text \<open>
  Between two saves on a disk that does not fail, nothing is left to lose: every crash leaves
  the state file as it is. That, too, is a reliable storage.
\<close>

definition fs_settled :: "file_storage \<Rightarrow> fs \<Rightarrow> bool" where
  "fs_settled f s \<longleftrightarrow> fs_healthy f s \<and> survivors f s = {fs_content (fst_path f) s}"

lemma save_settles:
  assumes "fs_settled (file_storage_new (d @ [name])) s" "file_save (file_storage_new (d @ [name])) s st = (r, s')"
  shows "fs_settled (file_storage_new (d @ [name])) s'"
proof -
  from assms(1) have ok: "fs_ok (file_storage_new (d @ [name])) s" "fs_plan s = (\<lambda>_. None)"
    by (simp_all add: fs_settled_def fs_healthy_def)
  have "r = Inr ()" using file_save_succeeds [OF ok(2), of "d @ [name]" st] assms(2) by simp
  with file_save_effect [OF ok(1) assms(2)] ok(2) show ?thesis
    by (auto simp: saved_image_def fs_settled_def fs_healthy_def file_storage_new_def)
qed

interpretation settled_file: reliable_storage "file_load (file_storage_new (d @ [name]))"
  "file_save (file_storage_new (d @ [name]))" "fs_settled (file_storage_new (d @ [name]))" state_fits for d name
proof unfold_locales
  fix s st r s' e
  assume s: "fs_settled (file_storage_new (d @ [name])) s"
  then have h: "fs_healthy (file_storage_new (d @ [name])) s" by (simp add: fs_settled_def)
  show "fs_settled (file_storage_new (d @ [name])) s'" if "file_save (file_storage_new (d @ [name])) s st = (r, s')"
    by (rule save_settles [OF s that])
  show "file_load (file_storage_new (d @ [name])) s' = Inr st"
    if "state_fits st" "file_save (file_storage_new (d @ [name])) s st = (Inr (), s')"
    by (rule reliable_file.save_ok [OF h that])
  show "file_load (file_storage_new (d @ [name])) s' = file_load (file_storage_new (d @ [name])) s \<or>
      file_load (file_storage_new (d @ [name])) s' = Inr st"
    if "state_fits st" "file_save (file_storage_new (d @ [name])) s st = (Inl e, s')"
    by (rule reliable_file.save_err [OF h that])
  show "fst (file_save (file_storage_new (d @ [name])) s st) = Inr ()" if "state_fits st"
    by (rule reliable_file.save_succeeds [OF h that])
qed

lemma settled_crash:
  assumes "fs_settled f s" "crashed s c"
  shows "file_load f c = file_load f s"
proof -
  have ok: "fs_ok f s" and one: "survivors f s = {fs_content (fst_path f) s}"
    using assms(1) by (simp_all add: fs_settled_def fs_healthy_def)
  from crash_survivor [OF ok assms(2)] one have "fs_ok f c" "fs_content (fst_path f) c = fs_content (fst_path f) s" by simp_all
  then show ?thesis by (rule file_load_read [OF ok])
qed

text \<open>The storage object for a path, on a given file system.\<close>

definition file_box :: "path \<Rightarrow> fs \<Rightarrow> fs dyn_storage" where
  "file_box path s = \<lparr>ds_self = s, ds_load = file_load (file_storage_new path), ds_save = file_save (file_storage_new path)\<rparr>"

text \<open>A lone node started on an empty file, and its first campaign.\<close>

lemma lone_election:
  assumes "cm_new rng 1 [] (file_box path s) tim now = Inr c0" "storage_load (file_box path s) = Inr persistent_default"
  shows "persistent_of (fst (start_election rng now c0)) =
      \<lparr>ps_current_term = 1, ps_voted_for = Some 1, ps_log = log_new, ps_snapshot = None\<rparr>"
    and "is_leader (fst (start_election rng now c0))" "cm_storage c0 = file_box path s" "mirrored c0"
  using assms
  by (auto simp: cm_new_def Let_def start_election_def maybe_become_leader_def become_leader_def quorum_of_def
      abandon_pre_election_def reset_election_deadline_def persistent_of_def persistent_default_def is_leader_def mirrored_def)

lemma lone_run:
  obtains cm cm' where "cm_new (\<lambda>lo hi. lo) 1 [] (file_box p fs_empty) tim 0 = Inr cm"
    "cm_runs state_fits cm [StartElection (\<lambda>lo hi. lo) 0] cm'" "cm_current_term cm' = 1" "cm_voted_for cm' = Some 1"
proof -
  have load: "storage_load (file_box p fs_empty) = Inr persistent_default"
    by (simp add: storage_load_def file_box_def file_load_def fs_read_def fs_content_def fs_empty_def)
  obtain cm where cm: "cm_new (\<lambda>lo hi. lo) 1 [] (file_box p fs_empty) tim 0 = Inr cm"
    by (simp add: cm_new_def load Let_def)
  let ?cm' = "fst (start_election (\<lambda>lo hi. lo) 0 cm)"
  note l = lone_election [OF cm load]
  have "state_fits (persistent_of ?cm')" unfolding l(1) by (simp add: state_fits_def log_new_def)
  then have "cm_runs state_fits cm [StartElection (\<lambda>lo hi. lo) 0] ?cm'" by (intro cm_runs.more [OF _ _ cm_runs.none]) simp_all
  moreover have "cm_current_term ?cm' = 1" "cm_voted_for ?cm' = Some 1" using l(1) by (simp_all add: persistent_of_def)
  ultimately show thesis using that cm by blast
qed

lemma fs_empty_settled: "fs_settled (file_storage_new p) fs_empty"
  using fs_empty_healthy [of p] by (simp add: fs_settled_def survivors_def fs_content_def fs_empty_def)

text \<open>
  A save that reports success on a disk that does not fail has made the state durable:
  from then on every crash recovers exactly that state (and so does a plain reload).
\<close>

lemma save_is_durable:
  assumes "fs_ok (file_storage_new p) s" "fs_plan s = (\<lambda>_. None)" "p \<noteq> []" "state_fits st"
  shows "\<exists>s'. file_save (file_storage_new p) s st = (Inr (), s') \<and>
    file_load (file_storage_new p) s' = Inr st \<and>
    (\<forall>c. crashed s' c \<longrightarrow> file_load (file_storage_new p) c = Inr st)"
proof -
  obtain s' where run: "file_save (file_storage_new p) s st = (Inr (), s')"
    using file_save_succeeds [OF assms(2), of p st] by (metis prod.collapse)
  with file_save_effect [OF assms(1) run] assms(2,3)
  have img: "fs_ok (file_storage_new p) s'" "survivors (file_storage_new p) s' = {Some (encode st)}"
    by (auto simp: saved_image_def file_storage_new_def)
  have "file_load (file_storage_new p) c = Inr st" if "crashed s' c" for c
    using crash_survivor [OF img(1) that] img(2) file_load_image [OF _ _ assms(4)] by auto
  with run disk_file.save_ok [OF assms(1,4) run] show ?thesis by blast
qed

text \<open>
  A node survives a power loss at any moment between its methods: on a disk that does
  not fail, after any sequence of methods, whatever the crash leaves of the file system, the
  node restarts with the term, the vote, the log and the snapshot it had.
\<close>

lemma runs_settled:
  assumes "cm_runs state_fits cm ops cm'" "cm_storage cm = file_box (d @ [name]) s"
    and "fs_settled (file_storage_new (d @ [name])) s" "mirrored cm"
  shows "fs_settled (file_storage_new (d @ [name])) (ds_self (cm_storage cm'))"
    and "file_load (file_storage_new (d @ [name])) (ds_self (cm_storage cm')) = Inr (persistent_of cm')"
proof -
  let ?f = "file_storage_new (d @ [name])"
  have "boxed (file_load ?f) (file_save ?f) (fs_settled ?f) (cm_storage cm)"
    using assms(2,3) by (simp add: boxed_def file_box_def)
  from settled_file.runs_mirrored [OF assms(1) this assms(4)]
  show "fs_settled ?f (ds_self (cm_storage cm'))" "file_load ?f (ds_self (cm_storage cm')) = Inr (persistent_of cm')"
    unfolding boxed_def mirrored_def storage_load_def by metis+
qed

lemma power_loss_recovers_state:
  assumes "cm_runs state_fits cm ops cm'" "cm_storage cm = file_box (d @ [name]) s"
    and "fs_settled (file_storage_new (d @ [name])) s" "mirrored cm" "crashed (ds_self (cm_storage cm')) c"
  shows "\<exists>cm2. cm_new rng i ps (file_box (d @ [name]) c) tim now = Inr cm2 \<and>
    cm_current_term cm2 = cm_current_term cm' \<and> cm_voted_for cm2 = cm_voted_for cm' \<and>
    cm_log cm2 = cm_log cm' \<and> cm_snapshot cm2 = cm_snapshot cm' \<and> cm_role cm2 = Follower"
proof -
  note r = runs_settled [OF assms(1-4)]
  have "storage_load (file_box (d @ [name]) c) = Inr (persistent_of cm')"
    using settled_crash [OF r(1) assms(5)] r(2) by (simp add: storage_load_def file_box_def)
  then show ?thesis by (simp add: cm_new_def Let_def persistent_of_def)
qed


end
