(* ===== verification/Murmur_Daemon.thy ===== *)
theory Murmur_Daemon
  imports Murmur_Bins Rust_Net Raft_File_Storage
begin

text \<open>
  The main function of \<^verbatim>\<open>src/bin/murmurd.rs\<close>: it reads its command line, parses the two listening
  addresses, opens the engine, and starts the replicated service on the state file in its
  data directory. A daemon that is started again after a power loss, with the same command
  line, resumes as the Raft node it was.
\<close>

section \<open>The program\<close>

text \<open>The components of a path; a leading slash is a component of its own.\<close>

definition path_of :: "string \<Rightarrow> path" where
  "path_of s =
     (if s \<noteq> [] \<and> hd s = CHR ''/'' then [''/''] else []) @
     filter (\<lambda>w. w \<noteq> '''' \<and> w \<noteq> ''.'') (split_on CHR ''/'' s)"

datatype ('s, 'db, 'e) daemon_end =
    DaemonUsage
  | BadAddress string
  | StoreFailed store_error
  | BindFailed string
  | StartFailed start_error
  | Serving "('s, 'db) kv_service" "'e peer_clients"

text \<open>
  \<open>bind k\<close> is the outcome of the \<open>k\<close>-th attempt to bind a socket, \<open>fs\<close> the file system the
  daemon finds. \<open>Serving\<close> is the state in which it begins to serve clients.
\<close>

definition daemon_main ::
  "draw \<Rightarrow> nat \<Rightarrow> ((nat \<times> string) list \<Rightarrow> transport_error + 'e peer_clients) \<Rightarrow> (nat \<Rightarrow> socket_addr \<Rightarrow> string + unit) \<Rightarrow>
   'db sable \<Rightarrow> fs \<Rightarrow> string list \<Rightarrow> cli_error + (fs, 'db, 'e) daemon_end" where
  "daemon_main rng now connect bind E fs args =
     (case daemon_args args daemon_default of
        Inl e \<Rightarrow> Inl e
      | Inr None \<Rightarrow> Inr DaemonUsage
      | Inr (Some d) \<Rightarrow> Inr (
          case parse_socket_addr (dm_raft_listen d) of
            None \<Rightarrow> BadAddress (dm_raft_listen d)
          | Some raft_addr \<Rightarrow>
          case parse_socket_addr (dm_kv_listen d) of
            None \<Rightarrow> BadAddress (dm_kv_listen d)
          | Some kv_addr \<Rightarrow>
          let storage = file_box (path_of (daemon_state_path d)) fs in
          case store_open E (daemon_store_path d) of
            Inl e \<Rightarrow> StoreFailed e
          | Inr store \<Rightarrow>
          case bind 0 raft_addr of
            Inl e \<Rightarrow> BindFailed e
          | Inr _ \<Rightarrow>
          case app_start rng connect (daemon_config d) storage timing_default now store of
            Inl e \<Rightarrow> StartFailed e
          | Inr (service, clients) \<Rightarrow>
          case bind 1 kv_addr of
            Inl e \<Rightarrow> BindFailed e
          | Inr _ \<Rightarrow> Serving service clients))"

section \<open>The state file\<close>

lemma split_on_append: "split_on sep (s @ sep # t) = split_on sep s @ split_on sep t"
proof (induction s)
  case (Cons c s)
  have "split_on sep s \<noteq> []" by (cases s) (auto split: list.splits)
  with Cons show ?case by (cases "split_on sep s") auto
qed simp

lemma state_file_path: "\<exists>dir. path_of (daemon_state_path d) = dir @ [''raft-state'']"
proof -
  have "split_on CHR ''/'' (dm_data d @ CHR ''/'' # ''raft-state'') = split_on CHR ''/'' (dm_data d) @ [''raft-state'']"
    unfolding split_on_append by simp
  then show ?thesis by (simp add: path_of_def daemon_state_path_def)
qed

lemma serving_iff:
  assumes "daemon_args args daemon_default = Inr (Some d)"
  shows "daemon_main rng now connect bind E fs args = Inr (Serving sv clients) \<longleftrightarrow>
    (\<exists>ra ka db. parse_socket_addr (dm_raft_listen d) = Some ra \<and> parse_socket_addr (dm_kv_listen d) = Some ka \<and>
       store_open E (daemon_store_path d) = Inr db \<and> bind 0 ra = Inr () \<and> bind 1 ka = Inr () \<and>
       app_start rng connect (daemon_config d) (file_box (path_of (daemon_state_path d)) fs) timing_default now db = Inr (sv, clients))"
  unfolding daemon_main_def assms by (auto simp: Let_def split: option.splits sum.splits)

lemma app_start_core:
  assumes "app_start rng connect config storage tim now db = Inr (sv, clients)"
  shows "cm_new rng (cc_id config) (map peer_id (cc_peers config)) storage tim now = Inr (nd_core (sv_node sv))"
    and "connect (map (\<lambda>p. (peer_id p, peer_addr p)) (cc_peers config)) = Inr clients"
  using assms by (auto simp: app_start_def start_node_def Let_def res_bind_Inr_iff split: sum.splits)

lemma app_start_from_core:
  assumes "cm_new rng (cc_id config) (map peer_id (cc_peers config)) storage tim now = Inr core"
    and "connect (map (\<lambda>p. (peer_id p, peer_addr p)) (cc_peers config)) = Inr clients"
  shows "\<exists>sv. app_start rng connect config storage tim now db = Inr (sv, clients) \<and> nd_core (sv_node sv) = core \<and>
    sv_state sv = app_new db \<and> sv_node_id sv = cc_id config"
  using assms by (simp add: app_start_def start_node_def Let_def)

lemma new_core:
  assumes "cm_new rng i ps storage tim now = Inr cm"
  shows "cm_id cm = i" "cm_peers cm = ps" "cm_storage cm = storage" "mirrored cm"
  using assms
  by (auto simp: cm_new_def Let_def mirrored_def persistent_of_def reset_election_deadline_def res_bind_Inr_iff)

section \<open>Starting again\<close>



end
