(* ===== verification/Murmur_Bench.thy ===== *)
theory Murmur_Bench
  imports Murmur_Bins
begin

text \<open>
  The load generator, \<^verbatim>\<open>src/bin/murmur-bench.rs\<close>: its arguments, the operations its tasks
  perform, how their latencies are collected, and what the report computes from them. The
  tasks share nothing, so each is a function of what its own calls return; measured times
  are parameters. The throughput, a floating-point quotient, and the printed text are not
  modelled.
\<close>

section \<open>Arguments\<close>

record bench =
  bn_peers :: string
  bn_clients :: nat
  bn_ops :: nat
  bn_value_size :: nat

definition bench_default :: bench where
  "bench_default = \<lparr>bn_peers = DEFAULT_PEERS, bn_clients = 8, bn_ops = 200, bn_value_size = 64\<rparr>"

text \<open>A number that is missing or malformed leaves the value in place; \<open>Inr None\<close> is the usage text.\<close>

definition number_or :: "nat \<Rightarrow> string option \<Rightarrow> nat" where
  "number_or old v = (case Option.bind v parse_u64 of None \<Rightarrow> old | Some n \<Rightarrow> n)"

fun bench_args :: "string list \<Rightarrow> bench \<Rightarrow> cli_error + bench option" where
  "bench_args [] b = Inr (Some b)"
| "bench_args (arg # args) b =
     (let v = next_arg args; rest = drop 1 args in
      if arg = ''--peers'' then bench_args rest (b\<lparr>bn_peers := (case v of None \<Rightarrow> bn_peers b | Some p \<Rightarrow> p)\<rparr>)
      else if arg = ''--clients'' then bench_args rest (b\<lparr>bn_clients := number_or (bn_clients b) v\<rparr>)
      else if arg = ''--ops'' then bench_args rest (b\<lparr>bn_ops := number_or (bn_ops b) v\<rparr>)
      else if arg = ''--value-size'' then bench_args rest (b\<lparr>bn_value_size := number_or (bn_value_size b) v\<rparr>)
      else if arg = ''-h'' \<or> arg = ''--help'' then Inr None
      else Inl (UnknownArgument arg))"

section \<open>A phase\<close>

datatype workload = WorkPut bytes | WorkGet

fun work_value :: "workload \<Rightarrow> bytes option" where
  "work_value (WorkPut v) = Some v"
| "work_value WorkGet = None"

definition bench_key :: "nat \<Rightarrow> nat \<Rightarrow> bytes" where
  "bench_key c i = as_bytes (''c'' @ show_nat c @ ''-k'' @ show_nat i)"

text \<open>One operation of a task: a put in the first phase, a get in the second.\<close>

definition bench_op :: "'c net \<Rightarrow> bytes \<Rightarrow> bytes option \<Rightarrow> 'c clerk \<Rightarrow> ('c clerk \<times> (clerk_error + unit)) option" where
  "bench_op N key value ck = (case value of
      Some v \<Rightarrow> map_option (\<lambda>(ck, r, _). (ck, res_bind r (\<lambda>_. Inr ()))) (clerk_put N key v ck)
    | None \<Rightarrow> map_option (\<lambda>(ck, r, _). (ck, res_bind r (\<lambda>_. Inr ()))) (clerk_get N key ck))"

text \<open>
  The operations \<open>is\<close> of task \<open>c\<close>. Operation \<open>i\<close> sees the network \<open>N i\<close> and is measured to take
  \<open>lat i\<close>. \<open>None\<close>: an operation does not return.
\<close>

fun bench_ops ::
  "(nat \<Rightarrow> 'c net) \<Rightarrow> (nat \<Rightarrow> nat) \<Rightarrow> nat \<Rightarrow> bytes option \<Rightarrow> nat list \<Rightarrow> 'c clerk \<Rightarrow> (clerk_error + nat list) option" where
  "bench_ops N lat c value [] ck = Some (Inr [])"
| "bench_ops N lat c value (i # is) ck =
     (let key = bench_key c i
      in case bench_op (N i) key value ck of
           None \<Rightarrow> None
         | Some (ck, Inl e) \<Rightarrow> Some (Inl e)
         | Some (ck, Inr _) \<Rightarrow>
             map_option (\<lambda>r. res_bind r (\<lambda>latencies. Inr (lat i # latencies))) (bench_ops N lat c value is ck))"

definition bench_task ::
  "'c net \<Rightarrow> (nat \<Rightarrow> 'c net) \<Rightarrow> (nat \<Rightarrow> nat) \<Rightarrow> string list \<Rightarrow> nat \<Rightarrow> bytes option \<Rightarrow> nat \<Rightarrow> (clerk_error + nat list) option" where
  "bench_task N0 N lat endpoints ops value c =
     (case clerk_connect N0 endpoints of
        None \<Rightarrow> None
      | Some (Inl e) \<Rightarrow> Some (Inl e)
      | Some (Inr ck) \<Rightarrow> bench_ops N lat c value [0 ..< ops] ck)"

text \<open>Awaiting the tasks one after another; the first error ends the phase.\<close>

fun bench_gather :: "(clerk_error + nat list) option list \<Rightarrow> (clerk_error + nat list) option" where
  "bench_gather [] = Some (Inr [])"
| "bench_gather (t # ts) =
     (case t of
        None \<Rightarrow> None
      | Some (Inl e) \<Rightarrow> Some (Inl e)
      | Some (Inr latencies) \<Rightarrow> map_option (\<lambda>r. res_bind r (\<lambda>rest. Inr (latencies @ rest))) (bench_gather ts))"

definition bench_run ::
  "(nat \<Rightarrow> 'c net) \<Rightarrow> (nat \<Rightarrow> nat \<Rightarrow> 'c net) \<Rightarrow> (nat \<Rightarrow> nat \<Rightarrow> nat) \<Rightarrow> string list \<Rightarrow> nat \<Rightarrow> nat \<Rightarrow> workload \<Rightarrow>
   (clerk_error + nat list) option" where
  "bench_run N0 N lat endpoints clients ops w =
     bench_gather (map (\<lambda>c. bench_task (N0 c) (N c) (lat c) endpoints ops (work_value w) c) [0 ..< clients])"

section \<open>The report\<close>

text \<open>
  The figures of a phase. \<open>scaled p n\<close> is \<open>(n as f64 * p) as usize\<close>, with \<open>p\<close> in percent: how
  floating-point numbers round is a parameter, and no fact about it is used. The mean
  divides a \<open>Duration\<close> by \<open>n as u32\<close>, which panics (\<open>None\<close>) where that is zero.
\<close>

record figures =
  fg_count :: nat
  fg_mean :: nat
  fg_p50 :: nat
  fg_p95 :: nat
  fg_p99 :: nat
  fg_max :: nat

definition percentile :: "(nat \<Rightarrow> nat \<Rightarrow> nat) \<Rightarrow> nat list \<Rightarrow> nat \<Rightarrow> nat" where
  "percentile scaled latencies p =
     (let n = length latencies in latencies ! min (scaled p n) (n - 1))"

definition bench_report :: "(nat \<Rightarrow> nat \<Rightarrow> nat) \<Rightarrow> nat list \<Rightarrow> figures option" where
  "bench_report scaled latencies =
     (let latencies = sort latencies; n = length latencies; divisor = n mod 2 ^ 32; pct = percentile scaled latencies
      in if divisor = 0 then None
         else Some \<lparr>fg_count = n, fg_mean = sum_list latencies div divisor, fg_p50 = pct 50, fg_p95 = pct 95,
                fg_p99 = pct 99, fg_max = latencies ! (n - 1)\<rparr>)"

section \<open>The program\<close>

datatype bench_end = Usage | PhaseFailed clerk_error | Panicked | Reported figures figures

definition bench_phase ::
  "(nat \<Rightarrow> nat \<Rightarrow> nat) \<Rightarrow> (clerk_error + nat list) option \<Rightarrow> (bench_end + figures) option" where
  "bench_phase scaled phase = map_option (\<lambda>r. case r of
     Inl e \<Rightarrow> Inl (PhaseFailed e)
   | Inr latencies \<Rightarrow> (case bench_report scaled latencies of None \<Rightarrow> Inl Panicked | Some fg \<Rightarrow> Inr fg)) phase"

text \<open>
  \<open>put\<close> and \<open>get\<close> are what the two phases run against: for every task the network its clerk
  connects through, the network each of its operations sees, and the measured times.
\<close>

record 'c field =
  fd_connect :: "nat \<Rightarrow> 'c net"
  fd_net :: "nat \<Rightarrow> nat \<Rightarrow> 'c net"
  fd_time :: "nat \<Rightarrow> nat \<Rightarrow> nat"

definition bench_main ::
  "(nat \<Rightarrow> nat \<Rightarrow> nat) \<Rightarrow> 'c field \<Rightarrow> 'c field \<Rightarrow> string list \<Rightarrow> cli_error + bench_end option" where
  "bench_main scaled put get args =
     (case bench_args args bench_default of
        Inl e \<Rightarrow> Inl e
      | Inr None \<Rightarrow> Inr (Some Usage)
      | Inr (Some b) \<Rightarrow>
          (let endpoints = client_endpoints (bn_peers b);
               value = replicate (bn_value_size b) (byte_of CHR ''x'');
               phase = (\<lambda>f w. bench_phase scaled
                 (bench_run (fd_connect f) (fd_net f) (fd_time f) endpoints (bn_clients b) (bn_ops b) w))
           in Inr (case phase put (WorkPut value) of
                None \<Rightarrow> None
              | Some (Inl e) \<Rightarrow> Some e
              | Some (Inr p) \<Rightarrow>
                  (case phase get WorkGet of
                     None \<Rightarrow> None
                   | Some (Inl e) \<Rightarrow> Some e
                   | Some (Inr g) \<Rightarrow> Some (Reported p g)))))"

section \<open>A phase ends\<close>

lemma retry_keeps_clerk:
  assumes "paced N" "clerk_ok ck"
  shows "\<exists>ck' r sent. retry N op ck = Some (ck', r, sent) \<and> clerk_ok ck'"
  using retry_run [OF assms, of op] unfolding finished_def same_clerk_def by blast

lemma bench_op_runs:
  assumes "paced N" "clerk_ok ck"
  shows "\<exists>ck' r. bench_op N key value ck = Some (ck', r) \<and> clerk_ok ck'"
proof (cases "value")
  case None
  obtain ck' r sent where "clerk_get N key ck = Some (ck', r, sent)" "clerk_ok ck'"
    using retry_keeps_clerk [OF assms] unfolding clerk_get_def by blast
  with None show ?thesis by (simp add: bench_op_def)
next
  case (Some v)
  obtain ck' r sent where "clerk_put N key v ck = Some (ck', r, sent)" "clerk_ok ck'"
    using retry_keeps_clerk [OF assms] unfolding clerk_put_def by blast
  with Some show ?thesis by (simp add: bench_op_def)
qed

lemma bench_ops_run:
  assumes "\<And>i. paced (N i)" "clerk_ok ck"
  shows "\<exists>r. bench_ops N lat c value is ck = Some r \<and> (\<forall>ls. r = Inr ls \<longrightarrow> ls = map lat is)"
  using assms(2)
proof (induction "is" arbitrary: ck)
  case (Cons i "is")
  obtain ck' r where s: "bench_op (N i) (bench_key c i) value ck = Some (ck', r)" "clerk_ok ck'"
    using bench_op_runs [OF assms(1) Cons.prems] by blast
  obtain r' where r': "bench_ops N lat c value is ck' = Some r'" "\<forall>ls. r' = Inr ls \<longrightarrow> ls = map lat is"
    using Cons.IH [OF s(2)] by blast
  then show ?case by (cases r) (auto simp: s(1) res_bind_Inr_iff)
qed simp

lemma bench_task_runs:
  assumes "paced N0" "\<And>i. paced (N i)"
  shows "\<exists>r. bench_task N0 N lat endpoints ops value c = Some r \<and> (\<forall>ls. r = Inr ls \<longrightarrow> ls = map lat [0 ..< ops])"
proof -
  obtain r where r: "clerk_connect N0 endpoints = Some r" "\<And>ck. r = Inr ck \<Longrightarrow> clerk_ok ck"
    using connect_run [OF assms(1), of endpoints] by (metis (no_types, lifting) sum.case(2))
  show ?thesis
  proof (cases r)
    case (Inr ck)
    obtain r' where "bench_ops N lat c value [0 ..< ops] ck = Some r'" "\<forall>ls. r' = Inr ls \<longrightarrow> ls = map lat [0 ..< ops]"
      using bench_ops_run [of N ck, OF assms(2) r(2) [OF Inr]] by blast
    with r(1) Inr show ?thesis by (simp add: bench_task_def)
  qed (simp add: bench_task_def r(1))
qed

text \<open>Results arrive in the order the tasks were started, whichever ends first.\<close>

lemma bench_gather_runs:
  assumes "\<And>c. c \<in> set cs \<Longrightarrow> \<exists>r. f c = Some r \<and> (\<forall>ls. r = Inr ls \<longrightarrow> ls = g c)"
  shows "\<exists>r. bench_gather (map f cs) = Some r \<and> (\<forall>ls. r = Inr ls \<longrightarrow> ls = concat (map g cs))"
  using assms
proof (induction cs)
  case (Cons c cs)
  obtain r where r: "f c = Some r" "\<forall>ls. r = Inr ls \<longrightarrow> ls = g c" using Cons.prems by auto
  obtain r' where "bench_gather (map f cs) = Some r'" "\<forall>ls. r' = Inr ls \<longrightarrow> ls = concat (map g cs)"
    using Cons by auto
  with r show ?case by (cases r) (auto simp: res_bind_Inr_iff)
qed simp

definition field_paced :: "'c field \<Rightarrow> bool" where
  "field_paced f \<longleftrightarrow> (\<forall>c i. paced (fd_connect f c) \<and> paced (fd_net f c i))"

lemma bench_run_runs:
  assumes "field_paced f"
  shows "\<exists>r. bench_run (fd_connect f) (fd_net f) (fd_time f) endpoints clients ops w = Some r \<and>
    (\<forall>ls. r = Inr ls \<longrightarrow> ls = concat (map (\<lambda>c. map (fd_time f c) [0 ..< ops]) [0 ..< clients]))"
  unfolding bench_run_def
  by (rule bench_gather_runs, rule bench_task_runs) (use assms in \<open>simp_all add: field_paced_def\<close>)

lemma length_measured: "length (concat (map (\<lambda>c. map (t c) [0 ..< ops]) [0 ..< clients])) = clients * ops"
  by (simp add: length_concat comp_def sum_list_triv)

section \<open>What is reported\<close>

text \<open>
  However the index of a percentile is rounded, it is in range, and the figures are ordered
  as far as the roundings are.
\<close>

lemma percentile_mono:
  assumes "sorted ls" "ls \<noteq> []" "scaled p (length ls) \<le> scaled q (length ls)"
  shows "percentile scaled ls p \<le> percentile scaled ls q" "percentile scaled ls q \<le> ls ! (length ls - 1)"
    "percentile scaled ls p \<in> set ls"
proof -
  have len: "length ls - 1 < length ls" using assms(2) by simp
  show "percentile scaled ls p \<le> percentile scaled ls q"
    unfolding percentile_def Let_def by (rule sorted_nth_mono [OF assms(1)]) (use assms(3) len in linarith)+
  show "percentile scaled ls q \<le> ls ! (length ls - 1)"
    unfolding percentile_def Let_def by (rule sorted_nth_mono [OF assms(1)]) (use len in linarith)+
  show "percentile scaled ls p \<in> set ls"
    unfolding percentile_def Let_def by (rule nth_mem) (use len in linarith)
qed

definition figures_ok :: "nat \<Rightarrow> figures \<Rightarrow> bool" where
  "figures_ok n fg \<longleftrightarrow> fg_count fg = n \<and> fg_p50 fg \<le> fg_max fg \<and> fg_p95 fg \<le> fg_max fg \<and> fg_p99 fg \<le> fg_max fg"

lemma bench_report_panics: "length ls mod 2 ^ 32 = 0 \<Longrightarrow> bench_report scaled ls = None"
  by (simp only: bench_report_def Let_def length_sort if_True simp_thms)

lemma bench_report_figures:
  assumes "length ls mod 2 ^ 32 \<noteq> 0"
  shows "\<exists>fg. bench_report scaled ls = Some fg \<and> figures_ok (length ls) fg"
proof -
  have "ls \<noteq> []" using assms by auto
  then have "sort ls \<noteq> []" by (metis length_0_conv length_sort)
  then have top: "percentile scaled (sort ls) p \<le> sort ls ! (length ls - 1)" for p
    using percentile_mono(2) [of "sort ls" scaled p p] by (simp del: One_nat_def)
  show ?thesis
    unfolding bench_report_def Let_def length_sort if_not_P [OF assms]
    by (simp add: figures_ok_def top del: One_nat_def)
qed

lemma bench_phase_result:
  assumes "field_paced f"
  shows "\<exists>r. bench_phase scaled (bench_run (fd_connect f) (fd_net f) (fd_time f) endpoints clients ops w) = Some r \<and>
    (case r of
       Inl e \<Rightarrow> (\<exists>ce. e = PhaseFailed ce) \<or> e = Panicked \<and> clients * ops mod 2 ^ 32 = 0
     | Inr fg \<Rightarrow> clients * ops mod 2 ^ 32 \<noteq> 0 \<and> figures_ok (clients * ops) fg)"
proof -
  obtain r where r: "bench_run (fd_connect f) (fd_net f) (fd_time f) endpoints clients ops w = Some r"
    "\<forall>ls. r = Inr ls \<longrightarrow> ls = concat (map (\<lambda>c. map (fd_time f c) [0 ..< ops]) [0 ..< clients])"
    using bench_run_runs [OF assms] by blast
  show ?thesis
  proof (cases r)
    case (Inr ls)
    then have len: "length ls = clients * ops" using r(2) length_measured [of "fd_time f" ops clients] by metis
    show ?thesis
    proof (cases "clients * ops mod 2 ^ 32 = 0")
      case True
      then have "bench_report scaled ls = None" by (intro bench_report_panics) (simp only: len)
      with True show ?thesis unfolding r(1) Inr bench_phase_def by simp
    next
      case False
      then obtain fg where "bench_report scaled ls = Some fg" "figures_ok (clients * ops) fg"
        using bench_report_figures [of ls scaled] unfolding len by blast
      with False show ?thesis unfolding r(1) Inr bench_phase_def by simp
    qed
  qed (simp add: r(1) bench_phase_def)
qed

section \<open>Keys\<close>

text \<open>No two operations of a phase share a key, and the second phase reads the keys of the first.\<close>

lemma show_nat_inj:
  assumes "show_nat m = show_nat n" "m < 2 ^ 64" "n < 2 ^ 64"
  shows "m = n"
proof -
  have "Some m = parse_u64 (show_nat n)" unfolding assms(1) [symmetric] by (rule parse_u64_show_nat [OF assms(2), symmetric])
  also have "\<dots> = Some n" by (rule parse_u64_show_nat [OF assms(3)])
  finally show ?thesis by (rule option.inject [THEN iffD1])
qed

lemma bench_key_inj:
  assumes "bench_key c i = bench_key c' i'" "c < 2 ^ 64" "i < 2 ^ 64" "c' < 2 ^ 64" "i' < 2 ^ 64"
  shows "c = c' \<and> i = i'"
proof -
  have dash: "CHR ''-'' \<notin> set (show_nat n)" for n using digit_neq [of "CHR ''-''" n "CHR ''-''"] by auto
  from assms(1) have "''c'' @ show_nat c @ ''-k'' @ show_nat i = ''c'' @ show_nat c' @ ''-k'' @ show_nat i'"
    unfolding bench_key_def by (rule arg_cong [of "as_bytes s" "as_bytes t" "map char_of_byte" for s t, unfolded map_char_as_bytes])
  then have "split_once CHR ''-'' (show_nat c @ CHR ''-'' # CHR ''k'' # show_nat i) =
      split_once CHR ''-'' (show_nat c' @ CHR ''-'' # CHR ''k'' # show_nat i')" by simp
  then show ?thesis
    using show_nat_inj assms(2-5) by (simp add: split_once_append dash)
qed

text \<open>With no operation to perform, a program whose clerks connect panics.\<close>

lemma bench_gather_empty: "list_all (\<lambda>t. t = Some (Inr [])) ts \<Longrightarrow> bench_gather ts = Some (Inr [])"
  by (induction ts) auto

lemma empty_run_panics:
  assumes "\<And>c. \<exists>ck. clerk_connect (fd_connect put c) (client_endpoints (bn_peers b)) = Some (Inr ck)"
    and "bench_args args bench_default = Inr (Some b)" "bn_ops b = 0"
  shows "bench_main scaled put get args = Inr (Some Panicked)"
proof -
  have task: "bench_task (fd_connect put c) N lat (client_endpoints (bn_peers b)) 0 w c = Some (Inr [])" for N lat w c
    using assms(1) [of c] by (auto simp: bench_task_def)
  have "bench_run (fd_connect put) N lat (client_endpoints (bn_peers b)) n 0 w = Some (Inr [])" for N lat n w
    unfolding bench_run_def by (rule bench_gather_empty) (simp add: list_all_iff task)
  then show ?thesis by (simp add: bench_main_def assms(2,3) bench_phase_def bench_report_panics)
qed

section \<open>Properties\<close>


definition sample_field :: "string field" where
  "sample_field = \<lparr>fd_connect = (\<lambda>_. sample_net), fd_net = (\<lambda>_ _. sample_net), fd_time = (\<lambda>c i. c + i)\<rparr>"


end
