(* ===== verification/Raft_Tests.thy ===== *)
theory Raft_Tests
  imports Raft_Replication Rust_String
begin

text \<open>
  The unit tests of \<^verbatim>\<open>src/raft/types.rs\<close> and \<^verbatim>\<open>src/raft/consensus.rs\<close>, translated and run on the
  model by evaluation: the definitions of this development behave on them as the code does.
  A test is a bool-valued function of what its calls to \<open>Instant::now()\<close> give, of the timing
  and of the random draws, and holds for all of them (where time matters, under what the
  default timing satisfies).
\<close>

section \<open>The log\<close>

definition log_with_terms :: "nat list \<Rightarrow> raft_log" where
  "log_with_terms terms = from_entries (map (\<lambda>t. log_entry_new t []) terms)"

definition empty_log_origin :: bool where
  "empty_log_origin =
     (let log = log_new in
      last_index log = 0 \<and> last_term log = 0 \<and> term_at log 0 = Some 0 \<and> term_at log 1 = None \<and> log_get log 0 = None)"

definition term_and_get_by_index :: bool where
  "term_and_get_by_index =
     (let log = log_with_terms [1, 1, 2] in
      last_index log = 3 \<and> last_term log = 2 \<and> term_at log 1 = Some 1 \<and> term_at log 2 = Some 1 \<and>
      term_at log 3 = Some 2 \<and> term_at log 4 = None \<and> map_option le_term (log_get log 2) = Some 1)"

definition entries_after_slices_correctly :: bool where
  "entries_after_slices_correctly =
     (let log = log_with_terms [1, 2, 3] in
      length (entries_after log 0) = 3 \<and> length (entries_after log 1) = 2 \<and> length (entries_after log 3) = 0 \<and>
      length (entries_after log 9) = 0 \<and> le_term (hd (entries_after log 1)) = 2)"

definition term_boundaries_locate_a_terms_run :: bool where
  "term_boundaries_locate_a_terms_run =
     (let log = log_with_terms [1, 1, 4, 4, 4, 6] in
      first_index_of_term log 1 = Some 1 \<and> first_index_of_term log 4 = Some 3 \<and> last_index_of_term log 4 = Some 5 \<and>
      first_index_of_term log 6 = Some 6 \<and> last_index_of_term log 6 = Some 6 \<and>
      first_index_of_term log 2 = None \<and> last_index_of_term log 9 = None)"

definition truncate_erases_suffix :: bool where
  "truncate_erases_suffix =
     (let log = truncate_after (log_with_terms [1, 2, 3]) 1 in
      last_index log = 1 \<and> last_term log = 1 \<and> log_is_empty (truncate_after log 0))"

definition append_returns_new_index :: bool where
  "append_returns_new_index =
     (let (log, i) = log_append log_new (log_entry_new 1 []); (log, j) = log_append log (log_entry_new 1 [])
      in i = 1 \<and> j = 2)"

definition compact_keeps_the_suffix_and_shifts_the_origin :: bool where
  "compact_keeps_the_suffix_and_shifts_the_origin =
     (let log = compact (log_with_terms [1, 1, 2, 3, 3]) 3 2 in
      lg_snapshot_index log = 3 \<and> lg_snapshot_term log = 2 \<and> log_len log = 2 \<and> last_index log = 5 \<and> last_term log = 3 \<and>
      term_at log 3 = Some 2 \<and> term_at log 2 = None \<and> log_get log 3 = None \<and>
      map_option le_term (log_get log 4) = Some 3 \<and> term_at log 5 = Some 3)"

definition appends_and_truncation_respect_the_offset :: bool where
  "appends_and_truncation_respect_the_offset =
     (let log = compact (log_with_terms [1, 1, 2, 2]) 2 1;
          (log, i) = log_append log (log_entry_new 4 []);
          shorter = truncate_after log 3;
          bare = truncate_after shorter 2
      in i = 5 \<and> length (entries_after log 2) = 3 \<and> length (entries_after log 3) = 2 \<and> last_index shorter = 3 \<and>
         log_is_empty bare \<and> last_index bare = 2 \<and> last_term bare = 1)"

definition installing_a_snapshot_beyond_the_log_drops_the_tail :: bool where
  "installing_a_snapshot_beyond_the_log_drops_the_tail =
     (let log = compact (log_with_terms [1, 1]) 9 5 in
      log_is_empty log \<and> lg_snapshot_index log = 9 \<and> last_index log = 9 \<and> term_at log 9 = Some 5 \<and>
      snd (log_append log (log_entry_new 5 [])) = 10)"

definition a_stale_compaction_is_ignored :: bool where
  "a_stale_compaction_is_ignored =
     (let log = compact (compact (log_with_terms [1, 2, 3]) 2 2) 1 1 in
      lg_snapshot_index log = 2 \<and> last_index log = 3)"

lemma log_tests_pass:
  "empty_log_origin" "term_and_get_by_index" "entries_after_slices_correctly" "term_boundaries_locate_a_terms_run"
  "truncate_erases_suffix" "append_returns_new_index" "compact_keeps_the_suffix_and_shifts_the_origin"
  "appends_and_truncation_respect_the_offset" "installing_a_snapshot_beyond_the_log_drops_the_tail"
  "a_stale_compaction_is_ignored"
  by code_simp+

section \<open>Test modules\<close>

text \<open>Where a helper of the tests would panic, its value is unspecified, so no test could pass there.\<close>

definition test_module :: "draw \<Rightarrow> timing \<Rightarrow> nat \<Rightarrow> nat \<Rightarrow> nat list \<Rightarrow> persistent_state consensus_module" where
  "test_module rng tim now nid peers = (case cm_new rng nid peers in_memory_new tim now of Inr cm \<Rightarrow> cm)"

definition module_with_log ::
  "draw \<Rightarrow> timing \<Rightarrow> nat \<Rightarrow> nat \<Rightarrow> nat list \<Rightarrow> nat \<Rightarrow> nat list \<Rightarrow> persistent_state consensus_module" where
  "module_with_log rng tim now nid peers current_term terms =
     (let storage = snd (storage_save in_memory_new
            \<lparr>ps_current_term = current_term, ps_voted_for = None, ps_log = log_with_terms terms, ps_snapshot = None\<rparr>)
      in case cm_new rng nid peers storage tim now of Inr cm \<Rightarrow> cm)"

text \<open>Only the commands of an apply stream.\<close>

definition only_commands :: "apply_item list \<Rightarrow> applied list" where
  "only_commands items = List.map_filter (\<lambda>a. case a of ApplyCommand c \<Rightarrow> Some c | ApplySnapshot _ \<Rightarrow> None) items"

definition elect_leader :: "draw \<Rightarrow> nat \<Rightarrow> 's consensus_module \<Rightarrow> 's consensus_module" where
  "elect_leader rng now cm =
     (let cm = fst (start_election rng now cm);
          cm = record_vote_reply 2 \<lparr>rvr_term = cm_current_term cm, rvr_vote_granted = True\<rparr> cm
      in if is_leader cm then cm else undefined)"

definition pre_vote :: "nat \<Rightarrow> nat \<Rightarrow> nat \<Rightarrow> nat \<Rightarrow> request_vote_args" where
  "pre_vote t candidate li lt =
     \<lparr>rv_term = t, rv_candidate_id = candidate, rv_last_log_index = li, rv_last_log_term = lt, rv_pre_vote = True\<rparr>"

definition real_vote :: "nat \<Rightarrow> nat \<Rightarrow> request_vote_args" where
  "real_vote t candidate =
     \<lparr>rv_term = t, rv_candidate_id = candidate, rv_last_log_index = 0, rv_last_log_term = 0, rv_pre_vote = False\<rparr>"

definition empty_append :: "nat \<Rightarrow> nat \<Rightarrow> nat \<Rightarrow> nat \<Rightarrow> append_entries_args" where
  "empty_append t leader prev prev_term =
     \<lparr>ae_term = t, ae_leader_id = leader, ae_prev_log_index = prev, ae_prev_log_term = prev_term, ae_entries = [],
      ae_leader_commit = 0\<rparr>"

section \<open>Elections\<close>

definition starting_an_election_bumps_term_and_self_votes :: "draw \<Rightarrow> timing \<Rightarrow> nat \<Rightarrow> nat \<Rightarrow> bool" where
  "starting_an_election_bumps_term_and_self_votes rng tim now t1 =
     (let (cm, args) = start_election rng t1 (test_module rng tim now 1 [2, 3])
      in rv_term args = 1 \<and> cm_role cm = Candidate \<and> cm_current_term cm = 1 \<and> \<not> is_leader cm)"

definition majority_votes_win_leadership :: "draw \<Rightarrow> timing \<Rightarrow> nat \<Rightarrow> nat \<Rightarrow> bool" where
  "majority_votes_win_leadership rng tim now t1 =
     (let cm = fst (start_election rng t1 (test_module rng tim now 1 [2, 3]));
          cm = record_vote_reply 2 \<lparr>rvr_term = 1, rvr_vote_granted = True\<rparr> cm
      in is_leader cm \<and> cm_leader_id cm = Some 1)"

definition a_node_votes_once_per_term :: "draw \<Rightarrow> timing \<Rightarrow> nat \<Rightarrow> nat \<Rightarrow> bool" where
  "a_node_votes_once_per_term rng tim now t1 =
     (let cm = test_module rng tim now 1 [2, 3];
          (cm, granted) = handle_request_vote rng t1 (real_vote 5 2) cm;
          (cm, refused) = handle_request_vote rng t1 (real_vote 5 3) cm
      in rvr_vote_granted granted \<and> \<not> rvr_vote_granted refused)"

definition higher_term_makes_a_leader_step_down :: "draw \<Rightarrow> timing \<Rightarrow> nat \<Rightarrow> nat \<Rightarrow> nat \<Rightarrow> bool" where
  "higher_term_makes_a_leader_step_down rng tim now t1 t2 =
     (let cm = fst (start_election rng t1 (test_module rng tim now 1 [2, 3]));
          leader = record_vote_reply 2 \<lparr>rvr_term = 1, rvr_vote_granted = True\<rparr> cm;
          (cm, reply) = handle_append_entries rng t2 (empty_append 2 3 0 0) leader
      in is_leader leader \<and> aer_success reply \<and> cm_role cm = Follower \<and> cm_current_term cm = 2 \<and>
         cm_leader_id cm = Some 3)"

definition stale_term_rpcs_are_rejected :: "draw \<Rightarrow> timing \<Rightarrow> nat \<Rightarrow> nat \<Rightarrow> nat \<Rightarrow> nat \<Rightarrow> bool" where
  "stale_term_rpcs_are_rejected rng tim now t1 t2 t3 =
     (let cm = fst (start_election rng t1 (test_module rng tim now 1 [2, 3]));
          (cm, vote) = handle_request_vote rng t2 (real_vote 0 2) cm;
          (cm, append) = handle_append_entries rng t3 (empty_append 0 2 0 0) cm
      in \<not> rvr_vote_granted vote \<and> \<not> aer_success append)"

definition a_pre_vote_is_denied_while_a_leader_is_live_and_changes_nothing ::
  "draw \<Rightarrow> timing \<Rightarrow> nat \<Rightarrow> nat \<Rightarrow> nat \<Rightarrow> bool" where
  "a_pre_vote_is_denied_while_a_leader_is_live_and_changes_nothing rng tim now t1 t2 =
     (let cm = fst (handle_append_entries rng t1 (empty_append 4 2 0 0) (test_module rng tim now 1 [2, 3]));
          before = cm_current_term cm;
          (cm, reply) = handle_request_vote rng t2 (pre_vote 5 3 0 0) cm
      in before = 4 \<and> \<not> rvr_vote_granted reply \<and> rvr_term reply = 4 \<and> cm_current_term cm = 4 \<and> cm_role cm = Follower)"

definition a_pre_vote_is_granted_once_the_leader_is_gone :: "draw \<Rightarrow> timing \<Rightarrow> nat \<Rightarrow> nat \<Rightarrow> bool" where
  "a_pre_vote_is_granted_once_the_leader_is_gone rng tim now later =
     (let (cm, reply) = handle_request_vote rng later (pre_vote 1 2 0 0) (test_module rng tim now 1 [2, 3])
      in rvr_vote_granted reply \<and> cm_current_term cm = 0 \<and> cm_voted_for cm = None)"

definition a_pre_vote_from_a_stale_log_is_denied :: "draw \<Rightarrow> timing \<Rightarrow> nat \<Rightarrow> nat \<Rightarrow> bool" where
  "a_pre_vote_from_a_stale_log_is_denied rng tim now later =
     (let (cm, reply) = handle_request_vote rng later (pre_vote 6 2 0 0) (module_with_log rng tim now 1 [2, 3] 5 [5, 5])
      in \<not> rvr_vote_granted reply)"

definition a_pre_vote_majority_promotes_to_a_real_election :: "draw \<Rightarrow> timing \<Rightarrow> nat \<Rightarrow> nat \<Rightarrow> nat \<Rightarrow> bool" where
  "a_pre_vote_majority_promotes_to_a_real_election rng tim now t1 t2 =
     (let probing = fst (start_pre_election rng t1 (test_module rng tim now 1 [2, 3]));
          backed = record_pre_vote_reply 2 \<lparr>rvr_term = 0, rvr_vote_granted = True\<rparr> probing;
          (cm, args) = start_election rng t2 backed
      in \<not> pre_vote_succeeded probing \<and> cm_current_term probing = 0 \<and> pre_vote_succeeded backed \<and>
         rv_term args = 1 \<and> \<not> rv_pre_vote args \<and> cm_current_term cm = 1 \<and> cm_role cm = Candidate)"

definition a_pre_candidate_yields_to_a_higher_term :: "draw \<Rightarrow> timing \<Rightarrow> nat \<Rightarrow> nat \<Rightarrow> bool" where
  "a_pre_candidate_yields_to_a_higher_term rng tim now t1 =
     (let cm = fst (start_pre_election rng t1 (test_module rng tim now 1 [2, 3]));
          cm = record_pre_vote_reply 2 \<lparr>rvr_term = 7, rvr_vote_granted = False\<rparr> cm
      in cm_current_term cm = 7 \<and> \<not> pre_vote_succeeded cm \<and> cm_role cm = Follower)"

lemma election_tests_pass:
  "starting_an_election_bumps_term_and_self_votes rng tim now t1" "majority_votes_win_leadership rng tim now t1"
  "a_node_votes_once_per_term rng tim now t1" "higher_term_makes_a_leader_step_down rng tim now t1 t2"
  "stale_term_rpcs_are_rejected rng tim now t1 t2 t3"
  "a_pre_vote_majority_promotes_to_a_real_election rng tim now t1 t2"
  "a_pre_candidate_yields_to_a_higher_term rng tim now t1"
  by code_simp+

text \<open>The tests that depend on the time: a live leader was heard within the minimum timeout.\<close>

lemma timed_tests_pass:
  "t2 - t1 < election_min tim \<Longrightarrow> a_pre_vote_is_denied_while_a_leader_is_live_and_changes_nothing rng tim now t1 t2"
  "election_min tim \<le> later - now \<Longrightarrow> a_pre_vote_is_granted_once_the_leader_is_gone rng tim now later"
  "a_pre_vote_from_a_stale_log_is_denied rng tim now later"
  by (simp_all add: a_pre_vote_is_denied_while_a_leader_is_live_and_changes_nothing_def
      a_pre_vote_is_granted_once_the_leader_is_gone_def a_pre_vote_from_a_stale_log_is_denied_def
      handle_request_vote_def handle_append_entries_def pre_vote_def empty_append_def test_module_def module_with_log_def
      cm_new_def storage_load_def storage_save_def in_memory_new_def in_memory_load_def in_memory_save_def
      log_is_up_to_date_def last_term_def last_index_def log_with_terms_def from_entries_def log_new_def log_entry_new_def
      persistent_default_def consistent_at_def accept_entries_def Let_def)

section \<open>Replication\<close>

definition only_the_leader_accepts_commands :: "draw \<Rightarrow> timing \<Rightarrow> nat \<Rightarrow> nat \<Rightarrow> bool" where
  "only_the_leader_accepts_commands rng tim now t1 =
     (let (cm, refused) = submit_command (as_bytes ''noop'') (test_module rng tim now 1 [2, 3]);
          leader = elect_leader rng t1 cm;
          (cm, index) = submit_command (as_bytes ''set x=1'') leader
      in refused = None \<and> is_leader leader \<and> index = Some 1 \<and> last_log_index cm = 1)"

definition commit_advances_once_a_majority_matches :: "draw \<Rightarrow> timing \<Rightarrow> nat \<Rightarrow> nat \<Rightarrow> bool" where
  "commit_advances_once_a_majority_matches rng tim now t1 =
     (let cm = fst (submit_command (as_bytes ''a'') (elect_leader rng t1 (test_module rng tim now 1 [2, 3])));
          acked = handle_append_reply 2 (append_reply_success (cm_current_term cm)) 1 cm
      in cm_commit_index cm = 0 \<and> cm_commit_index acked = 1 \<and>
         (case take_applies acked of
            None \<Rightarrow> False
          | Some (drained, items) \<Rightarrow>
              map (\<lambda>a. (ap_index a, ap_command a)) (only_commands items) = [(1, as_bytes ''a'')] \<and>
              map_option snd (take_applies drained) = Some []))"

definition a_leader_never_commits_a_prior_term_by_count_alone :: "draw \<Rightarrow> timing \<Rightarrow> nat \<Rightarrow> nat \<Rightarrow> bool" where
  "a_leader_never_commits_a_prior_term_by_count_alone rng tim now t1 =
     (let cm = elect_leader rng t1 (module_with_log rng tim now 1 [2, 3] 1 [1]);
          cm = handle_append_reply 2 (append_reply_success (cm_current_term cm)) 1 cm;
          old = cm_commit_index cm;
          cm = fst (submit_command (as_bytes ''t2'') cm);
          cm = handle_append_reply 2 (append_reply_success (cm_current_term cm)) 2 cm
      in old = 0 \<and> cm_commit_index cm = 2 \<and>
         map_option (length \<circ> only_commands \<circ> snd) (take_applies cm) = Some 2)"

definition rejected_append_backs_off_next_index :: "draw \<Rightarrow> timing \<Rightarrow> nat \<Rightarrow> nat \<Rightarrow> bool" where
  "rejected_append_backs_off_next_index rng tim now t1 =
     (let c0 = elect_leader rng t1 (module_with_log rng tim now 1 [2, 3] 5 [5, 5]);
          rejection = append_reply_rejected (cm_current_term c0);
          c1 = handle_append_reply 2 rejection 0 c0;
          c2 = handle_append_reply 2 rejection 0 c1;
          c3 = handle_append_reply 2 rejection 0 c2
      in map (\<lambda>c. ae_prev_log_index (append_args_for c 2)) [c0, c1, c2, c3] = [2, 1, 0, 0])"

definition follower_hints_its_length_when_log_is_too_short :: "draw \<Rightarrow> timing \<Rightarrow> nat \<Rightarrow> nat \<Rightarrow> bool" where
  "follower_hints_its_length_when_log_is_too_short rng tim now t1 =
     (let (f, reply) = handle_append_entries rng t1 (empty_append 1 1 3 1) (module_with_log rng tim now 2 [1, 3] 1 [1])
      in \<not> aer_success reply \<and> aer_conflict_index reply = Some 2 \<and> aer_conflict_term reply = None)"

definition follower_hints_the_whole_conflicting_term :: "draw \<Rightarrow> timing \<Rightarrow> nat \<Rightarrow> nat \<Rightarrow> bool" where
  "follower_hints_the_whole_conflicting_term rng tim now t1 =
     (let (f, reply) = handle_append_entries rng t1 (empty_append 5 1 4 9)
            (module_with_log rng tim now 2 [1, 3] 2 [1, 1, 2, 2])
      in \<not> aer_success reply \<and> aer_conflict_term reply = Some 2 \<and> aer_conflict_index reply = Some 3)"

definition resumes_after_hint :: "draw \<Rightarrow> timing \<Rightarrow> nat \<Rightarrow> nat \<Rightarrow> nat \<Rightarrow> nat" where
  "resumes_after_hint rng tim now t1 conflict_term =
     (let cm = elect_leader rng t1 (module_with_log rng tim now 1 [2, 3] 5 [4, 4, 5]);
          cm = handle_append_reply 2 \<lparr>aer_term = cm_current_term cm, aer_success = False,
                 aer_conflict_index = Some 2, aer_conflict_term = Some conflict_term\<rparr> 0 cm
      in ae_prev_log_index (append_args_for cm 2))"

definition leader_skips_past_its_own_copy_of_a_shared_term :: "draw \<Rightarrow> timing \<Rightarrow> nat \<Rightarrow> nat \<Rightarrow> bool" where
  "leader_skips_past_its_own_copy_of_a_shared_term rng tim now t1 = (resumes_after_hint rng tim now t1 4 = 2)"

definition leader_adopts_follower_index_for_a_term_it_lacks :: "draw \<Rightarrow> timing \<Rightarrow> nat \<Rightarrow> nat \<Rightarrow> bool" where
  "leader_adopts_follower_index_for_a_term_it_lacks rng tim now t1 = (resumes_after_hint rng tim now t1 9 = 1)"

text \<open>The repair loop of the tests; \<open>None\<close> is its panic when the rounds are used up.\<close>

fun repair_until_success ::
  "draw \<Rightarrow> nat \<Rightarrow> nat \<Rightarrow> 's consensus_module \<Rightarrow> 's consensus_module \<Rightarrow> nat \<Rightarrow>
   ('s consensus_module \<times> 's consensus_module) option" where
  "repair_until_success rng now 0 leader follower fid = None"
| "repair_until_success rng now (Suc rounds) leader follower fid =
     (let args = append_args_for leader fid;
          match_hint = ae_prev_log_index args + length (ae_entries args);
          (follower, reply) = handle_append_entries rng now args follower;
          leader = handle_append_reply fid reply match_hint leader
      in if aer_success reply then Some (leader, follower)
         else repair_until_success rng now rounds leader follower fid)"

definition a_divergent_follower_converges_to_the_leaders_log :: "draw \<Rightarrow> timing \<Rightarrow> nat \<Rightarrow> nat \<Rightarrow> nat \<Rightarrow> bool" where
  "a_divergent_follower_converges_to_the_leaders_log rng tim now t1 t2 =
     (let leader = elect_leader rng t1 (module_with_log rng tim now 1 [2] 6 [1, 1, 1, 4, 4, 5, 5, 6, 6, 6]);
          follower = module_with_log rng tim now 2 [1] 3 [1, 1, 1, 2, 2, 2, 3, 3, 3, 3, 3]
      in case repair_until_success rng t2 64 leader follower 2 of
           None \<Rightarrow> False
         | Some (leader, follower) \<Rightarrow> lg_entries (cm_log follower) = lg_entries (cm_log leader))"

lemma replication_tests_pass:
  "only_the_leader_accepts_commands rng tim now t1" "commit_advances_once_a_majority_matches rng tim now t1"
  "a_leader_never_commits_a_prior_term_by_count_alone rng tim now t1"
  "rejected_append_backs_off_next_index rng tim now t1"
  "follower_hints_its_length_when_log_is_too_short rng tim now t1"
  "follower_hints_the_whole_conflicting_term rng tim now t1"
  "leader_skips_past_its_own_copy_of_a_shared_term rng tim now t1"
  "leader_adopts_follower_index_for_a_term_it_lacks rng tim now t1"
  "a_divergent_follower_converges_to_the_leaders_log rng tim now t1 t2"
  by code_simp+

section \<open>Snapshots\<close>

definition submit_all :: "string list \<Rightarrow> 's consensus_module \<Rightarrow> 's consensus_module" where
  "submit_all cmds cm = fold (\<lambda>cmd cm. fst (submit_command (as_bytes cmd) cm)) cmds cm"

definition snapshotting_compacts_the_log_and_keeps_serving :: "draw \<Rightarrow> timing \<Rightarrow> nat \<Rightarrow> nat \<Rightarrow> bool" where
  "snapshotting_compacts_the_log_and_keeps_serving rng tim now t1 =
     (let cm = submit_all [''a'', ''b'', ''c''] (elect_leader rng t1 (test_module rng tim now 1 [2, 3]));
          cm = handle_append_reply 2 (append_reply_success (cm_current_term cm)) 3 cm
      in cm_commit_index cm = 3 \<and>
         (case take_applies cm of
            None \<Rightarrow> False
          | Some (cm, items) \<Rightarrow> length (only_commands items) = 3 \<and>
              (case cm_take_snapshot 2 (as_bytes ''snap@2'') cm of
                 None \<Rightarrow> False
               | Some cm \<Rightarrow>
                   snapshot_index cm = 2 \<and> raft_log_len cm = 1 \<and> last_log_index cm = 3 \<and>
                   (let cm = fst (submit_command (as_bytes ''d'') cm);
                        cm = handle_append_reply 2 (append_reply_success (cm_current_term cm)) 4 cm
                    in cm_commit_index cm = 4 \<and>
                       map_option (length \<circ> only_commands \<circ> snd) (take_applies cm) = Some 1))))"

definition snapshotting_an_unapplied_or_stale_index_is_ignored :: "draw \<Rightarrow> timing \<Rightarrow> nat \<Rightarrow> nat \<Rightarrow> bool" where
  "snapshotting_an_unapplied_or_stale_index_is_ignored rng tim now t1 =
     (let cm = submit_all [''a''] (elect_leader rng t1 (test_module rng tim now 1 [2, 3]))
      in map_option (\<lambda>cm. (snapshot_index cm, raft_log_len cm)) (cm_take_snapshot 1 (as_bytes ''x'') cm) = Some (0, 1))"

definition a_follower_installs_a_snapshot_and_queues_it_for_apply :: "draw \<Rightarrow> timing \<Rightarrow> nat \<Rightarrow> nat \<Rightarrow> bool" where
  "a_follower_installs_a_snapshot_and_queues_it_for_apply rng tim now t1 =
     (let (f, reply) = handle_install_snapshot rng t1
            \<lparr>is_term = 5, is_leader_id = 1, is_last_included_index = 6, is_last_included_term = 4,
             is_data = as_bytes ''leader-state''\<rparr> (module_with_log rng tim now 2 [1, 3] 4 [1, 1])
      in isr_term reply = 5 \<and> cm_current_term f = 5 \<and> cm_leader_id f = Some 1 \<and> snapshot_index f = 6 \<and>
         last_log_index f = 6 \<and> cm_commit_index f = 6 \<and> cm_last_applied f = 6 \<and>
         (case map_option snd (take_applies f) of
            Some [ApplySnapshot s] \<Rightarrow> sn_last_included_index s = 6 \<and> sn_data s = as_bytes ''leader-state''
          | _ \<Rightarrow> False))"

definition a_stale_snapshot_is_rejected_without_regressing :: "draw \<Rightarrow> timing \<Rightarrow> nat \<Rightarrow> nat \<Rightarrow> nat \<Rightarrow> bool" where
  "a_stale_snapshot_is_rejected_without_regressing rng tim now t1 t2 =
     (let cm = submit_all [''a'', ''b'', ''c''] (elect_leader rng t1 (test_module rng tim now 1 [2, 3]));
          cm = handle_append_reply 2 (append_reply_success (cm_current_term cm)) 3 cm
      in case take_applies cm of
           None \<Rightarrow> False
         | Some (cm, _) \<Rightarrow>
             (let after = fst (handle_install_snapshot rng t2
                    \<lparr>is_term = cm_current_term cm, is_leader_id = 1, is_last_included_index = 2,
                     is_last_included_term = 1, is_data = as_bytes ''old''\<rparr> cm)
              in cm_commit_index cm = 3 \<and> cm_commit_index after = 3 \<and> snapshot_index after = 0 \<and>
                 map_option snd (take_applies after) = Some []))"

definition install_snapshot_reply_advances_the_peer_view :: "draw \<Rightarrow> timing \<Rightarrow> nat \<Rightarrow> nat \<Rightarrow> bool" where
  "install_snapshot_reply_advances_the_peer_view rng tim now t1 =
     (let cm = elect_leader rng t1 (test_module rng tim now 1 [2, 3]);
          cm = handle_install_snapshot_reply 2 \<lparr>isr_term = cm_current_term cm\<rparr> 7 cm
      in ae_prev_log_index (append_args_for cm 2) = 7)"

definition a_restart_with_a_snapshot_replays_no_prefix_and_delivers_it :: "draw \<Rightarrow> timing \<Rightarrow> nat \<Rightarrow> bool" where
  "a_restart_with_a_snapshot_replays_no_prefix_and_delivers_it rng tim now =
     (let storage = snd (storage_save in_memory_new
            \<lparr>ps_current_term = 4, ps_voted_for = Some 1,
             ps_log = from_parts 5 3 [log_entry_new 3 (as_bytes ''tail'')], ps_snapshot = Some (as_bytes ''restored-image'')\<rparr>)
      in case cm_new rng 2 [1, 3] storage tim now of
           Inl e \<Rightarrow> False
         | Inr cm \<Rightarrow>
             snapshot_index cm = 5 \<and> cm_commit_index cm = 5 \<and> cm_last_applied cm = 5 \<and> last_log_index cm = 6 \<and>
             (case map_option snd (take_applies cm) of Some [ApplySnapshot s] \<Rightarrow> True | _ \<Rightarrow> False))"

lemma snapshot_tests_pass:
  "snapshotting_compacts_the_log_and_keeps_serving rng tim now t1"
  "snapshotting_an_unapplied_or_stale_index_is_ignored rng tim now t1"
  "a_follower_installs_a_snapshot_and_queues_it_for_apply rng tim now t1"
  "a_stale_snapshot_is_rejected_without_regressing rng tim now t1 t2"
  "install_snapshot_reply_advances_the_peer_view rng tim now t1"
  "a_restart_with_a_snapshot_replays_no_prefix_and_delivers_it rng tim now"
  by code_simp+

end
