(* ===== verification/Raft_Disk_Tests.thy ===== *)
theory Raft_Disk_Tests
  imports Raft_File_Storage Rust_String
begin

text \<open>
  The unit tests of \<^verbatim>\<open>src/raft/storage.rs\<close> on the model. A test that uses a temporary directory
  is a function of the path of its file and of the file system it starts in, and passes on
  every file system that works and has no such file yet.
\<close>

section \<open>Plain round trips\<close>

text \<open>\<open>sample_state()\<close>.\<close>

definition test_state :: persistent_state where
  "test_state =
     (let (log, _) = log_append log_new (log_entry_new 1 (as_bytes ''set x=1''));
          (log, _) = log_append log (log_entry_new 2 [])
      in \<lparr>ps_current_term = 3, ps_voted_for = Some 2, ps_log = log, ps_snapshot = None\<rparr>)"

definition save_then_load_roundtrips :: bool where
  "save_then_load_roundtrips =
     (let storage = in_memory_new;
          (r, saved) = storage_save storage test_state
      in storage_load storage = Inr persistent_default \<and> r = Inr () \<and> storage_load saved = Inr test_state)"

definition file_storage_survives_a_reopen :: "path \<Rightarrow> fs \<Rightarrow> bool" where
  "file_storage_survives_a_reopen path s =
     (let (r, s') = file_save (file_storage_new path) s test_state
      in file_load (file_storage_new path) s = Inr persistent_default \<and> r = Inr () \<and>
         file_load (file_storage_new path) s' = Inr test_state)"

definition file_storage_overwrites_atomically :: "path \<Rightarrow> fs \<Rightarrow> bool" where
  "file_storage_overwrites_atomically path s =
     (let storage = file_storage_new path;
          (r, s) = file_save storage s test_state;
          newer = \<lparr>ps_current_term = 9, ps_voted_for = None, ps_log = log_new, ps_snapshot = None\<rparr>;
          (r', s) = file_save storage s newer
      in r = Inr () \<and> r' = Inr () \<and> file_load storage s = Inr newer)"

definition compacted_state :: persistent_state where
  "compacted_state =
     \<lparr>ps_current_term = 4, ps_voted_for = Some 1,
      ps_log = from_parts 5 3 [log_entry_new 3 (as_bytes ''tail-1''), log_entry_new 4 (as_bytes ''tail-2'')],
      ps_snapshot = Some (as_bytes ''opaque-state-machine-image'')\<rparr>"

definition snapshot_and_compacted_log_round_trip :: "path \<Rightarrow> fs \<Rightarrow> bool" where
  "snapshot_and_compacted_log_round_trip path s =
     (let (r, s) = file_save (file_storage_new path) s compacted_state
      in r = Inr () \<and>
         (case file_load (file_storage_new path) s of
            Inl e \<Rightarrow> False
          | Inr loaded \<Rightarrow> loaded = compacted_state \<and> lg_snapshot_index (ps_log loaded) = 5 \<and>
              lg_snapshot_term (ps_log loaded) = 3 \<and> last_index (ps_log loaded) = 7))"

section \<open>Damaged files\<close>

text \<open>\<open>std::fs::write\<close>.\<close>

definition fs_write :: "path \<Rightarrow> bytes \<Rightarrow> unit io" where
  "fs_write p bs = io_bind (file_create p) (\<lambda>i. file_write_all i bs)"

definition corrupt_file_is_rejected_not_misread :: "path \<Rightarrow> fs \<Rightarrow> bool" where
  "corrupt_file_is_rejected_not_misread path s =
     (let (r, s1) = fs_write path (as_bytes ''not a raft state file'') s;
          bytes = encode test_state;
          (r', s2) = fs_write path (take (length bytes - 3) bytes) s1
      in r = Inr () \<and> (\<exists>e. file_load (file_storage_new path) s1 = Inl e) \<and>
         r' = Inr () \<and> (\<exists>e. file_load (file_storage_new path) s2 = Inl e))"

section \<open>A restart\<close>

definition a_restarted_node_recovers_term_vote_and_log :: "draw \<Rightarrow> timing \<Rightarrow> nat \<Rightarrow> path \<Rightarrow> fs \<Rightarrow> bool" where
  "a_restarted_node_recovers_term_vote_and_log rng tim now path s =
     (case cm_new rng 1 [] (file_box path s) tim now of
        Inl e \<Rightarrow> False
      | Inr cm \<Rightarrow>
          (let leader = fst (start_election rng now cm);
               cm = fst (submit_command (as_bytes ''a'') leader);
               cm = fst (submit_command (as_bytes ''b'') cm)
           in is_leader leader \<and>
              (case cm_new rng 1 [] (file_box path (ds_self (cm_storage cm))) tim now of
                 Inl e \<Rightarrow> False
               | Inr recovered \<Rightarrow>
                   cm_current_term recovered = 1 \<and> last_log_index recovered = 2 \<and>
                   le_command (hd (lg_entries (cm_log recovered))) = as_bytes ''a'' \<and>
                   \<not> rvr_vote_granted (snd (handle_request_vote rng now
                       \<lparr>rv_term = 1, rv_candidate_id = 2, rv_last_log_index = 2, rv_last_log_term = 1,
                        rv_pre_vote = False\<rparr> recovered)))))"

section \<open>They pass\<close>

lemma test_states_fit: "state_fits test_state" "state_fits compacted_state"
  by (simp_all add: test_state_def compacted_state_def state_fits_def entry_fits_def log_append_def log_new_def from_parts_def
      log_entry_new_def as_bytes_def Let_def)

text \<open>A save on a working disk, and a load of what it wrote.\<close>

lemma healthy_save:
  assumes "fs_healthy (file_storage_new p) s" "state_fits st"
  obtains s' where "file_save (file_storage_new p) s st = (Inr (), s')" "fs_healthy (file_storage_new p) s'"
    "file_load (file_storage_new p) s' = Inr st"
proof -
  obtain s' where s': "file_save (file_storage_new p) s st = (Inr (), s')"
    using reliable_file.save_succeeds [OF assms] by (metis prod.collapse)
  with reliable_file.save_sound [OF assms(1)] reliable_file.save_ok [OF assms] that show thesis by blast
qed

lemma fresh_load:
  assumes "fs_healthy (file_storage_new p) s" "fs_content p s = None"
  shows "file_load (file_storage_new p) s = Inr persistent_default"
proof -
  have "fst_path (file_storage_new p) = p" by (simp add: file_storage_new_def)
  with assms fs_ok_readable [of "file_storage_new p" s] show ?thesis by (simp add: file_load_content fs_healthy_def)
qed

lemma storage_tests_pass:
  assumes "fs_healthy (file_storage_new path) s"
  shows "save_then_load_roundtrips"
    and "fs_content path s = None \<Longrightarrow> file_storage_survives_a_reopen path s"
    and "file_storage_overwrites_atomically path s" "snapshot_and_compacted_log_round_trip path s"
proof -
  show "save_then_load_roundtrips"
    by (simp add: save_then_load_roundtrips_def storage_save_def storage_load_def in_memory_new_def in_memory_load_def
        in_memory_save_def)
  show "file_storage_survives_a_reopen path s" if "fs_content path s = None"
    by (rule healthy_save [OF assms test_states_fit(1)])
      (simp add: file_storage_survives_a_reopen_def fresh_load [OF assms that])
  show "snapshot_and_compacted_log_round_trip path s"
    by (rule healthy_save [OF assms test_states_fit(2)])
      (simp add: snapshot_and_compacted_log_round_trip_def compacted_state_def from_parts_def last_index_def)
  let ?newer = "\<lparr>ps_current_term = 9, ps_voted_for = None, ps_log = log_new, ps_snapshot = None\<rparr>"
  obtain s1 where s1: "file_save (file_storage_new path) s test_state = (Inr (), s1)" "fs_healthy (file_storage_new path) s1"
    by (rule healthy_save [OF assms test_states_fit(1)])
  have "state_fits ?newer" by (simp add: state_fits_def log_new_def)
  then obtain s2 where "file_save (file_storage_new path) s1 ?newer = (Inr (), s2)"
    "file_load (file_storage_new path) s2 = Inr ?newer"
    by (rule healthy_save [OF s1(2)])
  with s1(1) show "file_storage_overwrites_atomically path s" by (simp add: file_storage_overwrites_atomically_def Let_def)
qed

lemma fs_write_content:
  assumes "fs_plan s = (\<lambda>_. None)" "dir_exists p s"
  obtains s' where "fs_write p bs s = (Inr (), s')" "fs_content p s' = Some bs" "fs_plan s' = (\<lambda>_. None)" "dir_exists p s'"
    "fs_deny s' = fs_deny s"
proof -
  let ?s = "snd (fs_write p bs s)"
  have "fs_write p bs s = (Inr (), ?s) \<and> fs_content p ?s = Some bs \<and> fs_plan ?s = (\<lambda>_. None) \<and> dir_exists p ?s \<and> fs_deny ?s = fs_deny s"
    using assms
    by (auto simp: fs_write_def io_bind_def file_create_def file_write_all_def io_op_def set_inode_def set_dir_def Let_def
        fs_content_def dir_exists_def split: option.splits)
  then show thesis using that by blast
qed

lemma corrupt_test_passes:
  assumes "fs_plan s = (\<lambda>_. None)" "dir_exists path s" "fs_deny s path = None"
  shows "corrupt_file_is_rejected_not_misread path s"
proof -
  let ?f = "file_storage_new path" and ?bs = "encode test_state"
  have path: "fst_path ?f = path" by (simp add: file_storage_new_def)
  obtain s1 where s1: "fs_write path (as_bytes ''not a raft state file'') s = (Inr (), s1)"
    "fs_content path s1 = Some (as_bytes ''not a raft state file'')" "fs_plan s1 = (\<lambda>_. None)" "dir_exists path s1" "fs_deny s1 = fs_deny s"
    by (rule fs_write_content [OF assms(1,2)])
  obtain s2 where s2: "fs_write path (take (length ?bs - 3) ?bs) s1 = (Inr (), s2)"
    "fs_content path s2 = Some (take (length ?bs - 3) ?bs)" "fs_deny s2 = fs_deny s1"
    by (rule fs_write_content [OF s1(3,4)])
  have "decode (as_bytes ''not a raft state file'') = Inl BadMagic"
    by (simp add: decode_def decode_header_def reader_take_def cursor_take_def as_bytes_def MAGIC_def byte_of_def)
  then have 1: "\<exists>e. file_load ?f s1 = Inl e" using s1(2,5) assms(3) by (simp add: file_load_content path)
  have "length ?bs > 3" by (simp add: encode_def MAGIC_def)
  then have "strict_prefix (take (length ?bs - 3) ?bs) ?bs" by (simp add: strict_prefix_def take_is_prefix)
  then have "\<exists>e. decode (take (length ?bs - 3) ?bs) = Inl e" by (rule decode_truncated [OF test_states_fit(1)])
  then have 2: "\<exists>e. file_load ?f s2 = Inl e" using s2(2,3) s1(5) assms(3) by (auto simp: file_load_content path)
  from s1(1) s2(1) 1 2 show ?thesis unfolding corrupt_file_is_rejected_not_misread_def Let_def by simp
qed

text \<open>The state on disk after each method is the one in memory (\<open>exec_mirrored\<close>).\<close>

lemma lone_submit:
  assumes "is_leader cm" "persistent_of cm = \<lparr>ps_current_term = t, ps_voted_for = v, ps_log = l, ps_snapshot = sn\<rparr>"
  shows "persistent_of (fst (submit_command b cm)) =
      \<lparr>ps_current_term = t, ps_voted_for = v, ps_log = fst (log_append l (log_entry_new t b)), ps_snapshot = sn\<rparr>"
    and "is_leader (fst (submit_command b cm))"
  using assms by (auto simp: submit_command_def is_leader_def persistent_of_def Let_def case_prod_beta)

lemma restart_test_passes:
  assumes "fs_healthy (file_storage_new path) s" "fs_content path s = None"
  shows "a_restarted_node_recovers_term_vote_and_log rng tim now path s"
proof -
  let ?box = "boxed (file_load (file_storage_new path)) (file_save (file_storage_new path)) (fs_healthy (file_storage_new path))"
  let ?st = "\<lambda>l. \<lparr>ps_current_term = 1, ps_voted_for = Some 1, ps_log = l, ps_snapshot = None\<rparr>"
  have load: "storage_load (file_box path s) = Inr persistent_default"
    by (simp add: storage_load_def file_box_def fresh_load [OF assms])
  obtain c0 where c0: "cm_new rng 1 [] (file_box path s) tim now = Inr c0"
    by (simp add: cm_new_def load Let_def)
  note c1 = lone_election [OF c0 load]
  let ?c1 = "fst (start_election rng now c0)"
  note c2 = lone_submit [OF c1(2,1), of "as_bytes ''a''"]
  let ?c2 = "fst (submit_command (as_bytes ''a'') ?c1)"
  note c3 = lone_submit [OF c2(2,1), of "as_bytes ''b''"]
  let ?c3 = "fst (submit_command (as_bytes ''b'') ?c2)"
  have fits: "state_fits (persistent_of ?c1)" "state_fits (persistent_of ?c2)" "state_fits (persistent_of ?c3)"
    unfolding c1(1) c2(1) c3(1)
    by (simp_all add: state_fits_def entry_fits_def log_append_def log_new_def log_entry_new_def as_bytes_def Let_def)
  have "?box (cm_storage c0)" using c1(3) assms(1) by (simp add: boxed_def file_box_def)
  from reliable_file.exec_mirrored [OF this c1(4), of "StartElection rng now" ?c1] fits(1)
  have "?box (cm_storage ?c1)" "mirrored ?c1" by simp_all
  from reliable_file.exec_mirrored [OF this, of "SubmitCommand (as_bytes ''a'')" ?c2] fits(2)
  have "?box (cm_storage ?c2)" "mirrored ?c2" by simp_all
  from reliable_file.exec_mirrored [OF this, of "SubmitCommand (as_bytes ''b'')" ?c3] fits(3)
  have "?box (cm_storage ?c3)" "mirrored ?c3" by simp_all
  then have "storage_load (file_box path (ds_self (cm_storage ?c3))) = Inr (persistent_of ?c3)"
    by (simp add: boxed_def mirrored_def file_box_def storage_load_def)
  then have again: "\<exists>r. cm_new rng 1 [] (file_box path (ds_self (cm_storage ?c3))) tim now = Inr r \<and>
      cm_current_term r = 1 \<and> cm_voted_for r = Some 1 \<and> cm_log r = ps_log (persistent_of ?c3)"
    unfolding c3(1) by (simp add: cm_new_def Let_def)
  then obtain r where r: "cm_new rng 1 [] (file_box path (ds_self (cm_storage ?c3))) tim now = Inr r"
    "cm_current_term r = 1" "cm_voted_for r = Some 1" "cm_log r = ps_log (persistent_of ?c3)" by blast
  have "lg_entries (cm_log r) = [log_entry_new 1 (as_bytes ''a''), log_entry_new 1 (as_bytes ''b'')]" "last_log_index r = 2"
    using r(4) unfolding c3(1) by (simp_all add: log_append_def log_new_def last_log_index_def last_index_def Let_def)
  moreover have "\<not> rvr_vote_granted (snd (handle_request_vote rng now \<lparr>rv_term = 1, rv_candidate_id = 2,
      rv_last_log_index = 2, rv_last_log_term = 1, rv_pre_vote = False\<rparr> r))"
    using r(2,3) by (simp add: handle_request_vote_def adopt_newer_term_def Let_def)
  ultimately show ?thesis
    using c0 c1(2) r(1,2) by (simp add: a_restarted_node_recovers_term_vote_and_log_def Let_def log_entry_new_def)
qed

end
