(* ===== verification/Kv_Tests.thy ===== *)
theory Kv_Tests
  imports Kv_Snapshot Kv_Server
begin

text \<open>
  The unit tests of \<^verbatim>\<open>src/command.rs\<close>, \<^verbatim>\<open>src/store.rs\<close> and \<^verbatim>\<open>src/app.rs\<close> on the model. The tests run
  on the Sable engine and the prost encoding, so they are functions of an engine with an
  empty state and of a message format, and pass on every engine that does not fail and on
  every format with the round-trip law.
\<close>

section \<open>Commands and the store\<close>

definition commands_round_trip_through_bytes :: "'e prost \<Rightarrow> bool" where
  "commands_round_trip_through_bytes W =
     list_all (\<lambda>cmd. command_decode W (command_encode W cmd) = Inr cmd)
       [command_get (as_bytes ''k''), command_put (as_bytes ''k'') (as_bytes ''v'') 7 3,
        command_append (as_bytes ''k'') (as_bytes ''v'') 7 4, command_delete (as_bytes ''k'') 7 5]"

definition op_discriminants_are_recoverable :: bool where
  "op_discriminants_are_recoverable =
     (op_try_from (cmd_op (command_append (as_bytes ''x'') (as_bytes ''1'') 1 1)) = Inr OpAppend)"

definition put_get_overwrite_delete :: "'db sable \<Rightarrow> 'db \<Rightarrow> bool" where
  "put_get_overwrite_delete E db0 =
     (let key = as_bytes ''alpha'';
          (r1, db1) = store_put E db0 key (as_bytes ''one'');
          (r2, db2) = store_put E db1 key (as_bytes ''two'');
          (r3, db3) = store_delete E db2 key
      in store_get E db0 key = Inr None \<and>
         r1 = Inr () \<and> store_get E db1 key = Inr (Some (as_bytes ''one'')) \<and>
         r2 = Inr () \<and> store_get E db2 key = Inr (Some (as_bytes ''two'')) \<and>
         r3 = Inr () \<and> store_get E db3 key = Inr None)"

text \<open>
  Dropping the last handle of an engine and opening its directory again is a function
  \<open>reopen\<close> of the engine's state.
\<close>

definition data_survives_reopen :: "'db sable \<Rightarrow> ('db \<Rightarrow> string + 'db) \<Rightarrow> 'db \<Rightarrow> bool" where
  "data_survives_reopen E reopen db =
     (let (r, db) = store_put E db (as_bytes ''persist'') (as_bytes ''yes'') in
      r = Inr () \<and>
      (case engine_error (reopen db) of
         Inl _ \<Rightarrow> False
       | Inr store \<Rightarrow> store_get E store (as_bytes ''persist'') = Inr (Some (as_bytes ''yes''))))"

section \<open>The unreplicated service\<close>

text \<open>The tests of \<^verbatim>\<open>tests/kv_grpc.rs\<close>, the calls going straight to the handlers.\<close>

definition put_get_delete_over_grpc :: "'db sable \<Rightarrow> 'db \<Rightarrow> bool" where
  "put_get_delete_over_grpc E db =
     (let key = as_bytes ''color'';
          (db, r1) = server_get E key db;
          (db, r2) = server_put E \<lparr>pr_key = key, pr_value = as_bytes ''amber'', pr_client_id = 0, pr_seq = 0\<rparr> db;
          (db, r3) = server_get E key db;
          (db, r4) = server_delete E \<lparr>dr_key = key, dr_client_id = 0, dr_seq = 0\<rparr> db;
          (db, r5) = server_get E key db
      in map_sum id gr_found r1 = Inr False \<and> r2 = Inr () \<and>
         r3 = Inr \<lparr>gr_found = True, gr_value = as_bytes ''amber''\<rparr> \<and> r4 = Inr () \<and>
         map_sum id gr_found r5 = Inr False)"

definition empty_value_is_found :: "'db sable \<Rightarrow> 'db \<Rightarrow> bool" where
  "empty_value_is_found E db =
     (let (db, r1) = server_put E \<lparr>pr_key = as_bytes ''k'', pr_value = [], pr_client_id = 0, pr_seq = 0\<rparr> db;
          (db, r2) = server_get E (as_bytes ''k'') db
      in r1 = Inr () \<and> r2 = Inr \<lparr>gr_found = True, gr_value = []\<rparr>)"

lemma command_tests_pass:
  "prost_message W \<Longrightarrow> commands_round_trip_through_bytes W" "op_discriminants_are_recoverable"
  by (simp_all add: commands_round_trip_through_bytes_def op_discriminants_are_recoverable_def
      prost_message.command_round_trip cmd_fits_def command_defs op_try_from_def)

section \<open>Deduplication\<close>

text \<open>\<open>value(outcome)\<close>, which panics on other outcomes.\<close>

definition outcome_value :: "outcome \<Rightarrow> bytes option" where
  "outcome_value out = (case out of OutValue v \<Rightarrow> v)"

definition a_retried_mutation_applies_exactly_once :: "'db sable \<Rightarrow> 'db \<Rightarrow> bool" where
  "a_retried_mutation_applies_exactly_once E db =
     (let key = as_bytes ''k'';
          (s1, o1) = apply_committed E (command_append key (as_bytes ''a'') 42 1) (app_new db);
          (s2, o2) = apply_committed E (command_append key (as_bytes ''a'') 42 1) s1;
          (s3, o3) = apply_committed E (command_append key (as_bytes ''b'') 42 2) s2
      in outcome_value o1 = Some (as_bytes ''a'') \<and> outcome_value o2 = Some (as_bytes ''a'') \<and>
         store_get E (as_store s2) key = Inr (Some (as_bytes ''a'')) \<and> outcome_value o3 = Some (as_bytes ''ab''))"

definition different_clients_are_tracked_independently :: "'db sable \<Rightarrow> 'db \<Rightarrow> bool" where
  "different_clients_are_tracked_independently E db =
     (let key = as_bytes ''k'';
          (s1, _) = apply_committed E (command_append key (as_bytes ''x'') 1 1) (app_new db);
          (s2, _) = apply_committed E (command_append key (as_bytes ''y'') 2 1) s1
      in store_get E (as_store s2) key = Inr (Some (as_bytes ''xy'')))"

definition unidentified_writes_are_not_deduplicated :: "'db sable \<Rightarrow> 'db \<Rightarrow> bool" where
  "unidentified_writes_are_not_deduplicated E db =
     (let cmd = command_append (as_bytes ''k'') (as_bytes ''z'') 0 0;
          (s1, _) = apply_committed E cmd (app_new db);
          (s2, _) = apply_committed E cmd s1
      in store_get E (as_store s2) (as_bytes ''k'') = Inr (Some (as_bytes ''zz'')))"

section \<open>Snapshots\<close>

text \<open>Two nodes, each with an engine of its own (\<open>db\<close> and \<open>db'\<close>) and its own hash orders.\<close>

definition a_snapshot_transfers_kv_and_dedup_state ::
  "'db sable \<Rightarrow> hash_order \<Rightarrow> hash_order \<Rightarrow> 'db \<Rightarrow> 'db \<Rightarrow> bool" where
  "a_snapshot_transfers_kv_and_dedup_state E H H' db db' =
     (let leader = fst (apply_committed E (command_put (as_bytes ''a'') (as_bytes ''1'') 7 1) (app_new db));
          leader = fst (apply_committed E (command_append (as_bytes ''b'') (as_bytes ''xy'') 7 2) leader);
          follower = install_snapshot E H' (build_snapshot E H leader) (app_new db');
          (retried, out) = apply_committed E (command_append (as_bytes ''b'') (as_bytes ''xy'') 7 2) follower
      in store_get E (as_store follower) (as_bytes ''a'') = Inr (Some (as_bytes ''1'')) \<and>
         store_get E (as_store follower) (as_bytes ''b'') = Inr (Some (as_bytes ''xy'')) \<and>
         outcome_value out = Some (as_bytes ''xy'') \<and>
         store_get E (as_store retried) (as_bytes ''b'') = Inr (Some (as_bytes ''xy'')))"

definition installing_a_snapshot_clears_stale_keys ::
  "'db sable \<Rightarrow> hash_order \<Rightarrow> hash_order \<Rightarrow> 'db \<Rightarrow> 'db \<Rightarrow> bool" where
  "installing_a_snapshot_clears_stale_keys E H H' db db' =
     (let follower = fst (apply_committed E (command_put (as_bytes ''stale'') (as_bytes ''old'') 0 0) (app_new db'));
          leader = fst (apply_committed E (command_put (as_bytes ''fresh'') (as_bytes ''new'') 0 0) (app_new db));
          follower = install_snapshot E H' (build_snapshot E H leader) follower
      in store_get E (as_store follower) (as_bytes ''stale'') = Inr None \<and>
         store_get E (as_store follower) (as_bytes ''fresh'') = Inr (Some (as_bytes ''new'')) \<and>
         as_bytes ''stale'' \<notin> as_keys follower)"

section \<open>They pass\<close>

text \<open>What fits a snapshot can be read off the machine.\<close>

definition machine_fits :: "machine \<Rightarrow> bool" where
  "machine_fits m \<longleftrightarrow>
     finite (dom (mc_dedup m)) \<and> card (dom (mc_dedup m)) < 2 ^ 64 \<and>
     (\<forall>i l. mc_dedup m i = Some l \<longrightarrow> client_fits (i, l)) \<and>
     finite (dom (mc_kv m)) \<and> card (dom (mc_kv m)) < 2 ^ 64 \<and> (\<forall>k v. mc_kv m k = Some v \<longrightarrow> pair_fits (k, v))"

lemma byte_of_eq_iff: "byte_of c = byte_of d \<longleftrightarrow> c = d"
  by (metis char_of_byte_of)

context reliable_engine
begin

lemma store_test_passes:
  assumes "contents db = Map.empty"
  shows "put_get_overwrite_delete E db"
proof -
  let ?k = "as_bytes ''alpha''"
  obtain db1 where 1: "store_put E db ?k (as_bytes ''one'') = (Inr (), db1)" "contents db1 = (contents db)(?k \<mapsto> as_bytes ''one'')"
    by (rule put_value)
  obtain db2 where 2: "store_put E db1 ?k (as_bytes ''two'') = (Inr (), db2)" "contents db2 = (contents db1)(?k \<mapsto> as_bytes ''two'')"
    by (rule put_value)
  obtain db3 where 3: "store_delete E db2 ?k = (Inr (), db3)" "contents db3 = (contents db2)(?k := None)"
    by (rule delete_value)
  show ?thesis by (simp add: put_get_overwrite_delete_def 1 2 3 get_value assms)
qed

lemma grpc_tests_pass:
  assumes "contents db = Map.empty"
  shows "put_get_delete_over_grpc E db" "empty_value_is_found E db"
proof -
  let ?k = "as_bytes ''color''"
  obtain db1 where 1: "store_put E db ?k (as_bytes ''amber'') = (Inr (), db1)" "contents db1 = (contents db)(?k \<mapsto> as_bytes ''amber'')"
    by (rule put_value)
  obtain db2 where 2: "store_delete E db1 ?k = (Inr (), db2)" "contents db2 = (contents db1)(?k := None)"
    by (rule delete_value)
  show "put_get_delete_over_grpc E db"
    by (simp add: put_get_delete_over_grpc_def server_defs 1 2 get_value assms)
  obtain db3 where "store_put E db (as_bytes ''k'') [] = (Inr (), db3)" "contents db3 = (contents db)(as_bytes ''k'' \<mapsto> [])"
    by (rule put_value)
  then show "empty_value_is_found E db" by (simp add: empty_value_is_found_def server_defs get_value)
qed

text \<open>A test that applies commands can be run on the abstract machine.\<close>

lemma apply_on_machine:
  "snd (apply_committed E c st) = snd (machine_apply c (machine_of contents st))"
  "machine_of contents (fst (apply_committed E c st)) = fst (machine_apply c (machine_of contents st))"
  using apply_committed_refines(1) [of c st] by (metis prod.collapse fst_conv snd_conv)+

lemma read_machine: "store_get E (as_store st) k = Inr (mc_kv (machine_of contents st) k)"
  by (simp add: get_value machine_of_def)

lemmas test_eval = case_prod_beta Let_def apply_on_machine read_machine
lemmas machine_eval = machine_apply_def replayed_def identified_def is_mutation_def command_defs op_try_from_def
  outcome_value_def as_bytes_def byte_of_eq_iff Let_def

lemma dedup_tests_pass:
  assumes "contents db = Map.empty"
  shows "a_retried_mutation_applies_exactly_once E db" "different_clients_are_tracked_independently E db"
    "unidentified_writes_are_not_deduplicated E db"
proof -
  have m: "machine_of contents (app_new db) = \<lparr>mc_kv = Map.empty, mc_dedup = Map.empty\<rparr>"
    using assms by (simp add: machine_of_def app_new_def)
  show "a_retried_mutation_applies_exactly_once E db"
    by (simp add: a_retried_mutation_applies_exactly_once_def test_eval m) (simp add: machine_eval)
  show "different_clients_are_tracked_independently E db"
    by (simp add: different_clients_are_tracked_independently_def test_eval m) (simp add: machine_eval)
  show "unidentified_writes_are_not_deduplicated E db"
    by (simp add: unidentified_writes_are_not_deduplicated_def test_eval m) (simp add: machine_eval)
qed

lemma fits_on_machine: "keys_ok contents st \<Longrightarrow> machine_fits (machine_of contents st) \<Longrightarrow> app_fits E st"
  by (auto simp: app_fits_def machine_fits_def machine_of_def keys_ok_def snapshot_value_def get_value)

lemma new_app:
  assumes "contents db = Map.empty"
  shows "machine_of contents (app_new db) = \<lparr>mc_kv = Map.empty, mc_dedup = Map.empty\<rparr>" "keys_ok contents (app_new db)"
  using assms by (simp_all add: machine_of_def app_new_def keys_ok_def)

lemma apply_keys: "keys_ok contents st \<Longrightarrow> keys_ok contents (fst (apply_committed E c st))"
  using apply_committed_refines(2) [of c st] by (metis prod.collapse)

lemma installed_machine:
  assumes "hash_order_ok H" "hash_order_ok H'" "keys_ok contents st" "machine_fits (machine_of contents st)"
    and "keys_ok contents st'" "finite (as_keys st')"
  shows "machine_of contents (install_snapshot E H' (build_snapshot E H st) st') = machine_of contents st"
    and "keys_ok contents (install_snapshot E H' (build_snapshot E H st) st')"
  using install_build [OF assms(1,2) fits_on_machine [OF assms(3,4)] assms(3,6,5)] by blast+

lemma image_tests_pass:
  assumes "hash_order_ok H" "hash_order_ok H'" "contents db = Map.empty" "contents db' = Map.empty"
  shows "a_snapshot_transfers_kv_and_dedup_state E H H' db db'" "installing_a_snapshot_clears_stale_keys E H H' db db'"
proof -
  note new = new_app [OF assms(3)] new_app [OF assms(4)]
  note install = installed_machine [OF assms(1,2)]
  let ?put = "fst (apply_committed E (command_put (as_bytes ''a'') (as_bytes ''1'') 7 1) (app_new db))"
  let ?leader = "fst (apply_committed E (command_append (as_bytes ''b'') (as_bytes ''xy'') 7 2) ?put)"
  have leader: "machine_of contents ?leader = \<lparr>mc_kv = [as_bytes ''a'' \<mapsto> as_bytes ''1'', as_bytes ''b'' \<mapsto> as_bytes ''xy''],
      mc_dedup = [7 \<mapsto> \<lparr>la_seq = 2, la_outcome = OutValue (Some (as_bytes ''xy''))\<rparr>]\<rparr>"
    by (simp add: test_eval new) (simp add: machine_eval)
  have "machine_fits (machine_of contents ?leader)"
    unfolding leader by (simp add: machine_fits_def client_fits_def outcome_fits_def pair_fits_def as_bytes_def card_insert_if)
  moreover have "keys_ok contents ?leader" by (simp add: apply_keys new)
  moreover have "finite (as_keys (app_new db'))" by (simp add: app_new_def)
  ultimately have inst: "machine_of contents (install_snapshot E H' (build_snapshot E H ?leader) (app_new db')) =
      machine_of contents ?leader"
    using install(1) new(4) by blast
  show "a_snapshot_transfers_kv_and_dedup_state E H H' db db'"
    by (simp add: a_snapshot_transfers_kv_and_dedup_state_def case_prod_beta Let_def apply_on_machine(1) read_machine apply_on_machine(2) [of _ "install_snapshot E H' d st" for d st]
        inst leader del: One_nat_def) (simp add: machine_eval)
  let ?fresh = "fst (apply_committed E (command_put (as_bytes ''fresh'') (as_bytes ''new'') 0 0) (app_new db))"
  let ?stale = "fst (apply_committed E (command_put (as_bytes ''stale'') (as_bytes ''old'') 0 0) (app_new db'))"
  let ?after = "install_snapshot E H' (build_snapshot E H ?fresh) ?stale"
  have fresh: "machine_of contents ?fresh = \<lparr>mc_kv = [as_bytes ''fresh'' \<mapsto> as_bytes ''new''], mc_dedup = Map.empty\<rparr>"
    by (simp add: test_eval new) (simp add: machine_eval)
  have stale: "machine_of contents ?stale = \<lparr>mc_kv = [as_bytes ''stale'' \<mapsto> as_bytes ''old''], mc_dedup = Map.empty\<rparr>"
    by (simp add: test_eval new) (simp add: machine_eval)
  have ok: "keys_ok contents ?fresh" "keys_ok contents ?stale" by (simp_all add: apply_keys new)
  then have "finite (as_keys ?stale)" using stale by (simp add: keys_ok_def machine_of_def)
  moreover have "machine_fits (machine_of contents ?fresh)" unfolding fresh by (simp add: machine_fits_def pair_fits_def as_bytes_def)
  ultimately have after: "machine_of contents ?after = machine_of contents ?fresh" "keys_ok contents ?after"
    using install [OF ok(1) _ ok(2)] by blast+
  have "as_keys ?after = dom (mc_kv (machine_of contents ?after))" using after(2) by (simp add: keys_ok_def machine_of_def)
  then have "as_keys ?after = {as_bytes ''fresh''}" unfolding after(1) fresh by simp
  then show "installing_a_snapshot_clears_stale_keys E H H' db db'"
    by (simp add: installing_a_snapshot_clears_stale_keys_def Let_def read_machine after(1) fresh) (simp add: as_bytes_def byte_of_eq_iff)
qed

end

section \<open>Durable engines\<close>

locale durable_engine = reliable_engine E contents
  for E :: "'db sable" and contents :: "'db \<Rightarrow> kv" +
  fixes reopen :: "'db \<Rightarrow> string + 'db"
  assumes reopened: "\<exists>db'. reopen db = Inr db' \<and> contents db' = contents db"
begin

lemma reopen_test_passes: "data_survives_reopen E reopen db"
proof -
  obtain db1 where 1: "store_put E db (as_bytes ''persist'') (as_bytes ''yes'') = (Inr (), db1)"
    "contents db1 = (contents db)(as_bytes ''persist'' \<mapsto> as_bytes ''yes'')"
    by (rule put_value)
  obtain db2 where "reopen db1 = Inr db2" "contents db2 = contents db1" using reopened by blast
  with 1 show ?thesis by (simp add: data_survives_reopen_def get_value)
qed

end

interpretation mem_durable: durable_engine mem_engine "\<lambda>db. db" Inr
  by unfold_locales simp

end
