(* ===== verification/Spec2Isabelle.thy ===== *)
theory Spec2Isabelle
  imports Raft_Progress Raft_Stream Kv_Server Kv_Order Murmur_Daemon Murmur_Bench
    Raft_Tests Raft_Disk_Tests Kv_Tests
begin

text \<open>
  A verification development for murmur, a replicated key-value store in Rust. A cluster of
  \<^verbatim>\<open>murmurd\<close> processes runs Raft (\<^verbatim>\<open>src/raft\<close>); the commands that Raft commits are applied by
  a deterministic state machine (\<^verbatim>\<open>src/app.rs\<close>) to a local engine (\<^verbatim>\<open>src/store.rs\<close>); clients use
  a library (\<^verbatim>\<open>src/clerk.rs\<close>) that finds the leader and retries. File names below are relative
  to \<^verbatim>\<open>src/\<close> of the crate.

  \<^bold>\<open>How the parts interact.\<close> A clerk numbers each operation and sends it to one node after
  another. The service of a node turns the request into a command with a nonce, registers a
  waiter, and proposes the encoded command to its Raft node. A leader appends it to its
  log; its driver replicates the log to the peers, folds their replies back, and commits
  what a majority holds. Every node drains its committed entries into the apply stream;
  the apply loop applies them, wakes the waiter whose nonce the command carries, and from
  time to time hands Raft a snapshot that replaces the prefix of the log. A follower that
  is too far behind is sent the snapshot instead of entries.

  \<^bold>\<open>Theories of the Raft part.\<close>
  \<^item> \<open>Murmur_Prelude\<close>: types, list, option and quorum lemmas. \<open>Byte_Codec\<close>: the bounds-checked
    readers of both byte formats, and the interface \<open>codec\<close> under which an encoder and a
    reader are proved inverse for items and for counted sequences.
  \<^item> \<open>Raft_Types\<close> (\<^verbatim>\<open>raft/types.rs\<close>): the log with its snapshot offset, one definition per
    method; \<open>indexed_log\<close> is the interface through which all later proofs see a compacted
    log as the list it stands for. \<open>Raft_Rpc\<close> (\<^verbatim>\<open>raft/rpc.rs\<close>), \<open>Raft_Config\<close>
    (\<^verbatim>\<open>raft/config.rs\<close>).
  \<^item> \<open>Raft_Storage\<close> (\<^verbatim>\<open>raft/storage.rs\<close>): the byte format, the storage trait as the interface
    \<open>raft_storage\<close>, the in-memory implementation; decoding undoes encoding and rejects every
    damaged file. \<open>Raft_File_Storage\<close>: the file implementation over a file system with faults
    and crashes; a save is atomic under every crash, and on a disk that does not fail a power
    loss between two methods of the consensus module loses nothing it had.
  \<^item> \<open>Raft_Consensus\<close> (\<^verbatim>\<open>raft/consensus.rs\<close>): every method of \<open>ConsensusModule\<close> on a record with
    its fields. \<open>Raft_Local\<close>: frames, monotone terms, one vote per term, and that the disk
    mirrors memory on reliable storage. \<open>Raft_Replication\<close>: the splice loop, the commit rule,
    the apply drain and the invariant under which no method can panic.
  \<^item> \<open>Raft_Transport\<close> (\<^verbatim>\<open>raft/transport.rs\<close>): wire conversions, clients, service.
    \<open>Raft_Node\<close> (\<^verbatim>\<open>raft/node.rs\<close>): start, tick decisions, fan-out, folding of replies, apply
    drain, handles.
  \<^item> \<open>Raft_Protocol\<close>: the abstract specification, steps on whole logs with ghost history, and
    Raft's safety argument once, for any quorum system. \<open>Raft_Cluster\<close>: nodes of
    \<open>Raft_Node\<close> and a network as a step relation. \<open>Raft_Simulation\<close>, \<open>Raft_Safety\<close>: every
    cluster step is a sequence of protocol steps, so the protocol's theorems hold of the
    code. \<open>Raft_Origin\<close>: every logged or sent command was
    proposed. \<open>Raft_Scenario\<close>: executable runs, which the witnesses use.
  \<^item> \<open>Raft_Repair\<close>: rejected AppendEntries make the leader back up, by log matching always to a
    smaller index. \<open>Raft_Quorum\<close>, \<open>Raft_Progress\<close>: runs in which only the nodes of a majority
    take part. Over the interface \<open>raft_world\<close> (states that refine the protocol, closed under
    steps) such a run is constructed step by step: the nodes learn the highest term, the one
    with the best log wins the pre-vote and the election, backs up or sends its snapshot
    to each other node of the majority until the logs meet, commits and applies.
  \<^item> \<open>Raft_Stream\<close>: the apply stream of every node is in order and without gaps and ends where
    the core has applied, through snapshots and restarts.

  \<^bold>\<open>Theories of the key-value part.\<close>
  \<^item> \<open>Rust_String\<close>: strings as UTF-8 bytes. \<open>Kv_Command\<close> (\<^verbatim>\<open>command.rs\<close>), \<open>Kv_Store\<close>
    (\<^verbatim>\<open>store.rs\<close>): commands and the engine wrapper, over the interfaces \<open>prost_message\<close>,
    \<open>sable_engine\<close> and \<open>reliable_engine\<close>.
  \<^item> \<open>Kv_App\<close> (\<^verbatim>\<open>app.rs\<close>, \<open>AppState\<close>): applying commands with deduplication; it refines an
    abstract machine, and retried mutations take effect once. \<open>Kv_Snapshot\<close>: the snapshot
    image, its strict reader, and that installing an image transfers the whole machine.
  \<^item> \<open>Kv_Api\<close>, \<open>Kv_Service\<close> (\<^verbatim>\<open>app.rs\<close>, \<open>Inner\<close>, \<open>KvService\<close>, the apply loop): what a waiting
    call is answered with, and when. \<open>Kv_System\<close>: the cluster, the services on its nodes and
    the waiting calls as one step relation. \<open>Kv_Replicated\<close>: the invariant that ties them
    together, every snapshot being the image of the machine at its index and every apply
    stream leading in order to where its core has applied; from it, one log explains all
    nodes and all answers. \<open>Kv_Scenario\<close>: an executable run through a restart, in which a
    caller is answered with the outcome of an entry of the earlier life. \<open>Kv_Order\<close>: when a
    call begins its nonce is in no log and no message, so its command comes behind all that
    was settled before; with the one log this makes the calls of a node's life linearizable.
  \<^item> \<open>Kv_Server\<close> (\<^verbatim>\<open>server.rs\<close>): the unreplicated service agrees with the replicated state
    machine. \<open>Kv_Clerk\<close> (\<^verbatim>\<open>clerk.rs\<close>): the retry loop ends
    and finds a leader. \<open>Murmur_Bins\<close> (\<^verbatim>\<open>bin/murmurd.rs\<close>, \<^verbatim>\<open>bin/murmur.rs\<close>): command lines.
    \<open>Rust_Net\<close>, \<open>Murmur_Daemon\<close>: socket addresses, and the daemon's main function; started
    again after a power loss it resumes as the node it was.
    \<open>Murmur_Bench\<close> (\<^verbatim>\<open>bin/murmur-bench.rs\<close>): the load generator ends and counts right.

  \<^bold>\<open>Conformance.\<close> \<open>Raft_Tests\<close>, \<open>Raft_Disk_Tests\<close> and \<open>Kv_Tests\<close>: the unit tests of the Raft
  modules, of storage, and of the commands, the store, deduplication and snapshots, translated
  and shown to pass on the model, for every random draw, every clock the test allows, every
  file system and every engine that does not fail. Of the integration tests (\<^verbatim>\<open>tests/\<close>), those of
  the unreplicated service are translated too; of those that run a cluster in real time, the
  checks on apply logs and on leaders of a term are shown to hold in every reachable state
  (\<open>Raft_Stream\<close>).

  \<^bold>\<open>Correspondence.\<close> A struct is a record, an enum a datatype. A method with \<open>&mut self\<close>
  returns the new state; \<open>Result\<close> is a sum with the error on the left; a method that can panic
  returns an option with \<open>None\<close> for the panic. Code under the core's mutex is one atomic
  definition; a handler that awaits is split at the await (\<open>execute_begin\<close>, \<open>execute_end\<close>).
  \<open>u64\<close> counters are natural numbers and widths are written out where they show: in the byte
  formats, in the nonce (a 64-bit word), and in the bound \<open>fits\<close> on what storage can hold.

  \<^bold>\<open>Parameters.\<close> Code outside the crate is an argument of the definitions that use it: the
  random draw (\<open>rng\<close>), the time (\<open>now\<close>), what a peer's endpoint answers (tonic), the bytes of
  a message (prost), the Sable engine, the order in which hash maps are iterated, what
  each call of the clerk and each attempt to bind a socket returns, and the times the load
  generator measures. Laws assumed of them are the \<open>assumes\<close> of the interfaces
  named above; every interface is interpreted on the model.

  \<^bold>\<open>The cluster.\<close> A message, once sent, can be delivered at any later time, any number of
  times, or never; nodes may be killed between any two steps and restarted from storage.
  The safety theorems assume storage that does not fail (\<open>reliable_storage\<close>, which the
  in-memory and the fault-free file storage satisfy), since \<open>persist\<close> ignores errors. The
  theorems about the whole system also assume engines that do not fail, states whose sizes
  fit the snapshot format, and that a restarted node begins with an empty engine: on the
  engine it had, the code applies the tail of the log twice (\<open>restart_applies_append_twice\<close>)
  and installs snapshots incompletely (\<open>restart_keeps_stale_keys\<close>). That an answer belongs to
  a command with the caller's nonce is all that holds across restarts, since nonces repeat
  (\<open>restart_confuses_callers\<close>); within one life of the node that took a call the answer is
  the call's own (\<open>calls_are_linearizable\<close>).

  Progress (\<open>quorum_makes_progress\<close>) is the existence of a run from every reachable state, on
  storage without a bound on sizes: nothing is assumed of timing or fairness, and nothing is
  said of how likely the run is; that every schedule elects a leader is not claimed.

  \<^bold>\<open>Loops and bounds.\<close> Loops over data are structural or have a measure. The clerk's retry
  loop is a \<open>partial_function\<close>; it is proved to return after at most 201 calls when the
  clock advances by the pause between attempts (\<open>paced\<close>): 10 seconds over 50 milliseconds.

  \<^bold>\<open>Not modelled.\<close> The scheduling of tokio tasks and the contents of sockets (each atomic
  access is a step instead); logging; the usage texts of the programs
  and what the load generator prints; how floating-point numbers round; the files of the Sable
  engine; the code that tonic and prost generate; the polling loops of the integration tests.
\<close>

section \<open>Safety of the cluster\<close>

text \<open>
  C3. Election safety: two nodes of a cluster that lead in the same term are the same node,
  whatever was lost, delayed, duplicated, killed or restarted on the way there.
\<close>

theorem election_safety:
  assumes "reachable_on load save sound fits disk ms tim c" "n \<in> ids ms" "m \<in> ids ms"
    and "is_leader (core_of c n)" "is_leader (core_of c m)"
    and "cm_current_term (core_of c n) = cm_current_term (core_of c m)"
  shows "n = m"
proof -
  obtain g where "cluster_rel ms g c" by (rule reachable_rel [OF assms(1)])
  from rel_one_leader [OF this assms(2,3)] assms(4-6) show ?thesis by (simp add: is_leader_def)
qed

theorem election_safety_witness:
  "\<exists>c m. on_memory c \<and> is_leader (core_of c 1) \<and> is_leader (core_of c m) \<and>
     cm_current_term (core_of c m) = cm_current_term (core_of c 1) \<and> m = 1"
proof -
  obtain c where c: "on_memory c" "is_leader (core_of c 1)"
    by (rule trio_reachable) (auto simp: view_def Let_def is_leader_def)
  have "1 \<in> ids trio" by (simp add: ids_def trio_def)
  with election_safety [OF c(1) _ _ c(2,2)] c show ?thesis by blast
qed

text \<open>
  C7. Log matching: if two nodes have an entry of the same term at the same index, their
  logs hold the same entry at every index up to it that neither has compacted away.
\<close>

theorem log_matching_property:
  assumes "reachable_on load save sound fits disk ms tim c" "n \<in> ids ms" "m \<in> ids ms"
    and "term_at (cm_log (core_of c n)) i = Some t" "term_at (cm_log (core_of c m)) i = Some t"
    and "j \<le> i" "snapshot_index (core_of c n) < j" "snapshot_index (core_of c m) < j"
  shows "log_get (cm_log (core_of c n)) j = log_get (cm_log (core_of c m)) j \<and>
    log_get (cm_log (core_of c n)) j \<noteq> None"
proof -
  obtain g where g: "cluster_rel ms g c" by (rule reachable_rel [OF assms(1)])
  note m = rel_log_matching [OF g assms(2-5)]
  show ?thesis
    by (rule read_prefix [of "pl g n" _ "pl g m" _ i])
      (use m assms(6-8) node_relD(8) [OF cluster_relD(2) [OF g]] assms(2,3) in \<open>auto simp: snapshot_index_def\<close>)
qed

theorem log_matching_property_witness:
  "\<exists>c. on_memory c \<and> term_at (cm_log (core_of c 1)) 1 = Some 1 \<and>
     log_get (cm_log (core_of c 1)) 1 = log_get (cm_log (core_of c 2)) 1"
proof -
  obtain c where c: "on_memory c" "cm_log (core_of c 1) = from_entries [log_entry_new 1 [7]]"
    "cm_log (core_of c 2) = from_entries [log_entry_new 1 [7]]"
    by (rule trio_reachable) (auto simp: view_def Let_def)
  have t: "term_at (from_entries [log_entry_new 1 [7]]) 1 = Some 1"
    by (simp add: term_at_def from_entries_def log_entry_new_def last_index_def)
  have "log_get (cm_log (core_of c 1)) 1 = log_get (cm_log (core_of c 2)) 1"
    by (rule conjunct1 [OF log_matching_property [OF c(1), of 1 2 1 1 1]])
      (use t c(2,3) in \<open>simp_all add: ids_def trio_def snapshot_index_def from_entries_def\<close>)
  with c t show ?thesis by auto
qed

text \<open>
  C6. Leader completeness: a leader's log reaches at least as far as what any node of its
  own or an earlier term has committed, and holds the same entries there.
\<close>

theorem leaders_are_complete:
  assumes "reachable_on load save sound fits disk ms tim c" "n \<in> ids ms" "m \<in> ids ms"
    and "is_leader (core_of c n)" "cm_current_term (core_of c m) \<le> cm_current_term (core_of c n)"
    and "j \<le> cm_commit_index (core_of c m)"
  shows "j \<le> last_log_index (core_of c n) \<and>
    (snapshot_index (core_of c n) < j \<and> snapshot_index (core_of c m) < j \<longrightarrow>
       log_get (cm_log (core_of c n)) j = log_get (cm_log (core_of c m)) j \<and>
       log_get (cm_log (core_of c n)) j \<noteq> None)"
proof -
  obtain g where g: "cluster_rel ms g c" by (rule reachable_rel [OF assms(1)])
  note l = rel_leader_complete [OF g assms(2,3) assms(4) [unfolded is_leader_def] assms(5,6)]
  note N = node_relD(8) [OF cluster_relD(2) [OF g assms(2)]] and M = node_relD(8) [OF cluster_relD(2) [OF g assms(3)]]
  have "j \<le> last_log_index (core_of c n)"
    using l rlog.lastIndex [OF N] by (simp add: last_log_index_def)
  moreover have "log_get (cm_log (core_of c n)) j = log_get (cm_log (core_of c m)) j \<and>
      log_get (cm_log (core_of c n)) j \<noteq> None"
    if "snapshot_index (core_of c n) < j" "snapshot_index (core_of c m) < j"
    by (rule read_prefix [OF N M, of j]) (use l that in \<open>auto simp: snapshot_index_def\<close>)
  ultimately show ?thesis by blast
qed

theorem leaders_are_complete_witness:
  "\<exists>c. on_memory c \<and> is_leader (core_of c 1) \<and> cm_commit_index (core_of c 2) = 1 \<and>
     1 \<le> last_log_index (core_of c 1)"
proof -
  obtain c where c: "on_memory c" "is_leader (core_of c 1)" "cm_commit_index (core_of c 2) = 1"
    "cm_current_term (core_of c 2) \<le> cm_current_term (core_of c 1)"
    by (rule trio_reachable) (auto simp: view_def Let_def is_leader_def)
  have "1 \<in> ids trio" "2 \<in> ids trio" by (simp_all add: ids_def trio_def)
  from leaders_are_complete [OF c(1) this c(2,4), of 1] c show ?thesis by auto
qed



text \<open>
  C8. Committed entries survive: once an entry is committed on a node, no later run of the
  cluster (elections, truncations, crashes and restarts of any node included) ever makes
  that node hold anything else at that index.
\<close>

theorem committed_entries_survive:
  assumes "reachable_on load save sound fits disk ms tim c" "(cluster_step fits ms tim)\<^sup>*\<^sup>* c c'"
    and "n \<in> ids ms" "j \<le> cm_commit_index (core_of c n)" "log_get (cm_log (core_of c n)) j = Some e"
  shows "j \<le> last_log_index (core_of c' n) \<and>
    (snapshot_index (core_of c' n) < j \<longrightarrow> log_get (cm_log (core_of c' n)) j = Some e)"
proof -
  obtain g h where gh: "cluster_rel ms g c" "cluster_rel ms h c'" "take j (pl g n) = take j (pl h n)"
    "j \<le> length (pl g n)" "j \<le> length (pl h n)"
    by (rule reachable_keeps [OF assms(1-4)])
  note G = node_relD(8) [OF cluster_relD(2) [OF gh(1) assms(3)]]
    and H = node_relD(8) [OF cluster_relD(2) [OF gh(2) assms(3)]]
  have "snapshot_index (core_of c n) < j"
    using assms(5) by (auto simp: rlog.getAt [OF G] snapshot_index_def split: if_splits)
  with read_prefix [OF G H gh(3-5) order_refl] assms(5) gh(5) rlog.lastIndex [OF H] show ?thesis
    by (auto simp: snapshot_index_def last_log_index_def)
qed

theorem committed_entries_survive_witness:
  "\<exists>c. on_memory c \<and> log_get (cm_log (core_of c 2)) 1 = Some (log_entry_new 1 [7]) \<and>
     1 \<le> cm_commit_index (core_of c 2) \<and> 1 \<le> last_log_index (core_of c 2)"
proof -
  obtain c where c: "on_memory c" "cm_log (core_of c 2) = from_entries [log_entry_new 1 [7]]"
    "cm_commit_index (core_of c 2) = 1"
    by (rule trio_reachable) (auto simp: view_def Let_def)
  have e: "log_get (cm_log (core_of c 2)) 1 = Some (log_entry_new 1 [7])"
    using c(2) by (simp add: log_get_def from_entries_def last_index_def)
  have "2 \<in> ids trio" by (simp add: ids_def trio_def)
  with committed_entries_survive [OF c(1) rtranclp.rtrancl_refl _ _ e] c e show ?thesis by auto
qed

text \<open>
  C12. No node ever panics: in every reachable state the apply drain finds every committed
  entry and a snapshot finds the term of the entry it covers, so neither \<open>expect\<close> fails.
\<close>

theorem nodes_never_panic:
  assumes "reachable_on load save sound fits disk ms tim c" "n \<in> ids ms"
  shows "drain_tick (cl_node c n) \<noteq> None \<and> control_snapshot index data (cl_node c n) \<noteq> None"
proof -
  obtain g where "cluster_rel ms g c" by (rule reachable_rel [OF assms(1)])
  then have "cm_inv (core_of c n)" using node_relD(5) cluster_relD(2) assms(2) by blast
  from exec_total [OF this, of TakeApplies] exec_total [OF this, of "TakeSnapshot index data"]
  show ?thesis by (auto simp: drain_tick_def control_snapshot_def core_of_def)
qed

theorem nodes_never_panic_witness:
  "\<exists>c. on_memory c \<and> drain_tick (cl_node c 1) \<noteq> None \<and> control_snapshot 1 [] (cl_node c 1) \<noteq> None"
proof -
  obtain c where c: "on_memory c" by (rule trio_reachable)
  have "1 \<in> ids trio" by (simp add: ids_def trio_def)
  from nodes_never_panic [OF c this] c show ?thesis by blast
qed

text \<open>
  C16. The code refines the protocol: for every reachable state of the cluster there is a
  reachable state of the abstract protocol in which each node has the same term, vote and
  commit index, and the whole log that the node's compacted log stands for.
\<close>

theorem cluster_refines_protocol:
  assumes "reachable_on load save sound fits disk ms tim c"
  shows "\<exists>g. proto_reach (majority ms) g \<and>
    (\<forall>n \<in> ids ms. cm_current_term (core_of c n) = pt g n \<and>
       cm_voted_for (core_of c n) = map_option fst (ballot g n (pt g n)) \<and>
       cm_commit_index (core_of c n) = pc g n \<and> represents (pl g n) (cm_log (core_of c n)))"
proof -
  obtain g where g: "proto_reach (majority ms) g" "cluster_rel ms g c" by (rule reachable_rel [OF assms])
  from node_relD(6-9) [OF cluster_relD(2) [OF g(2)]] g(1) show ?thesis by blast
qed

theorem cluster_refines_protocol_witness:
  "\<exists>c g. on_memory c \<and> proto_reach (majority trio) g \<and> cm_commit_index (core_of c 1) = 1 \<and> pc g 1 = 1"
proof -
  obtain c where c: "on_memory c" "cm_commit_index (core_of c 1) = 1"
    by (rule trio_reachable) (auto simp: view_def Let_def)
  have "1 \<in> ids trio" by (simp add: ids_def trio_def)
  with cluster_refines_protocol [OF c(1)] c show ?thesis by fastforce
qed

section \<open>The replicated store\<close>









end
